(* ===== verification/Prelude.thy ===== *)
theory Prelude
  imports Main "HOL-Library.Word" "HOL-Library.Multiset"
begin

text \<open>
  Shared vocabulary of the development: the exceptions and failures of the C++ code, the
  reachability of a step relation together with the locale that turns an inductive invariant
  into a fact about all reachable states, and the generic lemmas on lists, multisets and
  words that the component theories use.
\<close>

text \<open>The collections of the development: equations of handles, of guards, of result objects.\<close>

named_theorems handle_simps \<open>operations on handles and prepared coroutines\<close>
named_theorems guard_simps \<open>scope guards\<close>
named_theorems result_simps \<open>what is done with a result object that is pending or used\<close>

section \<open>Failures\<close>

text \<open>
  The two exception classes that \<^verbatim>\<open>coroutine.h\<close> declares, and any exception of the
  client, carried by \<^verbatim>\<open>std::exception_ptr\<close>.
\<close>

datatype exn =
    await_canceled_exception
  | invalid_state
  | user_exn nat

text \<open>
  How an operation can fail to return: it throws, it calls \<^verbatim>\<open>std::terminate\<close> (an
  exception that leaves a destructor), or it dereferences a null pointer.
\<close>

datatype cpp_error = Throw exn | Terminate | Null_dereference

section \<open>Reachability and invariants\<close>

inductive reachable :: "('s \<Rightarrow> bool) \<Rightarrow> ('s \<Rightarrow> 's \<Rightarrow> bool) \<Rightarrow> 's \<Rightarrow> bool"
  for init :: "'s \<Rightarrow> bool" and step :: "'s \<Rightarrow> 's \<Rightarrow> bool"
where
  start: "init s \<Longrightarrow> reachable init step s"
| next_step: "reachable init step s \<Longrightarrow> step s t \<Longrightarrow> reachable init step t"

locale step_invariant =
  fixes init :: "'s \<Rightarrow> bool" and step :: "'s \<Rightarrow> 's \<Rightarrow> bool" and inv :: "'s \<Rightarrow> bool"
  assumes init_inv: "init s \<Longrightarrow> inv s"
    and step_inv: "inv s \<Longrightarrow> step s t \<Longrightarrow> inv t"
begin

lemma reachable_inv: "reachable init step s \<Longrightarrow> inv s"
  by (induction rule: reachable.induct) (auto intro: init_inv step_inv)

lemma steps_inv: "step\<^sup>*\<^sup>* s t \<Longrightarrow> inv s \<Longrightarrow> inv t"
  by (induction rule: rtranclp_induct) (auto intro: step_inv)

end

lemma reachable_steps: "step\<^sup>*\<^sup>* s t \<Longrightarrow> reachable init step s \<Longrightarrow> reachable init step t"
  by (induction rule: rtranclp_induct) (auto intro: reachable.next_step)

section \<open>Words\<close>

type_synonym uint32 = "32 word"

lemma unat_Suc_word: "unat (w + 1 :: uint32) = (if w = -1 then 0 else Suc (unat w))"
  by (metis add.commute add.right_inverse add_eq_0_iff unatSuc unsigned_0)

section \<open>Lists and multisets\<close>

lemma mset_remove_nth:
  "i < length xs \<Longrightarrow> mset xs - {#xs ! i#} = mset (take i xs) + mset (drop (Suc i) xs)"
  using arg_cong [OF id_take_nth_drop, of i xs mset] by simp

lemma nth_mem_mset_remove:
  assumes "i < length xs" and "j < length xs" and "i \<noteq> j"
  shows "xs ! j \<in># mset xs - {#xs ! i#}"
proof (cases "j < i")
  case True
  then have "xs ! j \<in> set (take i xs)"
    using assms(1) by (metis in_set_conv_nth length_take min.absorb2 nth_take order_less_imp_le)
  with assms show ?thesis by (simp add: mset_remove_nth)
next
  case False
  then have "drop (Suc i) xs ! (j - Suc i) = xs ! j" and "j - Suc i < length (drop (Suc i) xs)"
    using assms by simp_all
  then have "xs ! j \<in> set (drop (Suc i) xs)" by (metis nth_mem)
  with assms show ?thesis by (simp add: mset_remove_nth)
qed

end
