(* ===== verification/Guards.thy ===== *)
theory Guards
  imports Prelude
begin

text \<open>
  The scope guards of \<^verbatim>\<open>coroutine.h\<close>: \<^verbatim>\<open>lock_guard\<close> over a lockable object,
  \<^verbatim>\<open>empty_lockable\<close>, and \<^verbatim>\<open>on_destroy\<close>.  They justify that the operations of the
  components under a mutex are modelled as single sections.
\<close>

section \<open>Operations\<close>

text \<open>A \<^verbatim>\<open>basic_lockable\<close> object, by what its member functions do to the state.\<close>

record 's lockable =
  lk_lock :: "'s \<Rightarrow> 's"
  lk_unlock :: "'s \<Rightarrow> 's"

definition empty_lockable :: "'s lockable" where
  "empty_lockable = \<lparr>lk_lock = (\<lambda>s. s), lk_unlock = (\<lambda>s. s)\<rparr>"

definition empty_try_lock :: "'s \<Rightarrow> bool \<times> 's" where
  "empty_try_lock s = (True, s)"

definition lock_guard_ctor :: "'s lockable \<Rightarrow> 's \<Rightarrow> 's" where
  "lock_guard_ctor lk s = lk_lock lk s"

definition lock_guard_dtor :: "'s lockable \<Rightarrow> 's \<Rightarrow> 's" where
  "lock_guard_dtor lk s = lk_unlock lk s"

definition on_destroy_dtor :: "('s \<Rightarrow> 's) \<Rightarrow> 's \<Rightarrow> 's" where
  "on_destroy_dtor cb s = cb s"

text \<open>
  The end of a block runs the destructor of its guard, also when an exception leaves the block;
  a program that has terminated or crashed runs nothing any more.
\<close>

fun ends_program :: "cpp_error + 'r \<Rightarrow> bool" where
  "ends_program (Inl (Throw e)) = False"
| "ends_program (Inl _) = True"
| "ends_program (Inr _) = False"

definition scope_exit :: "('s \<Rightarrow> 's) \<Rightarrow> ('s \<Rightarrow> (cpp_error + 'r) \<times> 's) \<Rightarrow> 's \<Rightarrow> (cpp_error + 'r) \<times> 's" where
  "scope_exit dtor body s =
     (let (r, s1) = body s in (r, if ends_program r then s1 else dtor s1))"

definition guard_scope ::
    "'s lockable \<Rightarrow> ('s \<Rightarrow> (cpp_error + 'r) \<times> 's) \<Rightarrow> 's \<Rightarrow> (cpp_error + 'r) \<times> 's" where
  "guard_scope lk body s = scope_exit (lock_guard_dtor lk) body (lock_guard_ctor lk s)"

definition destroy_scope ::
    "('s \<Rightarrow> 's) \<Rightarrow> ('s \<Rightarrow> (cpp_error + 'r) \<times> 's) \<Rightarrow> 's \<Rightarrow> (cpp_error + 'r) \<times> 's" where
  "destroy_scope cb body s = scope_exit (on_destroy_dtor cb) body s"

lemmas guard_defs [guard_simps] =
  empty_lockable_def lock_guard_ctor_def lock_guard_dtor_def on_destroy_dtor_def
  scope_exit_def guard_scope_def destroy_scope_def

section \<open>Mutual exclusion by a guard\<close>

text \<open>What a lockable object promises.\<close>

locale basic_lock =
  fixes lk :: "'s lockable" and held :: "'s \<Rightarrow> bool"
  assumes lock_holds: "\<not> held s \<Longrightarrow> held (lk_lock lk s)"
    and unlock_frees: "held s \<Longrightarrow> \<not> held (lk_unlock lk s)"
begin

text \<open>
  However the block ends, the lock is free again, unless the program ended; the block itself
  runs with the lock held.
\<close>

lemma scope_frees:
  assumes "\<not> held s" and "\<And>t. held t \<Longrightarrow> held (snd (body t))"
  shows "held (lock_guard_ctor lk s)
       \<and> (ends_program (fst (guard_scope lk body s)) \<or> \<not> held (snd (guard_scope lk body s)))"
  using lock_holds [OF assms(1)] unlock_frees [OF assms(2) [OF lock_holds [OF assms(1)]]]
  by (simp add: guard_simps case_prod_beta)

end

text \<open>A state with a mutex beside it.\<close>

record 's with_mutex =
  wm_held :: bool
  wm_val :: 's

definition std_mutex :: "'s with_mutex lockable" where
  "std_mutex = \<lparr>lk_lock = (\<lambda>s. s\<lparr>wm_held := True\<rparr>), lk_unlock = (\<lambda>s. s\<lparr>wm_held := False\<rparr>)\<rparr>"

interpretation std_lock: basic_lock std_mutex wm_held
  by unfold_locales (simp_all add: std_mutex_def)

text \<open>An operation of a component, run on the part of the state that the mutex protects.\<close>

definition protected :: "('s \<Rightarrow> 'r \<times> 's) \<Rightarrow> 's with_mutex \<Rightarrow> (cpp_error + 'r) \<times> 's with_mutex" where
  "protected op s = (let (r, v) = op (wm_val s) in (Inr r, s\<lparr>wm_val := v\<rparr>))"

text \<open>
  A sequence of operations under the mutex is the sequence of the operations: the guard adds
  nothing to what they do, and leaves the mutex free between them; with the empty lockable the
  guard is not there at all.
\<close>

lemma guarded_operation:
  assumes "\<not> wm_held s"
  shows "guard_scope std_mutex (protected op) s = (Inr (fst (op (wm_val s))), s\<lparr>wm_val := snd (op (wm_val s))\<rparr>)"
  using assms by (cases s) (simp add: guard_simps protected_def std_mutex_def case_prod_beta)

lemma guard_empty_lockable: "guard_scope empty_lockable body s = body s"
  by (simp add: guard_simps case_prod_beta)

lemma guarded_operations:
  "\<not> wm_held s \<Longrightarrow>
   fold (\<lambda>op s. snd (guard_scope std_mutex (protected op) s)) ops s
   = s\<lparr>wm_val := fold (\<lambda>op v. snd (op v)) ops (wm_val s)\<rparr>"
  by (induction ops arbitrary: s) (simp_all add: guarded_operation)

text \<open>\<^verbatim>\<open>on_destroy\<close> calls its function once, whichever way the block is left.\<close>

lemma on_destroy_once:
  assumes "body s = (r, s1)" and "\<not> ends_program r"
  shows "destroy_scope cb body s = (r, cb s1)"
  using assms by (simp add: guard_simps)

end
