(* ===== verification/Prepared_Coro.thy ===== *)
theory Prepared_Coro
  imports Prelude
begin

text \<open>
  Coroutine handles, the class \<^verbatim>\<open>prepared_coro\<close> and the helper
  \<^verbatim>\<open>call_await_suspend\<close> of \<^verbatim>\<open>coroutine.h\<close>.  A handle is the null
  handle, the handle of \<^verbatim>\<open>std::noop_coroutine()\<close>, or the address of a frame.  What
  the library does with handles is recorded as events; a resumed frame runs code of the
  client (or the \<^verbatim>\<open>do_resume\<close> of a library frame, modelled with its component).
\<close>

section \<open>Handles and events\<close>

datatype coro_handle = Null_handle | Noop_coroutine | Coro nat

datatype coro_event =
    Resume nat    \<comment> \<open>\<^verbatim>\<open>handle.resume()\<close>\<close>
  | Destroy nat   \<comment> \<open>\<^verbatim>\<open>handle.destroy()\<close>\<close>
  | Transfer nat  \<comment> \<open>the handle left for a symmetric transfer\<close>

text \<open>\<^verbatim>\<open>from_address(p).resume()\<close> and \<^verbatim>\<open>.destroy()\<close>; the no-op coroutine does nothing.\<close>

fun handle_resume :: "coro_handle \<Rightarrow> coro_event list" where
  "handle_resume (Coro a) = [Resume a]"
| "handle_resume Noop_coroutine = []"
| "handle_resume Null_handle = []"

fun handle_destroy :: "coro_handle \<Rightarrow> coro_event list" where
  "handle_destroy (Coro a) = [Destroy a]"
| "handle_destroy Noop_coroutine = []"
| "handle_destroy Null_handle = []"

fun handle_transfer :: "coro_handle \<Rightarrow> coro_event list" where
  "handle_transfer (Coro a) = [Transfer a]"
| "handle_transfer Noop_coroutine = []"
| "handle_transfer Null_handle = []"

section \<open>prepared\_coro\<close>

text \<open>
  \<^verbatim>\<open>std::unique_ptr<void, deleter>\<close> over the address of the handle: the null handle is the
  empty object.
\<close>

record prepared_coro =
  pc_coro :: coro_handle

definition prepared_empty :: prepared_coro where
  "prepared_empty = \<lparr>pc_coro = Null_handle\<rparr>"

definition prepared_of :: "coro_handle \<Rightarrow> prepared_coro" where
  "prepared_of h = \<lparr>pc_coro = h\<rparr>"

definition prepared_bool :: "prepared_coro \<Rightarrow> bool" where
  "prepared_bool p \<longleftrightarrow> pc_coro p \<noteq> Null_handle"

text \<open>\<^verbatim>\<open>_coro.release()\<close>: hands the address out and leaves the object empty.\<close>

definition prepared_release :: "prepared_coro \<Rightarrow> coro_handle \<times> prepared_coro" where
  "prepared_release p = (pc_coro p, p\<lparr>pc_coro := Null_handle\<rparr>)"

definition prepared_resume :: "prepared_coro \<Rightarrow> prepared_coro \<times> coro_event list" where
  "prepared_resume p =
     (if prepared_bool p
      then let (h, p') = prepared_release p in (p', handle_resume h)
      else (p, []))"

definition prepared_call :: "prepared_coro \<Rightarrow> prepared_coro \<times> coro_event list" where
  "prepared_call p =
     (if prepared_bool p
      then let (h, p') = prepared_release p in (p', handle_resume h)
      else (p, []))"

definition prepared_destroy :: "prepared_coro \<Rightarrow> prepared_coro \<times> coro_event list" where
  "prepared_destroy p =
     (if prepared_bool p
      then let (h, p') = prepared_release p in (p', handle_destroy h)
      else (p, []))"

definition symmetric_transfer :: "prepared_coro \<Rightarrow> coro_handle \<times> prepared_coro" where
  "symmetric_transfer p =
     (if \<not> prepared_bool p then (Noop_coroutine, p) else prepared_release p)"

text \<open>The destructor of the \<^verbatim>\<open>unique_ptr\<close> calls the deleter on a non-null pointer.\<close>

definition prepared_deleter :: "coro_handle \<Rightarrow> coro_event list" where
  "prepared_deleter h = handle_resume h"

definition prepared_dtor :: "prepared_coro \<Rightarrow> coro_event list" where
  "prepared_dtor p = (if prepared_bool p then prepared_deleter (pc_coro p) else [])"

text \<open>Move assignment of the \<^verbatim>\<open>unique_ptr\<close>: the old target goes to the deleter.\<close>

definition prepared_assign ::
    "prepared_coro \<Rightarrow> prepared_coro \<Rightarrow> prepared_coro \<times> coro_event list" where
  "prepared_assign p q = (q, prepared_dtor p)"

lemmas prepared_simps [handle_simps] =
  prepared_empty_def prepared_of_def prepared_bool_def prepared_release_def
  prepared_resume_def prepared_call_def prepared_destroy_def symmetric_transfer_def
  prepared_deleter_def prepared_dtor_def prepared_assign_def

section \<open>Handles are used up exactly once\<close>

datatype prepared_op =
    Op_resume | Op_call | Op_destroy | Op_transfer | Op_assign coro_handle

fun prepared_step :: "prepared_coro \<Rightarrow> prepared_op \<Rightarrow> prepared_coro \<times> coro_event list" where
  "prepared_step p Op_resume = prepared_resume p"
| "prepared_step p Op_call = prepared_call p"
| "prepared_step p Op_destroy = prepared_destroy p"
| "prepared_step p Op_transfer =
     (let (h, p') = symmetric_transfer p in (p', handle_transfer h))"
| "prepared_step p (Op_assign h) = prepared_assign p (prepared_of h)"

text \<open>The life of one object: operations in any order, then its destructor.\<close>

fun prepared_life :: "prepared_coro \<Rightarrow> prepared_op list \<Rightarrow> coro_event list" where
  "prepared_life p [] = prepared_dtor p"
| "prepared_life p (x # xs) =
     (let (p', ev) = prepared_step p x in ev @ prepared_life p' xs)"

fun uses :: "nat \<Rightarrow> coro_event \<Rightarrow> bool" where
  "uses a (Resume b) = (a = b)"
| "uses a (Destroy b) = (a = b)"
| "uses a (Transfer b) = (a = b)"

abbreviation use_count :: "nat \<Rightarrow> coro_event list \<Rightarrow> nat" where
  "use_count a ev \<equiv> length (filter (uses a) ev)"

fun assigned :: "nat \<Rightarrow> prepared_op \<Rightarrow> bool" where
  "assigned a (Op_assign h) = (h = Coro a)"
| "assigned a _ = False"

lemma prepared_step_uses:
  "prepared_step p x = (p', ev) \<Longrightarrow>
   use_count a ev + (if pc_coro p' = Coro a then 1 else 0)
   = (if pc_coro p = Coro a then 1 else 0) + (if assigned a x then 1 else 0)"
  by (cases x; cases "pc_coro p")
     (auto simp: prepared_simps split: if_splits)

lemma prepared_dtor_uses: "use_count a (prepared_dtor p) = (if pc_coro p = Coro a then 1 else 0)"
  by (cases "pc_coro p") (auto simp: prepared_simps)

text \<open>
  C33: however a \<^verbatim>\<open>prepared_coro\<close> is used (resumed, called, destroyed, transferred,
  assigned over, in any order) and then destructed, a handle stored in it is resumed,
  destroyed or transferred exactly as many times as it was put in: never lost, never used
  twice.
\<close>

theorem prepared_coro_uses_handle_once:
  "use_count a (prepared_life p xs)
   = (if pc_coro p = Coro a then 1 else 0) + length (filter (assigned a) xs)"
proof (induction xs arbitrary: p)
  case Nil
  then show ?case by (simp add: prepared_dtor_uses)
next
  case (Cons x xs)
  obtain p' ev where op: "prepared_step p x = (p', ev)" by fastforce
  from prepared_step_uses [OF op, of a] Cons.IH [of p'] op show ?case by simp
qed

section \<open>call\_await\_suspend\<close>

text \<open>
  The return type of an awaiter's \<^verbatim>\<open>await_suspend\<close> is known at compile time: it is
  void, convertible to a handle, or convertible to bool.  The awaiter's state is \<open>'s\<close>.
\<close>

datatype 's await_suspend_fn =
    Suspend_void "coro_handle \<Rightarrow> 's \<Rightarrow> 's"
  | Suspend_handle "coro_handle \<Rightarrow> 's \<Rightarrow> coro_handle \<times> 's"
  | Suspend_bool "coro_handle \<Rightarrow> 's \<Rightarrow> bool \<times> 's"

fun call_await_suspend ::
    "'s await_suspend_fn \<Rightarrow> coro_handle \<Rightarrow> 's \<Rightarrow> prepared_coro \<times> 's" where
  "call_await_suspend (Suspend_handle f) h s = (let (r, s') = f h s in (prepared_of r, s'))"
| "call_await_suspend (Suspend_bool f) h s =
     (let (b, s') = f h s in (if b then prepared_empty else prepared_of h, s'))"
| "call_await_suspend (Suspend_void f) h s = (prepared_empty, s)"

end
