(* ===== verification/Awaitable.thy ===== *)
theory Awaitable
  imports Prepared_Coro "HOL-Library.AList"
begin

text \<open>
  The core of \<^verbatim>\<open>coroutine.h\<close>: \<^verbatim>\<open>awaitable<T>\<close>, its
  \<^verbatim>\<open>awaitable_result<T>\<close>, \<^verbatim>\<open>coroutine<T>\<close> and the promise of a coroutine
  frame.  These objects point at each other, so they live in a store: awaitables by address,
  the live coroutine frames by address, and the trace of what was done with handles.  A
  callback closure is an identifier; calling it is a parameter of the operations that call it.
\<close>

section \<open>Objects and the store\<close>

text \<open>
  \<^verbatim>\<open>State\<close> and the anonymous union of \<^verbatim>\<open>awaitable\<close> as one tagged value.  The
  coroutine member is \<^verbatim>\<open>coroutine<T>::_coro\<close> and the pointer member a
  \<^verbatim>\<open>unique_ptr\<close>; both can be null.
\<close>

datatype 'v aw_state =
    No_value
  | Value 'v
  | Exception exn
  | Coroutine "nat option"
  | Callback nat
  | Callback_ptr "nat option"

type_synonym awt_ptr = nat

record 'v awaitable =
  a_state :: "'v aw_state"
  a_owner :: coro_handle

record promise =
  p_target :: "awt_ptr option"

text \<open>
  \<^verbatim>\<open>cur_exn\<close> is what \<^verbatim>\<open>std::current_exception()\<close> returns to the running code.
\<close>

record 'v store =
  awts :: "awt_ptr \<Rightarrow> 'v awaitable"
  frames :: "(nat \<times> promise) list"
  cur_exn :: "exn option"
  trace :: "coro_event list"

definition emit :: "coro_event list \<Rightarrow> 'v store \<Rightarrow> 'v store" where
  "emit ev s = s\<lparr>trace := trace s @ ev\<rparr>"

abbreviation state_of :: "'v store \<Rightarrow> awt_ptr \<Rightarrow> 'v aw_state" where
  "state_of s p \<equiv> a_state (awts s p)"

abbreviation owner_of :: "'v store \<Rightarrow> awt_ptr \<Rightarrow> coro_handle" where
  "owner_of s p \<equiv> a_owner (awts s p)"

definition set_state :: "awt_ptr \<Rightarrow> 'v aw_state \<Rightarrow> 'v store \<Rightarrow> 'v store" where
  "set_state p st s = s\<lparr>awts := (awts s)(p := (awts s p)\<lparr>a_state := st\<rparr>)\<rparr>"

definition set_owner :: "awt_ptr \<Rightarrow> coro_handle \<Rightarrow> 'v store \<Rightarrow> 'v store" where
  "set_owner p h s = s\<lparr>awts := (awts s)(p := (awts s p)\<lparr>a_owner := h\<rparr>)\<rparr>"

definition set_target :: "nat \<Rightarrow> awt_ptr option \<Rightarrow> 'v store \<Rightarrow> 'v store" where
  "set_target f t s = s\<lparr>frames := AList.map_entry f (\<lambda>pr. pr\<lparr>p_target := t\<rparr>) (frames s)\<rparr>"

definition target_of :: "'v store \<Rightarrow> nat \<Rightarrow> awt_ptr option" where
  "target_of s f = (case map_of (frames s) f of None \<Rightarrow> None | Some pr \<Rightarrow> p_target pr)"

fun ready_state :: "'v aw_state \<Rightarrow> bool" where
  "ready_state No_value = True"
| "ready_state (Value _) = True"
| "ready_state (Exception _) = True"
| "ready_state _ = False"

definition await_ready :: "awt_ptr \<Rightarrow> 'v store \<Rightarrow> bool" where
  "await_ready p s = ready_state (state_of s p)"

definition is_ready :: "awt_ptr \<Rightarrow> 'v store \<Rightarrow> bool" where
  "is_ready p s = await_ready p s"

definition is_awaiting :: "awt_ptr \<Rightarrow> 'v store \<Rightarrow> bool" where
  "is_awaiting p s \<longleftrightarrow> owner_of s p \<noteq> Null_handle"

section \<open>Destruction of frames and of the awaitable's state\<close>

lemma length_delete_less:
  "map_of xs k = Some v \<Longrightarrow> length (AList.delete k xs) < length xs"
  by (auto simp: AList.delete_eq dest!: map_of_SomeD intro!: length_filter_less)

text \<open>
  \<^verbatim>\<open>handle.destroy()\<close> on a frame of \<^verbatim>\<open>coroutine<T>\<close>.  The frame leaves the live
  frames and its promise is destructed: \<^verbatim>\<open>~promise_type\<close> wakes the target up and drops
  the prepared coroutine, which resumes the owner of the target.  The equation inlines
  \<^verbatim>\<open>wakeup\<close>, \<^verbatim>\<open>drop\<close> and \<^verbatim>\<open>destroy_state\<close> of the target, since a target in
  the coroutine state destroys a frame in turn; \<open>destroy_frame_eq\<close> gives it in terms of the
  operations.  Destroying a frame that is not live is undefined in C++ and changes nothing here.
\<close>

function destroy_frame :: "nat \<Rightarrow> 'v store \<Rightarrow> 'v store" where
  "destroy_frame f s =
     (case map_of (frames s) f of
        None \<Rightarrow> s
      | Some pr \<Rightarrow>
          let s1 = emit [Destroy f] (s\<lparr>frames := AList.delete f (frames s)\<rparr>) in
          (case p_target pr of
             None \<Rightarrow> s1
           | Some t \<Rightarrow>
               let s2 =
                 (if ready_state (state_of s1 t) then s1
                  else set_state t No_value
                    (case state_of s1 t of
                       Coroutine (Some g) \<Rightarrow> destroy_frame g (set_state t (Coroutine None) s1)
                     | _ \<Rightarrow> s1))
               in emit (prepared_dtor (prepared_of (owner_of s2 t))) (set_owner t Null_handle s2)))"
  by pat_completeness auto
termination
  by (relation "measure (\<lambda>(f, s). length (frames s))")
     (auto simp: emit_def set_state_def length_delete_less)

declare destroy_frame.simps [simp del]

text \<open>\<^verbatim>\<open>coroutine<T>::cancel()\<close>; the member is released before the frame is destroyed.\<close>

definition coroutine_cancel :: "nat option \<Rightarrow> 'v store \<Rightarrow> 'v store" where
  "coroutine_cancel c s = (case c of None \<Rightarrow> s | Some f \<Rightarrow> destroy_frame f s)"

definition destroy_state :: "awt_ptr \<Rightarrow> 'v store \<Rightarrow> 'v store" where
  "destroy_state p s =
     (case state_of s p of
        Coroutine c \<Rightarrow> coroutine_cancel c (set_state p (Coroutine None) s)
      | _ \<Rightarrow> s)"

text \<open>
  \<^verbatim>\<open>set_value(args...)\<close>: \<open>mk\<close> is the outcome of constructing the value from the
  arguments (or of calling the invocable argument).
\<close>

definition set_value :: "awt_ptr \<Rightarrow> exn + 'v \<Rightarrow> 'v store \<Rightarrow> 'v store" where
  "set_value p mk s =
     (let s1 = destroy_state p s in
      case mk of Inr v \<Rightarrow> set_state p (Value v) s1 | Inl e \<Rightarrow> set_state p (Exception e) s1)"

definition set_exception :: "awt_ptr \<Rightarrow> exn \<Rightarrow> 'v store \<Rightarrow> 'v store" where
  "set_exception p e s = set_state p (Exception e) (destroy_state p s)"

definition drop_awt :: "awt_ptr \<Rightarrow> 'v store \<Rightarrow> 'v store" where
  "drop_awt p s = set_state p No_value (destroy_state p s)"

definition wakeup :: "awt_ptr \<Rightarrow> 'v store \<Rightarrow> prepared_coro \<times> 'v store" where
  "wakeup p s =
     (let s1 = (if \<not> is_ready p s then drop_awt p s else s)
      in (prepared_of (owner_of s1 p), set_owner p Null_handle s1))"

text \<open>A \<^verbatim>\<open>prepared_coro\<close> temporary that is not used: its destructor resumes.\<close>

definition discard :: "prepared_coro \<times> 'v store \<Rightarrow> 'v store" where
  "discard r = (let (pc, s) = r in emit (prepared_dtor pc) s)"

section \<open>awaitable\_result\<close>

text \<open>
  The \<^verbatim>\<open>unique_ptr\<close> of a result: null when uninitialised or used.  Every setter
  releases the pointer first, so the second component of the outcome is the result object
  after the call.
\<close>

type_synonym awaitable_result = "awt_ptr option"

definition result_assign_value ::
    "awaitable_result \<Rightarrow> exn + 'v \<Rightarrow> 'v store \<Rightarrow> prepared_coro \<times> awaitable_result \<times> 'v store" where
  "result_assign_value r mk s =
     (case r of
        Some p \<Rightarrow> let (pc, s') = wakeup p (set_value p mk s) in (pc, None, s')
      | None \<Rightarrow> (prepared_empty, None, s))"

definition result_call ::
    "awaitable_result \<Rightarrow> exn + 'v \<Rightarrow> 'v store \<Rightarrow> prepared_coro \<times> awaitable_result \<times> 'v store" where
  "result_call r mk s =
     (case r of
        Some p \<Rightarrow> let (pc, s') = wakeup p (set_value p mk s) in (pc, None, s')
      | None \<Rightarrow> (prepared_empty, None, s))"

definition result_assign_exception ::
    "awaitable_result \<Rightarrow> exn \<Rightarrow> 'v store \<Rightarrow> prepared_coro \<times> awaitable_result \<times> 'v store" where
  "result_assign_exception r e s =
     (case r of
        Some p \<Rightarrow> let (pc, s') = wakeup p (set_exception p e s) in (pc, None, s')
      | None \<Rightarrow> (prepared_empty, None, s))"

definition result_set_exception ::
    "awaitable_result \<Rightarrow> exn \<Rightarrow> 'v store \<Rightarrow> prepared_coro \<times> awaitable_result \<times> 'v store" where
  "result_set_exception r e s =
     (case r of
        Some p \<Rightarrow> let (pc, s') = wakeup p (set_exception p e s) in (pc, None, s')
      | None \<Rightarrow> (prepared_empty, None, s))"

definition result_assign_nullopt ::
    "awaitable_result \<Rightarrow> 'v store \<Rightarrow> prepared_coro \<times> awaitable_result \<times> 'v store" where
  "result_assign_nullopt r s =
     (case r of
        Some p \<Rightarrow> let (pc, s') = wakeup p (drop_awt p s) in (pc, None, s')
      | None \<Rightarrow> (prepared_empty, None, s))"

definition result_drop ::
    "awaitable_result \<Rightarrow> 'v store \<Rightarrow> prepared_coro \<times> awaitable_result \<times> 'v store" where
  "result_drop r s =
     (case r of
        Some p \<Rightarrow> let (pc, s') = wakeup p (drop_awt p s) in (pc, None, s')
      | None \<Rightarrow> (prepared_empty, None, s))"

definition result_release :: "awaitable_result \<Rightarrow> awt_ptr option \<times> awaitable_result" where
  "result_release r = (r, None)"

definition result_bool :: "awaitable_result \<Rightarrow> bool" where
  "result_bool r \<longleftrightarrow> r \<noteq> None"

text \<open>The deleter of the \<^verbatim>\<open>unique_ptr\<close>: an exception in flight becomes the result.\<close>

definition result_deleter :: "awt_ptr \<Rightarrow> 'v store \<Rightarrow> 'v store" where
  "result_deleter p s =
     discard (wakeup p (case cur_exn s of Some e \<Rightarrow> set_exception p e s | None \<Rightarrow> drop_awt p s))"

definition result_dtor :: "awaitable_result \<Rightarrow> 'v store \<Rightarrow> 'v store" where
  "result_dtor r s = (case r of Some p \<Rightarrow> result_deleter p s | None \<Rightarrow> s)"

definition result_move_assign ::
    "awaitable_result \<Rightarrow> awaitable_result \<Rightarrow> 'v store \<Rightarrow> awaitable_result \<times> awaitable_result \<times> 'v store" where
  "result_move_assign r other s = (other, None, result_dtor r s)"

section \<open>Reading and updating the store\<close>

lemma emit_simps [simp]:
  "awts (emit ev s) = awts s" "frames (emit ev s) = frames s"
  "cur_exn (emit ev s) = cur_exn s" "trace (emit ev s) = trace s @ ev"
  by (simp_all add: emit_def)

lemma set_state_simps [simp]:
  "state_of (set_state p st s) q = (if q = p then st else state_of s q)"
  "owner_of (set_state p st s) q = owner_of s q"
  "frames (set_state p st s) = frames s" "cur_exn (set_state p st s) = cur_exn s"
  "trace (set_state p st s) = trace s"
  by (simp_all add: set_state_def)

lemma set_owner_simps [simp]:
  "state_of (set_owner p h s) q = state_of s q"
  "owner_of (set_owner p h s) q = (if q = p then h else owner_of s q)"
  "frames (set_owner p h s) = frames s" "cur_exn (set_owner p h s) = cur_exn s"
  "trace (set_owner p h s) = trace s"
  by (simp_all add: set_owner_def)

lemma set_target_simps [simp]:
  "awts (set_target f t s) = awts s" "cur_exn (set_target f t s) = cur_exn s"
  "trace (set_target f t s) = trace s"
  by (simp_all add: set_target_def)

lemma emit_empty [simp]: "emit [] s = s"
  by (simp add: emit_def)

lemma set_state_id [simp]: "state_of s p = st \<Longrightarrow> set_state p st s = s"
  by (auto simp: set_state_def)

lemma set_state_twice [simp]: "set_state p st (set_state p st' s) = set_state p st s"
  by (simp add: set_state_def)

lemma set_owner_twice [simp]: "set_owner p h (set_owner p h' s) = set_owner p h s"
  by (simp add: set_owner_def)

lemma set_owner_id [simp]: "owner_of s p = h \<Longrightarrow> set_owner p h s = s"
  by (auto simp: set_owner_def)

text \<open>
  A state that owns no unstarted frame: every state but that of an awaitable built from a
  coroutine which nobody awaited yet.  Destroying such a state has no effect on frames.
\<close>

fun dispatched :: "'v aw_state \<Rightarrow> bool" where
  "dispatched (Coroutine (Some f)) = False"
| "dispatched _ = True"

lemma dispatched_ready: "ready_state st \<Longrightarrow> dispatched st"
  by (cases st) auto

lemma destroy_state_dispatched [simp]: "dispatched (state_of s p) \<Longrightarrow> destroy_state p s = s"
  by (auto simp: destroy_state_def coroutine_cancel_def split: aw_state.splits option.splits)

lemma destroy_frame_eq:
  "destroy_frame f s =
     (case map_of (frames s) f of
        None \<Rightarrow> s
      | Some pr \<Rightarrow>
          let s1 = emit [Destroy f] (s\<lparr>frames := AList.delete f (frames s)\<rparr>) in
          (case p_target pr of None \<Rightarrow> s1 | Some t \<Rightarrow> discard (wakeup t s1)))"
  by (subst destroy_frame.simps)
     (simp add: Let_def wakeup_def discard_def is_ready_def await_ready_def drop_awt_def
        destroy_state_def coroutine_cancel_def split: option.split aw_state.split)

lemma destroy_unstarted_frame:
  "map_of (frames s) f = Some pr \<Longrightarrow> p_target pr = None \<Longrightarrow>
   destroy_frame f s = emit [Destroy f] (s\<lparr>frames := AList.delete f (frames s)\<rparr>)"
  by (simp add: destroy_frame_eq Let_def)

lemma wakeup_ready:
  "ready_state (state_of s p) \<Longrightarrow>
   wakeup p s = (prepared_of (owner_of s p), set_owner p Null_handle s)"
  by (simp add: wakeup_def is_ready_def await_ready_def)

lemma discard_wakeup_ready:
  "ready_state (state_of s p) \<Longrightarrow>
   discard (wakeup p s)
   = emit (prepared_dtor (prepared_of (owner_of s p))) (set_owner p Null_handle s)"
  by (simp add: discard_def wakeup_ready)

lemma discard_eq: "discard (pc, s) = emit (prepared_dtor pc) s"
  by (simp add: discard_def)

section \<open>A result is delivered exactly once\<close>

datatype 'v result_op =
    R_assign_value "exn + 'v"
  | R_call "exn + 'v"
  | R_assign_exception exn
  | R_set_exception exn
  | R_assign_nullopt
  | R_drop

fun result_step ::
    "awaitable_result \<Rightarrow> 'v result_op \<Rightarrow> 'v store \<Rightarrow> prepared_coro \<times> awaitable_result \<times> 'v store" where
  "result_step r (R_assign_value mk) s = result_assign_value r mk s"
| "result_step r (R_call mk) s = result_call r mk s"
| "result_step r (R_assign_exception e) s = result_assign_exception r e s"
| "result_step r (R_set_exception e) s = result_set_exception r e s"
| "result_step r R_assign_nullopt s = result_assign_nullopt r s"
| "result_step r R_drop s = result_drop r s"

text \<open>
  The life of a result object: setters in any number and order, each returned
  \<^verbatim>\<open>prepared_coro\<close> dropped at once, then the destructor.
\<close>

fun result_life :: "awaitable_result \<Rightarrow> 'v result_op list \<Rightarrow> 'v store \<Rightarrow> 'v store" where
  "result_life r [] s = result_dtor r s"
| "result_life r (x # xs) s =
     (let (pc, r', s') = result_step r x s in result_life r' xs (emit (prepared_dtor pc) s'))"

fun outcome_state :: "exn + 'v \<Rightarrow> 'v aw_state" where
  "outcome_state (Inr v) = Value v"
| "outcome_state (Inl e) = Exception e"

fun op_state :: "'v result_op \<Rightarrow> 'v aw_state" where
  "op_state (R_assign_value mk) = outcome_state mk"
| "op_state (R_call mk) = outcome_state mk"
| "op_state (R_assign_exception e) = Exception e"
| "op_state (R_set_exception e) = Exception e"
| "op_state R_assign_nullopt = No_value"
| "op_state R_drop = No_value"

definition life_state :: "exn option \<Rightarrow> 'v result_op list \<Rightarrow> 'v aw_state" where
  "life_state cur xs =
     (case xs of
        x # _ \<Rightarrow> op_state x
      | [] \<Rightarrow> (case cur of Some e \<Rightarrow> Exception e | None \<Rightarrow> No_value))"

definition resolved :: "awt_ptr \<Rightarrow> 'v aw_state \<Rightarrow> 'v store \<Rightarrow> 'v store" where
  "resolved p st s = set_owner p Null_handle (set_state p st s)"

lemmas result_defs =
  result_assign_value_def result_call_def result_assign_exception_def
  result_set_exception_def result_assign_nullopt_def result_drop_def

lemma set_value_dispatched:
  "dispatched (state_of s p) \<Longrightarrow> set_value p mk s = set_state p (outcome_state mk) s"
  by (cases mk) (simp_all add: set_value_def)

lemma ready_outcome [simp]: "ready_state (outcome_state mk)"
  by (cases mk) simp_all

lemma result_step_resolves [result_simps]:
  "dispatched (state_of s p) \<Longrightarrow>
   result_step (Some p) x s = (prepared_of (owner_of s p), None, resolved p (op_state x) s)"
  by (cases x)
     (simp_all add: result_defs set_value_dispatched set_exception_def drop_awt_def wakeup_ready
        resolved_def)

lemma result_step_used [result_simps]: "result_step None x s = (prepared_empty, None, s)"
  by (cases x) (simp_all add: result_defs)

lemma result_life_used [result_simps]: "result_life None xs s = s"
  by (induction xs) (simp_all add: result_dtor_def result_step_used prepared_simps)

lemma result_dtor_resolves [result_simps]:
  "dispatched (state_of s p) \<Longrightarrow>
   result_dtor (Some p) s
   = emit (prepared_dtor (prepared_of (owner_of s p))) (resolved p (life_state (cur_exn s) []) s)"
  by (simp add: result_dtor_def result_deleter_def set_exception_def drop_awt_def
      discard_wakeup_ready life_state_def resolved_def split: option.split)

lemma ready_op_state [simp]: "ready_state (op_state x)"
  by (cases x) simp_all

lemma ready_life_state [simp]: "ready_state (life_state cur xs)"
  by (simp add: life_state_def split: list.split option.split)

lemma prepared_dtor_of [simp]: "prepared_dtor (prepared_of h) = handle_resume h"
  by (cases h) (simp_all add: prepared_simps)

lemma result_life_resolves:
  assumes "dispatched (state_of s p)"
  shows "result_life (Some p) xs s
         = emit (handle_resume (owner_of s p)) (resolved p (life_state (cur_exn s) xs) s)"
proof (cases xs)
  case Nil
  with assms show ?thesis by (simp add: result_dtor_resolves)
next
  case (Cons x ys)
  with assms show ?thesis
    by (simp add: result_step_resolves result_life_used life_state_def)
qed

text \<open>
  C1: whatever is done with a result object in its life (any setters in any order, none at
  all, then destruction), its awaitable is resolved exactly once, by the first setter, or by
  the destructor with the exception in flight or with no value; the owner is resumed exactly
  once; nothing else in the store changes.
\<close>

theorem result_delivered_once:
  assumes "dispatched (state_of s p)"
  shows "result_life (Some p) xs s
         = emit (handle_resume (owner_of s p)) (resolved p (life_state (cur_exn s) xs) s)"
  using assms by (rule result_life_resolves)

definition pending_store :: "nat store" where
  "pending_store =
     \<lparr>awts = (\<lambda>_. \<lparr>a_state = Callback 0, a_owner = Coro 5\<rparr>), frames = [],
      cur_exn = None, trace = []\<rparr>"

theorem result_delivered_once_witness:
  "trace (result_life (Some 1) [R_call (Inr 42), R_drop] pending_store) = [Resume 5] \<and>
   state_of (result_life (Some 1) [R_call (Inr 42), R_drop] pending_store) 1 = Value 42"
  using result_delivered_once [of pending_store 1 "[R_call (Inr 42), R_drop]"]
  by (simp add: pending_store_def life_state_def resolved_def)

end
