(* ===== verification/Coroutine_Class.thy ===== *)
theory Coroutine_Class
  imports Awaitable
begin

text \<open>
  The class \<^verbatim>\<open>coroutine<T>\<close>, its promise and the final awaiter
  (\<^verbatim>\<open>coroutine.h\<close>).  The body of a coroutine is the client's; it enters as the outcome
  it finishes with, a returned value or an exception.
\<close>

section \<open>The promise\<close>

text \<open>
  \<^verbatim>\<open>return_value\<close>: without a target the argument is not even
  converted, so \<open>mk\<close> is ignored.
\<close>

definition promise_return_value :: "nat \<Rightarrow> exn + 'v \<Rightarrow> 'v store \<Rightarrow> 'v store" where
  "promise_return_value f mk s =
     (case target_of s f of Some t \<Rightarrow> set_value t mk s | None \<Rightarrow> s)"

text \<open>\<^verbatim>\<open>promise_type_base<void>\<close>, whose other members are the same.\<close>

definition promise_return_void :: "nat \<Rightarrow> unit store \<Rightarrow> unit store" where
  "promise_return_void f s = (case target_of s f of Some t \<Rightarrow> set_value t (Inr ()) s | None \<Rightarrow> s)"

definition promise_set_exception :: "nat \<Rightarrow> exn \<Rightarrow> 'v store \<Rightarrow> 'v store" where
  "promise_set_exception f e s =
     (case target_of s f of Some t \<Rightarrow> set_exception t e s | None \<Rightarrow> s)"

definition promise_wakeup :: "nat \<Rightarrow> 'v store \<Rightarrow> prepared_coro \<times> 'v store" where
  "promise_wakeup f s =
     (case target_of s f of Some t \<Rightarrow> wakeup t s | None \<Rightarrow> (prepared_empty, s))"

definition promise_is_detached :: "nat \<Rightarrow> 'v store \<Rightarrow> bool" where
  "promise_is_detached f s \<longleftrightarrow> target_of s f = None"

text \<open>
  The global hook \<^verbatim>\<open>async_unhandled_exception\<close> is a function pointer the client may
  replace; the default calls \<^verbatim>\<open>std::terminate\<close>.
\<close>

type_synonym 'v hook = "'v store \<Rightarrow> cpp_error + 'v store"

definition default_async_unhandled_exception :: "'v hook" where
  "default_async_unhandled_exception s = Inl Terminate"

definition unhandled_exception :: "'v hook \<Rightarrow> nat \<Rightarrow> exn \<Rightarrow> 'v store \<Rightarrow> cpp_error + 'v store" where
  "unhandled_exception async_unhandled_exception f e s =
     (if target_of s f \<noteq> None then Inr (promise_set_exception f e s)
      else async_unhandled_exception s)"

definition finisher_await_ready :: "nat \<Rightarrow> 'v store \<Rightarrow> bool" where
  "finisher_await_ready f s \<longleftrightarrow> target_of s f = None"

definition finisher_await_suspend :: "nat \<Rightarrow> 'v store \<Rightarrow> coro_handle \<times> 'v store" where
  "finisher_await_suspend f s =
     (let (p, s1) = promise_wakeup f s;
          s2 = destroy_frame f s1
      in (fst (symmetric_transfer p), s2))"

text \<open>
  What the language makes of the promise when a body finishes: the outcome goes to the
  promise, then the coroutine awaits \<^verbatim>\<open>final_suspend()\<close>.  A ready final awaiter lets the
  coroutine run off its end, which destroys the frame and returns to the resumer.
\<close>

definition promise_outcome ::
    "'v hook \<Rightarrow> nat \<Rightarrow> exn + 'v \<Rightarrow> 'v store \<Rightarrow> cpp_error + 'v store" where
  "promise_outcome hook f out s =
     (case out of
        Inr v \<Rightarrow> Inr (promise_return_value f (Inr v) s)
      | Inl e \<Rightarrow> unhandled_exception hook f e s)"

definition coroutine_finish ::
    "'v hook \<Rightarrow> nat \<Rightarrow> exn + 'v \<Rightarrow> 'v store \<Rightarrow> cpp_error + (coro_handle \<times> 'v store)" where
  "coroutine_finish hook f out s =
     (case promise_outcome hook f out s of
        Inl err \<Rightarrow> Inl err
      | Inr s1 \<Rightarrow>
          if finisher_await_ready f s1 then Inr (Noop_coroutine, destroy_frame f s1)
          else Inr (finisher_await_suspend f s1))"

section \<open>The class coroutine\<close>

text \<open>
  Calling a coroutine function: the frame is allocated, the body stays suspended
  (\<^verbatim>\<open>initial_suspend\<close>) and \<^verbatim>\<open>get_return_object\<close> makes the object that owns it.
\<close>

definition coroutine_create :: "nat \<Rightarrow> 'v store \<Rightarrow> nat option \<times> 'v store" where
  "coroutine_create f s = (Some f, s\<lparr>frames := (f, \<lparr>p_target = None\<rparr>) # frames s\<rparr>)"

definition coroutine_move :: "nat option \<Rightarrow> nat option \<times> nat option" where
  "coroutine_move other = (other, None)"

definition coroutine_release :: "nat option \<Rightarrow> cpp_error + (coro_handle \<times> nat option)" where
  "coroutine_release c =
     (case c of None \<Rightarrow> Inl Null_dereference | Some f \<Rightarrow> Inr (Coro f, None))"

definition coroutine_dtor :: "nat option \<Rightarrow> 'v store \<Rightarrow> 'v store" where
  "coroutine_dtor c s = (case c of None \<Rightarrow> s | Some f \<Rightarrow> emit [Resume f] s)"

definition coroutine_move_assign ::
    "nat option \<Rightarrow> nat option \<Rightarrow> 'v store \<Rightarrow> nat option \<times> nat option \<times> 'v store" where
  "coroutine_move_assign this other s =
     (let (new, other') = coroutine_move other in (new, other', coroutine_dtor this s))"

text \<open>
  \<^verbatim>\<open>start(awaitable_result<T> &&res)\<close>: the components of the outcome are the prepared
  coroutine, the object's member afterwards, the caller's result object afterwards (released
  only when there is a coroutine), and the store.
\<close>

definition coroutine_start ::
    "nat option \<Rightarrow> awaitable_result \<Rightarrow> 'v store
     \<Rightarrow> prepared_coro \<times> nat option \<times> awaitable_result \<times> 'v store" where
  "coroutine_start c res s =
     (case c of
        Some f \<Rightarrow> let (t, res') = result_release res
                  in (prepared_of (Coro f), None, res', set_target f t s)
      | None \<Rightarrow> (prepared_empty, None, res, s))"

text \<open>A coroutine without a value finishes as one with the only value of its type.\<close>

lemma return_void_is_return_value: "promise_return_void f s = promise_return_value f (Inr ()) s"
  by (simp add: promise_return_void_def promise_return_value_def)

text \<open>\<^verbatim>\<open>co_await is_detached()\<close>: never stays suspended, and yields the flag.\<close>

definition detached_test_await_suspend :: "nat \<Rightarrow> 'v store \<Rightarrow> bool \<times> bool" where
  "detached_test_await_suspend f s = (False, promise_is_detached f s)"

definition detached_test_await_resume :: "bool \<times> bool \<Rightarrow> bool" where
  "detached_test_await_resume r = snd r"

section \<open>Life of a frame\<close>

lemma target_of_live: "map_of (frames s) f = Some pr \<Longrightarrow> target_of s f = p_target pr"
  by (simp add: target_of_def)

lemma target_of_frames: "frames s = frames s' \<Longrightarrow> target_of s f = target_of s' f"
  by (simp add: target_of_def)

lemma map_of_map_entry_self:
  "map_of xs f = Some pr \<Longrightarrow> map_of (AList.map_entry f g xs) f = Some (g pr)"
  by (induction xs) (auto split: if_splits)

lemma delete_map_entry [simp]: "AList.delete f (AList.map_entry f g xs) = AList.delete f xs"
  by (induction xs) (auto simp: AList.delete_eq)

lemma target_of_set_target [simp]:
  "map_of (frames s) f = Some pr \<Longrightarrow> target_of (set_target f t s) f = t"
  by (simp add: target_of_def set_target_def map_of_map_entry_self)

lemma transfer_of: "fst (symmetric_transfer (prepared_of h)) = (if h = Null_handle then Noop_coroutine else h)"
  by (simp add: prepared_simps)

definition frame_gone :: "nat \<Rightarrow> 'v store \<Rightarrow> 'v store" where
  "frame_gone f s = emit [Destroy f] (s\<lparr>frames := AList.delete f (frames s)\<rparr>)"

lemma frame_gone_simps [simp]:
  "awts (frame_gone f s) = awts s" "frames (frame_gone f s) = AList.delete f (frames s)"
  "cur_exn (frame_gone f s) = cur_exn s" "trace (frame_gone f s) = trace s @ [Destroy f]"
  by (simp_all add: frame_gone_def)

lemma frame_gone_commutes:
  "set_owner p h (frame_gone f s) = frame_gone f (set_owner p h s)"
  "set_state p st (frame_gone f s) = frame_gone f (set_state p st s)"
  by (simp_all add: frame_gone_def emit_def set_owner_def set_state_def)

lemma destroy_frame_live:
  "map_of (frames s) f = Some pr \<Longrightarrow>
   destroy_frame f s
   = (case p_target pr of None \<Rightarrow> frame_gone f s | Some t \<Rightarrow> discard (wakeup t (frame_gone f s)))"
  by (simp add: destroy_frame_eq frame_gone_def Let_def split: option.split)

lemma resolved_simps [simp]:
  "state_of (resolved p st s) q = (if q = p then st else state_of s q)"
  "owner_of (resolved p st s) q = (if q = p then Null_handle else owner_of s q)"
  "frames (resolved p st s) = frames s" "cur_exn (resolved p st s) = cur_exn s"
  "trace (resolved p st s) = trace s"
  by (simp_all add: resolved_def)

lemma destroy_frame_resolved:
  assumes "map_of (frames s) f = Some \<lparr>p_target = Some p\<rparr>"
    and "ready_state (state_of s p)" and "owner_of s p = Null_handle"
  shows "destroy_frame f s = frame_gone f s"
  using assms by (simp add: destroy_frame_live discard_wakeup_ready)

lemma finisher_resolves:
  assumes "map_of (frames s) f = Some \<lparr>p_target = Some p\<rparr>" and "ready_state (state_of s p)"
  shows "finisher_await_suspend f s
         = (if owner_of s p = Null_handle then Noop_coroutine else owner_of s p,
            frame_gone f (set_owner p Null_handle s))"
proof -
  have "destroy_frame f (set_owner p Null_handle s) = frame_gone f (set_owner p Null_handle s)"
    by (rule destroy_frame_resolved) (use assms in auto)
  with assms show ?thesis
    by (simp add: finisher_await_suspend_def promise_wakeup_def target_of_live wakeup_ready transfer_of)
qed

lemma coroutine_finish_awaited:
  assumes "map_of (frames s) f = Some \<lparr>p_target = Some p\<rparr>"
    and "dispatched (state_of s p)" and "owner_of s p = Coro h"
  shows "coroutine_finish hook f out s
         = Inr (Coro h, frame_gone f (resolved p (outcome_state out) s))"
proof -
  let ?s = "set_state p (outcome_state out) s"
  have fin: "finisher_await_suspend f ?s = (Coro h, frame_gone f (resolved p (outcome_state out) s))"
    using finisher_resolves [of ?s f p] assms by (simp add: resolved_def)
  have "target_of ?s f = Some p" "target_of s f = Some p"
    using assms(1) by (simp_all add: target_of_def)
  with fin assms(2) show ?thesis
    by (cases out) (simp_all add: coroutine_finish_def promise_outcome_def promise_return_value_def set_value_dispatched
        unhandled_exception_def promise_set_exception_def set_exception_def finisher_await_ready_def)
qed

text \<open>
  A coroutine whose result is awaited delivers it.  When its body finishes, by returning
  or by throwing, the awaiting side gets exactly that value or exception, control transfers
  to the awaiting coroutine (and to nobody else: the trace holds only the destruction of the
  frame), the frame is gone, and every other object is untouched.  The hook for unhandled
  exceptions is not called.
\<close>

lemma coroutine_delivers:
  assumes "map_of (frames s) f = Some \<lparr>p_target = Some p\<rparr>"
    and "dispatched (state_of s p)" and "owner_of s p = Coro h"
  shows "coroutine_finish hook f out s
         = Inr (Coro h, frame_gone f (resolved p (outcome_state out) s))"
  using assms by (rule coroutine_finish_awaited)

definition awaited_store :: "nat store" where
  "awaited_store =
     \<lparr>awts = (\<lambda>_. \<lparr>a_state = Coroutine None, a_owner = Coro 5\<rparr>),
      frames = [(9, \<lparr>p_target = Some 1\<rparr>)], cur_exn = None, trace = []\<rparr>"

lemma coroutine_delivers_at_input:
  "\<exists>t. coroutine_finish default_async_unhandled_exception 9 (Inr 42) awaited_store = Inr (Coro 5, t)
       \<and> state_of t 1 = Value 42 \<and> frames t = [] \<and> trace t = [Destroy 9]"
  using coroutine_delivers [of awaited_store 9 1 5 default_async_unhandled_exception "Inr 42"]
  by (simp add: awaited_store_def)

text \<open>
  A frame that is destroyed before its body finished cancels the operation: a pending
  target is resolved with no value (which the awaiting side sees as
  \<^verbatim>\<open>await_canceled_exception\<close>) and its owner is resumed exactly once.
\<close>

lemma destroyed_coroutine_cancels:
  assumes "map_of (frames s) f = Some \<lparr>p_target = Some p\<rparr>"
    and "dispatched (state_of s p)" and "\<not> ready_state (state_of s p)"
  shows "destroy_frame f s
         = emit (Destroy f # handle_resume (owner_of s p))
             ((resolved p No_value s)\<lparr>frames := AList.delete f (frames s)\<rparr>)"
proof -
  have "drop_awt p (frame_gone f s) = set_state p No_value (frame_gone f s)"
    using assms(2) by (simp add: drop_awt_def)
  then have "wakeup p (frame_gone f s)
             = (prepared_of (owner_of s p), set_owner p Null_handle (set_state p No_value (frame_gone f s)))"
    using assms(3) by (simp add: wakeup_def is_ready_def await_ready_def)
  with assms(1) show ?thesis
    by (simp add: destroy_frame_live discard_eq resolved_def frame_gone_def emit_def
        set_owner_def set_state_def)
qed

lemma destroyed_coroutine_cancels_at_input:
  "trace (destroy_frame 9 awaited_store) = [Destroy 9, Resume 5]
   \<and> state_of (destroy_frame 9 awaited_store) 1 = No_value"
  using destroyed_coroutine_cancels [of awaited_store 9 1]
  by (simp add: awaited_store_def)

text \<open>
  C32: a detached coroutine (started by dropping the object) changes no awaitable when it
  finishes with a value: its frame is destroyed and nothing is resumed.  If it ends with an
  exception, the hook \<^verbatim>\<open>async_unhandled_exception\<close> decides; with the default hook the
  program terminates, and a hook that returns lets the frame be destroyed as usual.
\<close>

theorem detached_coroutine_finishes:
  assumes "map_of (frames s) f = Some \<lparr>p_target = None\<rparr>"
  shows "coroutine_finish hook f (Inr v) s = Inr (Noop_coroutine, frame_gone f s)
       \<and> coroutine_finish default_async_unhandled_exception f (Inl e) s = Inl Terminate
       \<and> (hook s = Inr s \<longrightarrow>
          coroutine_finish hook f (Inl e) s = Inr (Noop_coroutine, frame_gone f s))"
  using assms
  by (simp add: coroutine_finish_def promise_outcome_def promise_return_value_def target_of_live
      finisher_await_ready_def unhandled_exception_def default_async_unhandled_exception_def
      destroy_frame_live)

definition detached_store :: "nat store" where
  "detached_store = awaited_store\<lparr>frames := [(9, \<lparr>p_target = None\<rparr>)]\<rparr>"

theorem detached_coroutine_finishes_witness:
  "coroutine_finish default_async_unhandled_exception 9 (Inr 42) detached_store
   = Inr (Noop_coroutine, frame_gone 9 detached_store)
   \<and> coroutine_finish Inr 9 (Inl (user_exn 1)) detached_store
     = Inr (Noop_coroutine, frame_gone 9 detached_store)"
  using detached_coroutine_finishes [of detached_store 9 default_async_unhandled_exception 42]
    detached_coroutine_finishes [of detached_store 9 Inr 42 "user_exn 1"]
  by (simp add: detached_store_def)

end
