(* ===== verification/Await_Ops.thy ===== *)
theory Await_Ops
  imports Coroutine_Class
begin

text \<open>
  The remaining operations of \<^verbatim>\<open>awaitable<T>\<close> (\<^verbatim>\<open>coroutine.h\<close>): construction, move,
  destruction, \<^verbatim>\<open>await_suspend\<close>, \<^verbatim>\<open>await_resume\<close>, \<^verbatim>\<open>cancel\<close>,
  \<^verbatim>\<open>create_result\<close>, \<^verbatim>\<open>copy_value\<close>, \<^verbatim>\<open>get_temp_state\<close> and the state readers
  behind \<^verbatim>\<open>has_value\<close>, \<^verbatim>\<open>operator!\<close> and \<^verbatim>\<open>begin\<close>.  Calling a callback
  closure is the parameter \<open>call\<close>: it gets the closure, the result object it is given, and
  the store, and returns the prepared coroutine of the callback.
\<close>

type_synonym 'v callbacks = "nat \<Rightarrow> awaitable_result \<Rightarrow> 'v store \<Rightarrow> prepared_coro \<times> 'v store"

section \<open>Construction\<close>

definition construct :: "awt_ptr \<Rightarrow> 'v aw_state \<Rightarrow> 'v store \<Rightarrow> 'v store" where
  "construct p st s = s\<lparr>awts := (awts s)(p := \<lparr>a_state = st, a_owner = Null_handle\<rparr>)\<rparr>"

text \<open>\<open>dflt\<close> is the default value of the stored type, if it has one.\<close>

definition awaitable_default :: "'v option \<Rightarrow> 'v aw_state" where
  "awaitable_default dflt = (case dflt of Some v \<Rightarrow> Value v | None \<Rightarrow> No_value)"

text \<open>
  Construction from a function object: local when it fits into the callback space
  (\<^verbatim>\<open>callback_max_size\<close>, the larger of four pointers and the stored type), allocated
  otherwise.
\<close>

definition callback_max_size :: "nat \<Rightarrow> nat \<Rightarrow> nat" where
  "callback_max_size ptr_size store_size = max (ptr_size * 4) store_size"

definition awaitable_of_callback :: "nat \<Rightarrow> nat \<Rightarrow> nat \<Rightarrow> 'v aw_state" where
  "awaitable_of_callback cb cb_size max_size =
     (if cb_size \<le> max_size then Callback cb else Callback_ptr (Some cb))"

text \<open>Move construction of a new object at \<open>q\<close> from \<open>p\<close>.\<close>

fun moved_from :: "'v aw_state \<Rightarrow> 'v aw_state" where
  "moved_from (Coroutine _) = Coroutine None"
| "moved_from (Callback_ptr _) = Callback_ptr None"
| "moved_from st = st"

definition awaitable_move :: "awt_ptr \<Rightarrow> awt_ptr \<Rightarrow> 'v store \<Rightarrow> 'v store" where
  "awaitable_move q p s =
     (let s1 = construct q (state_of s p) s;
          s2 = set_state p (moved_from (state_of s p)) s1
      in set_state p No_value (destroy_state p s2))"

section \<open>Destruction, cancellation\<close>

text \<open>
  \<^verbatim>\<open>dtor\<close>: a prepared operation is started in detached mode.  The exception for an
  awaited object leaves a destructor, which terminates the program.
\<close>

definition awaitable_dtor :: "'v callbacks \<Rightarrow> awt_ptr \<Rightarrow> 'v store \<Rightarrow> cpp_error + 'v store" where
  "awaitable_dtor call p s =
     (if is_awaiting p s then Inl Terminate
      else case state_of s p of
        Coroutine c \<Rightarrow> Inr (coroutine_dtor c s)
      | Callback cb \<Rightarrow> Inr (discard (call cb None s))
      | Callback_ptr None \<Rightarrow> Inl Null_dereference
      | Callback_ptr (Some cb) \<Rightarrow> Inr (discard (call cb None s))
      | _ \<Rightarrow> Inr s)"

definition awaitable_move_assign ::
    "'v callbacks \<Rightarrow> awt_ptr \<Rightarrow> awt_ptr \<Rightarrow> 'v store \<Rightarrow> cpp_error + 'v store" where
  "awaitable_move_assign call q p s =
     (if q \<noteq> p then
        (case awaitable_dtor call q s of Inl e \<Rightarrow> Inl e | Inr s1 \<Rightarrow> Inr (awaitable_move q p s1))
      else Inr s)"

definition awaitable_cancel :: "awt_ptr \<Rightarrow> 'v store \<Rightarrow> cpp_error + 'v store" where
  "awaitable_cancel p s =
     (if is_awaiting p s then Inl (Throw invalid_state)
      else Inr (set_state p No_value (destroy_state p s)))"

section \<open>Awaiting\<close>

definition await_resume :: "awt_ptr \<Rightarrow> 'v store \<Rightarrow> exn + 'v" where
  "await_resume p s =
     (case state_of s p of
        Value v \<Rightarrow> Inr v
      | Exception e \<Rightarrow> Inl e
      | _ \<Rightarrow> Inl await_canceled_exception)"

text \<open>
  In the coroutine case the temporary \<^verbatim>\<open>result(this)\<close> is destroyed at the end of the
  expression; it is empty by then unless there was no coroutine to start.
\<close>

definition await_suspend ::
    "'v callbacks \<Rightarrow> awt_ptr \<Rightarrow> coro_handle \<Rightarrow> 'v store \<Rightarrow> cpp_error + (coro_handle \<times> 'v store)" where
  "await_suspend call p h s =
     (let s0 = set_owner p h s in
      case state_of s0 p of
        Coroutine c \<Rightarrow>
          let (pc, c', res, s1) = coroutine_start c (Some p) s0;
              s2 = result_dtor res (set_state p (Coroutine c') s1)
          in Inr (fst (symmetric_transfer pc), s2)
      | Callback cb \<Rightarrow>
          let (pc, s1) = call cb (Some p) s0 in Inr (fst (symmetric_transfer pc), s1)
      | Callback_ptr None \<Rightarrow> Inl Null_dereference
      | Callback_ptr (Some cb) \<Rightarrow>
          let (pc, s1) = call cb (Some p) (set_state p (Callback_ptr None) s0)
          in Inr (fst (symmetric_transfer pc), s1)
      | _ \<Rightarrow> Inr (h, s0))"

definition create_result ::
    "awt_ptr \<Rightarrow> coro_handle \<Rightarrow> 'v store \<Rightarrow> cpp_error + (awaitable_result \<times> 'v store)" where
  "create_result p h s =
     (if is_awaiting p s then Inl (Throw invalid_state) else Inr (Some p, set_owner p h s))"

definition copy_value :: "'v option \<Rightarrow> 'v aw_state \<Rightarrow> 'v aw_state" where
  "copy_value dflt st =
     (case st of
        Value v \<Rightarrow> Value v
      | Exception e \<Rightarrow> Exception e
      | _ \<Rightarrow> awaitable_default dflt)"

text \<open>The returned address is that of the callback space of the result's awaitable.\<close>

definition get_temp_state :: "awaitable_result \<Rightarrow> 'v store \<Rightarrow> awt_ptr option \<times> 'v store" where
  "get_temp_state r s =
     (case r of
        None \<Rightarrow> (None, s)
      | Some p \<Rightarrow>
          (Some p, if state_of s p \<noteq> No_value then set_state p No_value (destroy_state p s) else s))"

section \<open>State readers\<close>

text \<open>
  \<^verbatim>\<open>has_value\<close> and \<^verbatim>\<open>operator!\<close> give an \<^verbatim>\<open>awaitable<bool>\<close>: resolved at
  once when the awaitable is resolved, otherwise with a closure (\<open>cb\<close>) that awaits on it.
  The answering awaitables live in a store \<open>b\<close> of their own type.
\<close>

definition has_value :: "nat \<Rightarrow> awt_ptr \<Rightarrow> 'v store \<Rightarrow> bool aw_state" where
  "has_value cb p s = (if await_ready p s then Value (state_of s p \<noteq> No_value) else Callback cb)"

definition not_value :: "nat \<Rightarrow> awt_ptr \<Rightarrow> 'v store \<Rightarrow> bool aw_state" where
  "not_value cb p s = (if await_ready p s then Value (state_of s p = No_value) else Callback cb)"

text \<open>The frame that the closure places into the temporary state of the answer.\<close>

record reader_frame =
  rf_src :: awt_ptr
  rf_result :: awaitable_result

definition reader_callback ::
    "'v callbacks \<Rightarrow> awt_ptr \<Rightarrow> nat \<Rightarrow> awaitable_result \<Rightarrow> 'b store \<Rightarrow> 'v store
     \<Rightarrow> cpp_error + (prepared_coro \<times> reader_frame option \<times> 'b store \<times> 'v store)" where
  "reader_callback call src frm r b s =
     (let (space, b1) = get_temp_state r b in
      case space of
        None \<Rightarrow> Inr (prepared_empty, None, b1, s)
      | Some _ \<Rightarrow>
          let (q, r') = result_release r in
          (case await_suspend call src (Coro frm) s of
             Inl e \<Rightarrow> Inl e
           | Inr (h, s1) \<Rightarrow>
               Inr (prepared_of h, Some \<lparr>rf_src = src, rf_result = q\<rparr>, b1, s1)))"

text \<open>\<^verbatim>\<open>read_state_frame<test>::do_resume\<close>: the prepared coroutine is dropped.\<close>

definition read_state_do_resume ::
    "bool \<Rightarrow> reader_frame \<Rightarrow> 'v store \<Rightarrow> bool store \<Rightarrow> bool store" where
  "read_state_do_resume test frm s b =
     (let n = (state_of s (rf_src frm) \<noteq> No_value);
          (pc, r, b1) = result_call (rf_result frm) (Inr (n = test)) b
      in result_dtor r (emit (prepared_dtor pc) b1))"

text \<open>
  \<^verbatim>\<open>begin()\<close> gives a pointer into the one-element range that \<^verbatim>\<open>end()\<close> closes: 0
  stands for \<^verbatim>\<open>&_value\<close> and 1 for \<^verbatim>\<open>&_value+1\<close>.
\<close>

definition begin_awt :: "nat \<Rightarrow> awt_ptr \<Rightarrow> 'v store \<Rightarrow> exn + nat aw_state" where
  "begin_awt cb p s =
     (if await_ready p s
      then (case state_of s p of Exception e \<Rightarrow> Inl e | _ \<Rightarrow> Inr (Value 0))
      else Inr (Callback cb))"

definition end_awt :: nat where
  "end_awt = 1"

definition read_ptr_do_resume :: "reader_frame \<Rightarrow> 'v store \<Rightarrow> nat store \<Rightarrow> nat store" where
  "read_ptr_do_resume frm s b =
     (let (pc, r, b1) =
        (case state_of s (rf_src frm) of
           Value v \<Rightarrow> result_call (rf_result frm) (Inr 0) b
         | Exception e \<Rightarrow> result_assign_exception (rf_result frm) e b
         | _ \<Rightarrow> result_call (rf_result frm) (Inr end_awt) b)
      in result_dtor r (emit (prepared_dtor pc) b1))"

section \<open>Well-formed stores\<close>

text \<open>
  The class invariant of \<^verbatim>\<open>coroutine<T>\<close>: an object that still holds its frame holds a
  live frame that was never started (no target), and no two objects hold the same frame.
\<close>

definition wf_store :: "'v store \<Rightarrow> bool" where
  "wf_store s \<longleftrightarrow>
     distinct (map fst (frames s)) \<and>
     (\<forall>p f. state_of s p = Coroutine (Some f) \<longrightarrow> map_of (frames s) f = Some \<lparr>p_target = None\<rparr>) \<and>
     (\<forall>p q f. state_of s p = Coroutine (Some f) \<longrightarrow> state_of s q = Coroutine (Some f) \<longrightarrow> p = q)"

lemma wf_storeI:
  assumes "distinct (map fst (frames s))"
    and "\<And>p f. state_of s p = Coroutine (Some f) \<Longrightarrow> map_of (frames s) f = Some \<lparr>p_target = None\<rparr>"
    and "\<And>p q f. state_of s p = Coroutine (Some f) \<Longrightarrow> state_of s q = Coroutine (Some f) \<Longrightarrow> p = q"
  shows "wf_store s"
  using assms unfolding wf_store_def by blast

lemma wf_distinct: "wf_store s \<Longrightarrow> distinct (map fst (frames s))"
  by (simp add: wf_store_def)

lemma wf_owned:
  "wf_store s \<Longrightarrow> state_of s p = Coroutine (Some f) \<Longrightarrow> map_of (frames s) f = Some \<lparr>p_target = None\<rparr>"
  unfolding wf_store_def by blast

lemma wf_unique:
  "wf_store s \<Longrightarrow> state_of s p = Coroutine (Some f) \<Longrightarrow> state_of s q = Coroutine (Some f) \<Longrightarrow> p = q"
  unfolding wf_store_def by blast

lemma wf_set_owner [simp]: "wf_store (set_owner p h s) = wf_store s"
  by (simp add: wf_store_def)

lemma wf_emit [simp]: "wf_store (emit ev s) = wf_store s"
  by (simp add: wf_store_def)

lemma wf_set_state: "wf_store s \<Longrightarrow> dispatched st \<Longrightarrow> wf_store (set_state p st s)"
  by (auto simp: wf_store_def)

lemma distinct_delete: "distinct (map fst xs) \<Longrightarrow> distinct (map fst (AList.delete f xs))"
  by (rule AList.distinct_delete)

lemma map_of_delete: "map_of (AList.delete f xs) g = (if g = f then None else map_of xs g)"
  by (simp add: AList.delete_conv')

lemma wf_frame_gone:
  assumes "wf_store s" and "\<And>p. state_of s p \<noteq> Coroutine (Some f)"
  shows "wf_store (frame_gone f s)"
  using assms by (auto simp: wf_store_def distinct_delete map_of_delete)

lemma destroy_state_owned:
  assumes "wf_store s" and "state_of s p = Coroutine (Some f)"
  shows "destroy_state p s = frame_gone f (set_state p (Coroutine None) s)"
proof -
  from assms have "map_of (frames s) f = Some \<lparr>p_target = None\<rparr>"
    by (auto simp: wf_store_def)
  with assms(2) show ?thesis
    by (simp add: destroy_state_def coroutine_cancel_def destroy_frame_live)
qed

lemma wf_destroy_state: "wf_store s \<Longrightarrow> wf_store (destroy_state p s)"
proof (cases "dispatched (state_of s p)")
  case False
  then obtain f where f: "state_of s p = Coroutine (Some f)"
    by (cases "state_of s p" rule: dispatched.cases) auto
  assume wf: "wf_store s"
  with f have "wf_store (frame_gone f (set_state p (Coroutine None) s))"
    by (intro wf_frame_gone wf_set_state) (auto simp: wf_store_def)
  with wf f show ?thesis by (simp add: destroy_state_owned)
qed simp

lemma wf_outcome: "wf_store s \<Longrightarrow> wf_store (set_value p mk s)"
  "wf_store s \<Longrightarrow> wf_store (set_exception p e s)" "wf_store s \<Longrightarrow> wf_store (drop_awt p s)"
  by (auto simp: set_value_def set_exception_def drop_awt_def Let_def split: sum.split
      intro!: wf_set_state wf_destroy_state)

lemma wf_wakeup: "wf_store s \<Longrightarrow> wf_store (snd (wakeup p s))"
  by (simp add: wakeup_def Let_def wf_outcome)

lemma wf_discard: "wf_store (snd r) \<Longrightarrow> wf_store (discard r)"
  by (cases r) (simp add: discard_def)

lemma wf_result_dtor: "wf_store s \<Longrightarrow> wf_store (result_dtor r s)"
  by (auto simp: result_dtor_def result_deleter_def split: option.split
      intro!: wf_discard wf_wakeup wf_outcome)

lemma wf_destroy_frame:
  assumes "wf_store s" and "\<And>p. state_of s p \<noteq> Coroutine (Some f)"
  shows "wf_store (destroy_frame f s)"
proof (cases "map_of (frames s) f")
  case (Some pr)
  with wf_frame_gone [OF assms] show ?thesis
    by (auto simp: destroy_frame_live split: option.split intro!: wf_discard wf_wakeup)
qed (use assms in \<open>simp add: destroy_frame_eq\<close>)

lemma keys_map_entry [simp]: "map fst (AList.map_entry f g xs) = map fst xs"
  by (induction xs) auto

lemma map_of_map_entry_other: "h \<noteq> f \<Longrightarrow> map_of (AList.map_entry f g xs) h = map_of xs h"
  by (induction xs) auto

lemma wf_start:
  assumes "wf_store s" and "state_of s p = Coroutine (Some f)"
  shows "wf_store (set_state p (Coroutine None) (set_target f t s))" (is "wf_store ?s")
proof -
  have other: "g \<noteq> f \<and> state_of s q = Coroutine (Some g)"
    if "state_of ?s q = Coroutine (Some g)" for q g
    using that wf_unique [OF assms, of q] by (auto split: if_splits)
  show ?thesis
  proof (rule wf_storeI)
    show "distinct (map fst (frames ?s))"
      using wf_distinct [OF assms(1)] by (simp add: set_target_def)
  next
    fix q g assume "state_of ?s q = Coroutine (Some g)"
    from other [OF this] have "g \<noteq> f" and "map_of (frames s) g = Some \<lparr>p_target = None\<rparr>"
      using wf_owned [OF assms(1)] by blast+
    then show "map_of (frames ?s) g = Some \<lparr>p_target = None\<rparr>"
      by (simp add: set_target_def map_of_map_entry_other)
  next
    fix q q' g assume "state_of ?s q = Coroutine (Some g)" "state_of ?s q' = Coroutine (Some g)"
    then show "q = q'" using other wf_unique [OF assms(1)] by blast
  qed
qed

end
