(* ===== verification/Coro_Mutex.thy ===== *)
theory Coro_Mutex
  imports Await_Ops
begin

text \<open>
  \<^verbatim>\<open>coro_mutex\<close> of \<^verbatim>\<open>coro_mutex.h\<close>: a lock-free stack of requests, a queue that the
  owner keeps, linked slots in the temporary state of the awaitables that wait.  The
  operations are built from the atomic accesses of the code, which the step relation of the
  theory \<open>Mutex_Steps\<close> interleaves.
\<close>

section \<open>State\<close>

datatype slot_ptr = Null_slot | Doorman | Slot nat

text \<open>\<^verbatim>\<open>slot\<close>: its address is that of the temporary state of the awaitable it resolves.\<close>

record slot =
  sl_next :: slot_ptr
  sl_resume :: awt_ptr

record coro_mutex =
  requests :: slot_ptr
  queue :: slot_ptr
  slots :: "nat \<Rightarrow> slot"

definition new_mutex :: coro_mutex where
  "new_mutex = \<lparr>requests = Null_slot, queue = Null_slot,
                slots = (\<lambda>_. \<lparr>sl_next = Null_slot, sl_resume = 0\<rparr>)\<rparr>"

abbreviation next_of :: "coro_mutex \<Rightarrow> nat \<Rightarrow> slot_ptr" where
  "next_of m a \<equiv> sl_next (slots m a)"

definition set_next :: "nat \<Rightarrow> slot_ptr \<Rightarrow> coro_mutex \<Rightarrow> coro_mutex" where
  "set_next a p m = m\<lparr>slots := (slots m)(a := (slots m a)\<lparr>sl_next := p\<rparr>)\<rparr>"

section \<open>Atomic accesses\<close>

definition cas_requests :: "slot_ptr \<Rightarrow> slot_ptr \<Rightarrow> coro_mutex \<Rightarrow> bool \<times> coro_mutex" where
  "cas_requests need new m =
     (if requests m = need then (True, m\<lparr>requests := new\<rparr>) else (False, m))"

text \<open>\<^verbatim>\<open>try_lock\<close>: whether the returned ownership owns the lock.\<close>

definition try_lock :: "coro_mutex \<Rightarrow> bool \<times> coro_mutex" where
  "try_lock m = cas_requests Null_slot Doorman m"

text \<open>
  One iteration of the loop of \<^verbatim>\<open>add_request\<close>: the expected value is the slot's own
  \<^verbatim>\<open>_next\<close>, which a failed exchange reloads.
\<close>

definition add_request_cas :: "nat \<Rightarrow> coro_mutex \<Rightarrow> bool \<times> coro_mutex" where
  "add_request_cas s m =
     (let (ok, m') = cas_requests (next_of m s) (Slot s) m
      in (ok, if ok then m' else set_next s (requests m) m'))"

text \<open>
  \<^verbatim>\<open>make_queue(from, to)\<close>.  \<open>None\<close> stands for a loop that never ends or writes through
  the null pointer or into the constant doorman.
\<close>

partial_function (option) make_queue :: "slot_ptr \<Rightarrow> slot_ptr \<Rightarrow> coro_mutex \<Rightarrow> coro_mutex option" where
  "make_queue from to m =
     (if from = to then Some m
      else case from of
        Slot a \<Rightarrow> make_queue (next_of m a) to ((set_next a (queue m) m)\<lparr>queue := Slot a\<rparr>)
      | _ \<Rightarrow> None)"

text \<open>\<^verbatim>\<open>make_queue(_requests.exchange(get_doorman()), to)\<close>.\<close>

definition take_requests :: "slot_ptr \<Rightarrow> coro_mutex \<Rightarrow> coro_mutex option" where
  "take_requests to m = make_queue (requests m) to (m\<lparr>requests := Doorman\<rparr>)"

text \<open>The end of \<^verbatim>\<open>unlock\<close>: pick the first slot of the queue and advance it.\<close>

definition pick_first :: "coro_mutex \<Rightarrow> (nat \<times> coro_mutex) option" where
  "pick_first m =
     (case queue m of Slot f \<Rightarrow> Some (f, m\<lparr>queue := next_of m f\<rparr>) | _ \<Rightarrow> None)"

section \<open>Operations\<close>

text \<open>Both operations give the slot to resume, if there is one.\<close>

partial_function (option) add_request_loop :: "nat \<Rightarrow> coro_mutex \<Rightarrow> coro_mutex option" where
  "add_request_loop s m =
     (if fst (add_request_cas s m) then Some (snd (add_request_cas s m))
      else add_request_loop s (snd (add_request_cas s m)))"

definition add_request :: "nat \<Rightarrow> coro_mutex \<Rightarrow> (nat option \<times> coro_mutex) option" where
  "add_request s m =
     (case add_request_loop s m of
        None \<Rightarrow> None
      | Some m1 \<Rightarrow>
          if next_of m1 s = Null_slot
          then map_option (\<lambda>m2. (Some s, m2)) (take_requests (Slot s) m1)
          else Some (None, m1))"

definition unlock :: "coro_mutex \<Rightarrow> (nat option \<times> coro_mutex) option" where
  "unlock m =
     (if queue m = Null_slot then
        (let (ok, m1) = cas_requests Doorman Null_slot m in
         if ok then Some (None, m1)
         else case take_requests Doorman m1 of
           None \<Rightarrow> None
         | Some m2 \<Rightarrow> map_option (\<lambda>(f, m3). (Some f, m3)) (pick_first m2))
      else map_option (\<lambda>(f, m3). (Some f, m3)) (pick_first m))"

text \<open>
  \<^verbatim>\<open>ownership\<close>: its pointer to the mutex is null or not.  \<^verbatim>\<open>release\<close> unlocks once.
\<close>

definition ownership_release :: "bool \<Rightarrow> coro_mutex \<Rightarrow> (nat option \<times> bool \<times> coro_mutex) option" where
  "ownership_release owning m =
     (if owning then map_option (\<lambda>(f, m'). (f, False, m')) (unlock m) else Some (None, False, m))"

definition ownership_move :: "bool \<Rightarrow> bool \<times> bool" where
  "ownership_move other = (other, False)"

definition ownership_move_assign ::
    "bool \<Rightarrow> bool \<Rightarrow> coro_mutex \<Rightarrow> (nat option \<times> bool \<times> bool \<times> coro_mutex) option" where
  "ownership_move_assign this other m =
     map_option (\<lambda>(f, _, m'). (f, other, False, m')) (ownership_release this m)"

definition owns_lock :: "bool \<Rightarrow> bool" where
  "owns_lock owning = owning"

text \<open>
  The awaitables of type ownership and the mutex.  \<^verbatim>\<open>lock()\<close> gives a resolved
  awaitable, or one with the closure \<open>cb\<close>, whose call is \<open>lock_callback\<close>.
\<close>

record lock_world =
  mx :: coro_mutex
  st :: "bool store"

definition lock_mutex :: "nat \<Rightarrow> coro_mutex \<Rightarrow> bool aw_state \<times> coro_mutex" where
  "lock_mutex cb m =
     (let (test, m') = try_lock m in (if test then Value True else Callback cb, m'))"

definition resume_slot :: "nat \<Rightarrow> lock_world \<Rightarrow> prepared_coro \<times> lock_world" where
  "resume_slot s w =
     (let (pc, r, st') = result_call (Some (sl_resume (slots (mx w) s))) (Inr True) (st w)
      in (pc, w\<lparr>st := result_dtor r st'\<rparr>))"

definition lock_callback :: "awaitable_result \<Rightarrow> lock_world \<Rightarrow> (prepared_coro \<times> lock_world) option" where
  "lock_callback r w =
     (let (s, st1) = get_temp_state r (st w) in
      case s of
        None \<Rightarrow> Some (prepared_empty, w\<lparr>st := st1\<rparr>)
      | Some a \<Rightarrow>
          let (p, r') = result_release r;
              sl = \<lparr>sl_next = Null_slot, sl_resume = the p\<rparr>;
              m1 = (mx w)\<lparr>slots := (slots (mx w))(a := sl)\<rparr>
          in (case add_request a m1 of
                None \<Rightarrow> None
              | Some (None, m2) \<Rightarrow> Some (prepared_empty, \<lparr>mx = m2, st = st1\<rparr>)
              | Some (Some f, m2) \<Rightarrow> Some (resume_slot f \<lparr>mx = m2, st = st1\<rparr>)))"

definition unlock_mutex :: "lock_world \<Rightarrow> (prepared_coro \<times> lock_world) option" where
  "unlock_mutex w =
     (case unlock (mx w) of
        None \<Rightarrow> None
      | Some (None, m') \<Rightarrow> Some (prepared_empty, w\<lparr>mx := m'\<rparr>)
      | Some (Some f, m') \<Rightarrow> Some (resume_slot f (w\<lparr>mx := m'\<rparr>)))"

section \<open>Linked lists of slots\<close>

fun chain :: "coro_mutex \<Rightarrow> slot_ptr \<Rightarrow> nat list \<Rightarrow> slot_ptr \<Rightarrow> bool" where
  "chain m p [] q = (p = q)"
| "chain m p (a # as) q = (p = Slot a \<and> chain m (next_of m a) as q)"

lemma next_set_next [simp]: "next_of (set_next a p m) b = (if b = a then p else next_of m b)"
  by (simp add: set_next_def)

lemma set_next_simps [simp]:
  "requests (set_next a p m) = requests m" "queue (set_next a p m) = queue m"
  "sl_resume (slots (set_next a p m) b) = sl_resume (slots m b)"
  by (simp_all add: set_next_def)

lemma chain_set_next [simp]: "a \<notin> set as \<Longrightarrow> chain (set_next a r m) p as q = chain m p as q"
  by (induction as arbitrary: p) auto

lemma chain_update [simp]:
  "chain (m\<lparr>queue := x\<rparr>) p as q = chain m p as q"
  "chain (m\<lparr>requests := x\<rparr>) p as q = chain m p as q"
  by (induction as arbitrary: p) auto

lemma set_next_update [simp]:
  "set_next a p (m\<lparr>queue := x\<rparr>) = (set_next a p m)\<lparr>queue := x\<rparr>"
  "set_next a p (m\<lparr>requests := x\<rparr>) = (set_next a p m)\<lparr>requests := x\<rparr>"
  by (simp_all add: set_next_def)

lemma chain_unique: "chain m p as Null_slot \<Longrightarrow> chain m p bs Null_slot \<Longrightarrow> as = bs"
  by (induction as arbitrary: p bs; case_tac bs) auto

text \<open>
  The loop of \<^verbatim>\<open>make_queue\<close>: over a list of distinct slots that ends at \<open>to\<close> it
  terminates, and the slots stand reversed in front of the old queue.
\<close>

lemma make_queue_reverses:
  assumes "chain m from xs to" and "chain m (queue m) ys Null_slot" and "distinct (xs @ ys)"
    and "to \<notin> Slot ` set xs"
  shows "\<exists>m'. make_queue from to m = Some m' \<and> chain m' (queue m') (rev xs @ ys) Null_slot
       \<and> requests m' = requests m \<and> (\<forall>a. a \<notin> set xs \<longrightarrow> next_of m' a = next_of m a)
       \<and> (\<forall>a. sl_resume (slots m' a) = sl_resume (slots m a))"
  using assms
proof (induction xs arbitrary: "from" m ys)
  case Nil
  then show ?case by (subst make_queue.simps) auto
next
  case (Cons a xs)
  let ?m = "(set_next a (queue m) m)\<lparr>queue := Slot a\<rparr>"
  from Cons.prems have "chain ?m (next_of m a) xs to" "chain ?m (queue ?m) (a # ys) Null_slot"
    "distinct (xs @ a # ys)" "to \<notin> Slot ` set xs" by auto
  from Cons.IH [OF this] Cons.prems show ?case
    by (subst make_queue.simps) (auto simp: set_next_def)
qed

end
