(* ===== verification/Mutex_Fifo.thy ===== *)
theory Mutex_Fifo
  imports Coro_Mutex
begin

text \<open>
  The contract of \<^verbatim>\<open>coro_mutex\<close> for uncontended operations: a lock that is free, or
  held with the requests that wait for it in the order of their arrival.  The locale
  \<open>fifo_lock\<close> states it over abstract operations and derives the order of service; the
  interpretation shows that the linked structure of the code implements it.
\<close>

section \<open>The contract\<close>

fun request_all :: "(nat \<Rightarrow> 'm \<Rightarrow> (nat option \<times> 'm) option) \<Rightarrow> nat list \<Rightarrow> 'm \<Rightarrow> 'm option" where
  "request_all request [] m = Some m"
| "request_all request (s # ss) m =
     (case request s m of None \<Rightarrow> None | Some (_, m') \<Rightarrow> request_all request ss m')"

text \<open>Releasing \<open>n\<close> times, with the requests that get the lock.\<close>

fun serve :: "('m \<Rightarrow> (nat option \<times> 'm) option) \<Rightarrow> nat \<Rightarrow> 'm \<Rightarrow> (nat option list \<times> 'm) option" where
  "serve release 0 m = Some ([], m)"
| "serve release (Suc n) m =
     (case release m of
        None \<Rightarrow> None
      | Some (f, m') \<Rightarrow> map_option (\<lambda>(fs, m''). (f # fs, m'')) (serve release n m'))"

locale fifo_lock =
  fixes request :: "nat \<Rightarrow> 'm \<Rightarrow> (nat option \<times> 'm) option"
    and release :: "'m \<Rightarrow> (nat option \<times> 'm) option"
    and attempt :: "'m \<Rightarrow> bool \<times> 'm"
    and free :: "'m \<Rightarrow> bool"
    and held :: "'m \<Rightarrow> nat list \<Rightarrow> bool"
  assumes request_free: "free m \<Longrightarrow> \<exists>m'. request s m = Some (Some s, m') \<and> held m' []"
    and request_held: "held m ws \<Longrightarrow> s \<notin> set ws \<Longrightarrow> \<exists>m'. request s m = Some (None, m') \<and> held m' (ws @ [s])"
    and release_last: "held m [] \<Longrightarrow> \<exists>m'. release m = Some (None, m') \<and> free m'"
    and release_next: "held m (w # ws) \<Longrightarrow> \<exists>m'. release m = Some (Some w, m') \<and> held m' ws"
    and try_free: "free m \<Longrightarrow> \<exists>m'. attempt m = (True, m') \<and> held m' []"
    and try_held: "held m ws \<Longrightarrow> attempt m = (False, m)"
begin

lemma request_all_held:
  "held m ws \<Longrightarrow> distinct (ws @ ss) \<Longrightarrow> \<exists>m'. request_all request ss m = Some m' \<and> held m' (ws @ ss)"
proof (induction ss arbitrary: m ws)
  case (Cons s ss)
  then obtain m1 where "request s m = Some (None, m1)" "held m1 (ws @ [s])"
    using request_held [of m ws s] by auto
  with Cons.IH [of m1 "ws @ [s]"] Cons.prems show ?case by simp
qed simp

lemma serve_in_order:
  "held m ws \<Longrightarrow> \<exists>m'. serve release (Suc (length ws)) m = Some (map Some ws @ [None], m') \<and> free m'"
proof (induction ws arbitrary: m)
  case Nil
  then show ?case using release_last [of m] by auto
next
  case (Cons w ws)
  then obtain m1 where "release m = Some (Some w, m1)" "held m1 ws"
    using release_next by blast
  with Cons.IH [of m1] show ?case by (auto simp del: serve.simps(2) simp: serve.simps(2) [of _ "Suc _"])
qed

lemma request_then_serve:
  assumes "free m" and "distinct ss"
  shows "\<exists>m1 m2 m3. request s m = Some (Some s, m1) \<and> request_all request ss m1 = Some m2
       \<and> attempt m2 = (False, m2)
       \<and> serve release (Suc (length ss)) m2 = Some (map Some ss @ [None], m3) \<and> free m3"
proof -
  obtain m1 where m1: "request s m = Some (Some s, m1)" "held m1 []"
    using request_free [OF assms(1)] by blast
  then obtain m2 where m2: "request_all request ss m1 = Some m2" "held m2 ss"
    using request_all_held [of m1 "[]" ss] assms(2) by auto
  with m1 show ?thesis using serve_in_order [of m2 ss] try_held [of m2 ss] by blast
qed

end

section \<open>The linked structure implements it\<close>

definition mutex_free :: "coro_mutex \<Rightarrow> bool" where
  "mutex_free m \<longleftrightarrow> requests m = Null_slot \<and> queue m = Null_slot"

definition mutex_held :: "coro_mutex \<Rightarrow> nat list \<Rightarrow> bool" where
  "mutex_held m ws \<longleftrightarrow>
     (\<exists>ys xs. chain m (queue m) ys Null_slot \<and> chain m (requests m) xs Doorman
            \<and> distinct (ys @ xs) \<and> ws = ys @ rev xs)"

lemma set_next_same: "set_next a (next_of m a) m = m"
proof -
  have "(slots m a)\<lparr>sl_next := next_of m a\<rparr> = slots m a" by (cases "slots m a") simp
  then show ?thesis by (simp add: set_next_def)
qed

lemma add_request_loop_pushes:
  "add_request_loop s m = Some ((set_next s (requests m) m)\<lparr>requests := Slot s\<rparr>)"
proof (cases "next_of m s = requests m")
  case True
  then have "set_next s (requests m) m = m" using set_next_same [of s m] by simp
  with True show ?thesis
    by (subst add_request_loop.simps) (simp add: add_request_cas_def cas_requests_def)
next
  case False
  let ?m = "set_next s (requests m) m"
  have "add_request_cas s m = (False, ?m)"
    using False by (simp add: add_request_cas_def cas_requests_def)
  moreover have "add_request_cas s ?m = (True, ?m\<lparr>requests := Slot s\<rparr>)"
    by (simp add: add_request_cas_def cas_requests_def)
  ultimately show ?thesis
    by (subst add_request_loop.simps, subst add_request_loop.simps) simp
qed

lemma request_when_free:
  assumes "mutex_free m"
  shows "\<exists>m'. add_request s m = Some (Some s, m') \<and> mutex_held m' []"
  using assms
  by (auto simp: mutex_free_def mutex_held_def add_request_def add_request_loop_pushes
      take_requests_def make_queue.simps)

lemma request_when_held:
  assumes "mutex_held m ws" and "s \<notin> set ws"
  shows "\<exists>m'. add_request s m = Some (None, m') \<and> mutex_held m' (ws @ [s])"
proof -
  obtain ys xs where l: "chain m (queue m) ys Null_slot" "chain m (requests m) xs Doorman"
    "distinct (ys @ xs)" "ws = ys @ rev xs"
    using assms(1) by (auto simp: mutex_held_def)
  have ne: "requests m \<noteq> Null_slot" using l(2) by (cases xs) auto
  let ?m = "(set_next s (requests m) m)\<lparr>requests := Slot s\<rparr>"
  have "chain ?m (queue ?m) ys Null_slot" "chain ?m (requests ?m) (s # xs) Doorman"
    "distinct (ys @ s # xs)" "ws @ [s] = ys @ rev (s # xs)"
    using l assms(2) by auto
  then have "mutex_held ?m (ws @ [s])" unfolding mutex_held_def by blast
  with ne show ?thesis by (simp add: add_request_def add_request_loop_pushes)
qed

lemma pick_first_chain:
  assumes "chain m (queue m) (w # ys) Null_slot" and "chain m (requests m) xs Doorman"
    and "distinct (w # ys @ xs)"
  shows "\<exists>m'. pick_first m = Some (w, m') \<and> mutex_held m' (ys @ rev xs) \<and> slots m' = slots m"
proof -
  let ?m = "m\<lparr>queue := next_of m w\<rparr>"
  have "pick_first m = Some (w, ?m)" using assms(1) by (simp add: pick_first_def)
  moreover have "mutex_held ?m (ys @ rev xs)"
    unfolding mutex_held_def using assms by (intro exI [of _ ys] exI [of _ xs]) auto
  ultimately show ?thesis by auto
qed

lemma take_requests_chain:
  assumes "chain m (queue m) ys Null_slot" and "chain m (requests m) xs to" and "distinct (ys @ xs)"
    and "to \<notin> Slot ` set xs"
  shows "\<exists>m'. take_requests to m = Some m' \<and> chain m' (queue m') (rev xs @ ys) Null_slot
       \<and> requests m' = Doorman \<and> (\<forall>a. a \<notin> set xs \<longrightarrow> next_of m' a = next_of m a)
       \<and> (\<forall>a. sl_resume (slots m' a) = sl_resume (slots m a))"
  using make_queue_reverses [of "m\<lparr>requests := Doorman\<rparr>" "requests m" xs to ys] assms
  by (auto simp: take_requests_def)

lemma unlock_when_held:
  assumes "mutex_held m ws"
  shows "\<exists>m'. (case ws of
                 [] \<Rightarrow> unlock m = Some (None, m') \<and> mutex_free m'
               | w # ws' \<Rightarrow> unlock m = Some (Some w, m') \<and> mutex_held m' ws')
            \<and> (\<forall>a. sl_resume (slots m' a) = sl_resume (slots m a))"
proof -
  obtain ys xs where l: "chain m (queue m) ys Null_slot" "chain m (requests m) xs Doorman"
    "distinct (ys @ xs)" "ws = ys @ rev xs"
    using assms by (auto simp: mutex_held_def)
  show ?thesis
  proof (cases ys)
    case (Cons w ys')
    then have "queue m \<noteq> Null_slot" using l(1) by simp
    with Cons l pick_first_chain [of m w ys' xs] show ?thesis by (auto simp: unlock_def)
  next
    case Nil
    then have q: "queue m = Null_slot" using l(1) by simp
    show ?thesis
    proof (cases "xs = []")
      case True
      with l Nil q show ?thesis by (auto simp: unlock_def cas_requests_def mutex_free_def)
    next
      case False
      then obtain w zs where w: "rev xs = w # zs" by (cases "rev xs") auto
      have "requests m \<noteq> Doorman" using l(2) False by (cases xs) auto
      moreover obtain m1 where m1: "take_requests Doorman m = Some m1"
        "chain m1 (queue m1) (w # zs) Null_slot" "requests m1 = Doorman"
        "\<forall>a. sl_resume (slots m1 a) = sl_resume (slots m a)"
        using take_requests_chain [of m ys xs Doorman] l Nil w by auto
      moreover obtain m2 where "pick_first m1 = Some (w, m2)" "mutex_held m2 zs" "slots m2 = slots m1"
        using pick_first_chain [of m1 w zs "[]"] m1 w l(3)
        by (metis append_Nil2 append_Nil chain.simps(1) distinct_rev rev.simps(1) Nil)
      ultimately show ?thesis using q w l(4) Nil
        by (auto simp: unlock_def cas_requests_def)
    qed
  qed
qed

interpretation mutex: fifo_lock add_request unlock try_lock mutex_free mutex_held
proof
  fix m s w and ws :: "nat list"
  show "mutex_free m \<Longrightarrow> \<exists>m'. add_request s m = Some (Some s, m') \<and> mutex_held m' []"
    by (rule request_when_free)
  show "mutex_held m ws \<Longrightarrow> s \<notin> set ws \<Longrightarrow> \<exists>m'. add_request s m = Some (None, m') \<and> mutex_held m' (ws @ [s])"
    by (rule request_when_held)
  show "mutex_held m [] \<Longrightarrow> \<exists>m'. unlock m = Some (None, m') \<and> mutex_free m'"
    using unlock_when_held [of m "[]"] by auto
  show "mutex_held m (w # ws) \<Longrightarrow> \<exists>m'. unlock m = Some (Some w, m') \<and> mutex_held m' ws"
    using unlock_when_held [of m "w # ws"] by auto
  show "mutex_free m \<Longrightarrow> \<exists>m'. try_lock m = (True, m') \<and> mutex_held m' []"
    by (auto simp: mutex_free_def mutex_held_def try_lock_def cas_requests_def)
  show "mutex_held m ws \<Longrightarrow> try_lock m = (False, m)"
    by (auto simp: mutex_held_def try_lock_def cas_requests_def elim: chain.elims)
qed

section \<open>Service in the order of arrival\<close>

text \<open>
  C25: first come, first served.  The first request for a free mutex gets it at once; requests
  that arrive while it is held wait, and a \<^verbatim>\<open>try_lock\<close> fails and changes nothing;
  then each \<^verbatim>\<open>unlock\<close> hands the mutex to the oldest waiting request, and the last one
  leaves it free.  (First the requests, then the releases.)  All the loops on the way terminate.
\<close>

theorem mutex_serves_in_order:
  assumes "mutex_free m" and "distinct ss"
  shows "\<exists>m1 m2 m3. add_request s m = Some (Some s, m1) \<and> request_all add_request ss m1 = Some m2
       \<and> try_lock m2 = (False, m2)
       \<and> serve unlock (Suc (length ss)) m2 = Some (map Some ss @ [None], m3) \<and> mutex_free m3"
  using assms by (rule mutex.request_then_serve)

theorem mutex_serves_in_order_witness:
  "\<exists>m1 m2 m3. add_request 1 new_mutex = Some (Some 1, m1)
       \<and> request_all add_request [5, 3, 8] m1 = Some m2 \<and> try_lock m2 = (False, m2)
       \<and> serve unlock 4 m2 = Some ([Some 5, Some 3, Some 8, None], m3) \<and> mutex_free m3"
  using mutex_serves_in_order [of new_mutex "[5, 3, 8]" 1]
  by (simp add: mutex_free_def new_mutex_def eval_nat_numeral)

section \<open>The awaitables of the waiting coroutines\<close>

lemma resume_slot_resolves:
  assumes "dispatched (state_of (st w) (sl_resume (slots (mx w) f)))"
  shows "resume_slot f w
         = (prepared_of (owner_of (st w) (sl_resume (slots (mx w) f))),
            w\<lparr>st := resolved (sl_resume (slots (mx w) f)) (Value True) (st w)\<rparr>)"
  using result_step_resolves [OF assms, of "R_call (Inr True)"]
  by (simp add: resume_slot_def result_dtor_def)

text \<open>
  The release of a held mutex hands it over.  With waiting requests, the awaitable of the
  oldest one is resolved with an ownership, the coroutine that awaits on it comes out as the
  prepared coroutine of \<^verbatim>\<open>release\<close>, the mutex is still held and the other requests
  still wait in their order; without one, nothing is resumed and the mutex is free.  No other
  awaitable is touched.
\<close>

lemma unlock_hands_over:
  assumes "mutex_held (mx w) ws"
    and "\<forall>a \<in> set ws. dispatched (state_of (st w) (sl_resume (slots (mx w) a)))"
  shows "\<exists>m'. case ws of
            [] \<Rightarrow> unlock_mutex w = Some (prepared_empty, w\<lparr>mx := m'\<rparr>) \<and> mutex_free m'
          | a # ws' \<Rightarrow>
              let p = sl_resume (slots (mx w) a) in
              unlock_mutex w
              = Some (prepared_of (owner_of (st w) p), \<lparr>mx = m', st = resolved p (Value True) (st w)\<rparr>)
              \<and> mutex_held m' ws'"
proof (cases ws)
  case Nil
  with unlock_when_held [OF assms(1)] show ?thesis by (auto simp: unlock_mutex_def)
next
  case (Cons a ws')
  with unlock_when_held [OF assms(1)] obtain m'
    where u: "unlock (mx w) = Some (Some a, m')" "mutex_held m' ws'"
      "sl_resume (slots m' a) = sl_resume (slots (mx w) a)" by auto
  with resume_slot_resolves [of "w\<lparr>mx := m'\<rparr>" a] assms(2) Cons show ?thesis
    by (intro exI [of _ m']) (simp add: unlock_mutex_def Let_def)
qed

definition waiting_world :: lock_world where
  "waiting_world =
     \<lparr>mx = \<lparr>requests = Slot 4, queue = Null_slot,
             slots = (\<lambda>a. \<lparr>sl_next = (if a = 4 then Slot 2 else Doorman), sl_resume = a\<rparr>)\<rparr>,
      st = \<lparr>awts = (\<lambda>a. \<lparr>a_state = No_value, a_owner = Coro (10 + a)\<rparr>), frames = [],
            cur_exn = None, trace = []\<rparr>\<rparr>"

lemma unlock_hands_over_at_input:
  "\<exists>m'. unlock_mutex waiting_world
          = Some (prepared_of (Coro 12),
                  \<lparr>mx = m', st = resolved 2 (Value True) (st waiting_world)\<rparr>)
        \<and> mutex_held m' [4]"
proof -
  have "mutex_held (mx waiting_world) [2, 4]"
    unfolding mutex_held_def
    by (intro exI [of _ "[]"] exI [of _ "[4, 2]"]) (simp add: waiting_world_def)
  from unlock_hands_over [OF this] show ?thesis
    by (simp add: waiting_world_def Let_def)
qed

lemma chain_fresh_slot:
  "a \<notin> set xs \<Longrightarrow> chain (m\<lparr>slots := (slots m)(a := sl)\<rparr>) p xs q = chain m p xs q"
  by (induction xs arbitrary: p) auto

lemma mutex_held_fresh_slot:
  assumes "a \<notin> set ws" and "mutex_held m ws"
  shows "mutex_held (m\<lparr>slots := (slots m)(a := sl)\<rparr>) ws"
proof -
  obtain ys xs where "chain m (queue m) ys Null_slot" "chain m (requests m) xs Doorman"
    "distinct (ys @ xs)" "ws = ys @ rev xs"
    using assms(2) by (auto simp: mutex_held_def)
  with assms(1) show ?thesis
    unfolding mutex_held_def by (intro exI [of _ ys] exI [of _ xs]) (simp add: chain_fresh_slot)
qed

lemma add_request_keeps_resume:
  "add_request s m = Some (f, m') \<Longrightarrow>
   sl_resume (slots m' a) = sl_resume (slots m a)"
proof (cases "requests m = Null_slot")
  case True
  assume "add_request s m = Some (f, m')"
  with True show ?thesis
    by (auto simp: add_request_def add_request_loop_pushes take_requests_def make_queue.simps)
next
  case False
  assume "add_request s m = Some (f, m')"
  with False show ?thesis by (auto simp: add_request_def add_request_loop_pushes)
qed

lemma temp_state_dispatched:
  "dispatched (state_of s p) \<Longrightarrow> get_temp_state (Some p) s = (Some p, set_state p No_value s)"
  by (simp add: get_temp_state_def)

text \<open>
  Awaiting on \<^verbatim>\<open>lock()\<close>.  When the mutex is held, the request is queued behind
  the waiting ones, nothing is resumed and the awaitable gets no result yet.  When the mutex
  became free in the meantime, the caller owns it at once: its awaitable is resolved with an
  ownership and its own coroutine comes out to be resumed.  A request whose result is
  detached changes nothing.
\<close>

lemma lock_request_outcome:
  assumes "dispatched (state_of (st w) p)" and "p \<notin> set ws"
  shows "(mutex_held (mx w) ws \<longrightarrow>
            (\<exists>m'. lock_callback (Some p) w
                    = Some (prepared_empty, \<lparr>mx = m', st = set_state p No_value (st w)\<rparr>)
                  \<and> mutex_held m' (ws @ [p]) \<and> sl_resume (slots m' p) = p))
       \<and> (mutex_free (mx w) \<longrightarrow>
            (\<exists>m'. lock_callback (Some p) w
                    = Some (prepared_of (owner_of (st w) p),
                            \<lparr>mx = m', st = resolved p (Value True) (st w)\<rparr>)
                  \<and> mutex_held m' []))
       \<and> lock_callback None w = Some (prepared_empty, w)"
proof (intro conjI impI)
  let ?m = "(mx w)\<lparr>slots := (slots (mx w))(p := \<lparr>sl_next = Null_slot, sl_resume = p\<rparr>)\<rparr>"
  have cb: "lock_callback (Some p) w =
      (case add_request p ?m of
         None \<Rightarrow> None
       | Some (None, m2) \<Rightarrow> Some (prepared_empty, \<lparr>mx = m2, st = set_state p No_value (st w)\<rparr>)
       | Some (Some f, m2) \<Rightarrow> Some (resume_slot f \<lparr>mx = m2, st = set_state p No_value (st w)\<rparr>))"
    using assms(1) by (simp add: lock_callback_def temp_state_dispatched result_release_def)
  {
    assume "mutex_held (mx w) ws"
    then have "mutex_held ?m ws" by (rule mutex_held_fresh_slot [OF assms(2)])
    then obtain m' where m': "add_request p ?m = Some (None, m')" "mutex_held m' (ws @ [p])"
      "sl_resume (slots m' p) = p"
      using request_when_held [OF _ assms(2)] add_request_keeps_resume by fastforce
    with cb show "\<exists>m'. lock_callback (Some p) w
          = Some (prepared_empty, \<lparr>mx = m', st = set_state p No_value (st w)\<rparr>)
        \<and> mutex_held m' (ws @ [p]) \<and> sl_resume (slots m' p) = p" by auto
  next
    assume "mutex_free (mx w)"
    then have f: "mutex_free ?m" by (simp add: mutex_free_def)
    then obtain m' where m': "add_request p ?m = Some (Some p, m')" "mutex_held m' []"
      "sl_resume (slots m' p) = p"
      using request_when_free add_request_keeps_resume by fastforce
    let ?w = "\<lparr>mx = m', st = set_state p No_value (st w)\<rparr>"
    have "resume_slot p ?w = (prepared_of (owner_of (st w) p),
        \<lparr>mx = m', st = resolved p (Value True) (st w)\<rparr>)"
      using resume_slot_resolves [of ?w p] m'(3) by (simp add: resolved_def)
    with cb m' show "\<exists>m'. lock_callback (Some p) w
          = Some (prepared_of (owner_of (st w) p),
                  \<lparr>mx = m', st = resolved p (Value True) (st w)\<rparr>)
        \<and> mutex_held m' []" by auto
  }
  show "lock_callback None w = Some (prepared_empty, w)"
    by (simp add: lock_callback_def get_temp_state_def)
qed

lemma lock_request_outcome_at_input:
  "\<exists>m'. lock_callback (Some 7) waiting_world
          = Some (prepared_empty, \<lparr>mx = m', st = set_state 7 No_value (st waiting_world)\<rparr>)
        \<and> mutex_held m' [2, 4, 7] \<and> sl_resume (slots m' 7) = 7"
proof -
  have "mutex_held (mx waiting_world) [2, 4]"
    unfolding mutex_held_def
    by (intro exI [of _ "[]"] exI [of _ "[4, 2]"]) (simp add: waiting_world_def)
  moreover have "dispatched (state_of (st waiting_world) 7)" by (simp add: waiting_world_def)
  ultimately show ?thesis using lock_request_outcome [of waiting_world 7 "[2, 4]"] by simp
qed

end
