(* ===== verification/Mutex_Steps.thy ===== *)
theory Mutex_Steps
  imports Mutex_Fifo
begin

text \<open>
  \<^verbatim>\<open>coro_mutex\<close> under concurrency: several threads run \<^verbatim>\<open>add_request\<close>,
  \<^verbatim>\<open>try_lock\<close> and \<^verbatim>\<open>unlock\<close> at once.  A step is one atomic access of one thread
  (together with the accesses to data that only this thread can reach).  The test of
  \<^verbatim>\<open>s->_next\<close> after the successful exchange in \<^verbatim>\<open>add_request\<close> is a step of its
  own: the slot is already public then.
\<close>

section \<open>States and steps\<close>

text \<open>Where the thread that requests the lock with a slot stands.\<close>

datatype req_phase = Idle | Pushing | Checking | Taking | Waiting

text \<open>What the owner of a slot's ownership does: nothing, it owns, or it is inside \<^verbatim>\<open>unlock\<close>.\<close>

datatype own_phase = No_owner | Holding | Emptying

record mutex_sys =
  shared :: coro_mutex
  ph :: "nat \<Rightarrow> req_phase"
  own :: "nat \<Rightarrow> own_phase"

definition hand_over :: "nat \<Rightarrow> nat \<Rightarrow> coro_mutex \<Rightarrow> mutex_sys \<Rightarrow> mutex_sys" where
  "hand_over a f m s =
     s\<lparr>shared := m, ph := (ph s)(f := if ph s f = Waiting then Idle else ph s f),
       own := (own s)(a := No_owner, f := Holding)\<rparr>"

text \<open>
  Without \<open>calm\<close> the steps are all those of the code.  With \<open>calm\<close> the list of requests is taken
  over only while no thread stands between its exchange and its test (\<^verbatim>\<open>add_request\<close>); the
  code does not enforce this, so the statements on calm runs are about a part of its schedules,
  and \<open>late_test_breaks_mutex\<close> is about the rest.
\<close>

inductive mutex_step :: "bool \<Rightarrow> mutex_sys \<Rightarrow> mutex_sys \<Rightarrow> bool" for calm :: bool where
  begin_request:
    "ph s a = Idle \<Longrightarrow> own s a = No_owner \<Longrightarrow>
     mutex_step calm s (s\<lparr>shared := set_next a Null_slot (shared s), ph := (ph s)(a := Pushing)\<rparr>)"
| push_ok:
    "ph s a = Pushing \<Longrightarrow> add_request_cas a (shared s) = (True, m') \<Longrightarrow>
     mutex_step calm s (s\<lparr>shared := m', ph := (ph s)(a := Checking)\<rparr>)"
| push_fail:
    "ph s a = Pushing \<Longrightarrow> add_request_cas a (shared s) = (False, m') \<Longrightarrow>
     mutex_step calm s (s\<lparr>shared := m'\<rparr>)"
| check_null:
    "ph s a = Checking \<Longrightarrow> next_of (shared s) a = Null_slot \<Longrightarrow>
     mutex_step calm s (s\<lparr>ph := (ph s)(a := Taking)\<rparr>)"
| check_next:
    "ph s a = Checking \<Longrightarrow> next_of (shared s) a \<noteq> Null_slot \<Longrightarrow>
     mutex_step calm s (s\<lparr>ph := (ph s)(a := Waiting)\<rparr>)"
| take:
    "ph s a = Taking \<Longrightarrow> calm \<longrightarrow> (\<forall>b. ph s b \<noteq> Checking) \<Longrightarrow>
     take_requests (Slot a) (shared s) = Some m' \<Longrightarrow>
     mutex_step calm s (s\<lparr>shared := m', ph := (ph s)(a := Idle), own := (own s)(a := Holding)\<rparr>)"
| attempt_ok:
    "ph s a = Idle \<Longrightarrow> own s a = No_owner \<Longrightarrow> try_lock (shared s) = (True, m') \<Longrightarrow>
     mutex_step calm s (s\<lparr>shared := m', own := (own s)(a := Holding)\<rparr>)"
| unlock_free:
    "own s a = Holding \<Longrightarrow> queue (shared s) = Null_slot \<Longrightarrow>
     cas_requests Doorman Null_slot (shared s) = (True, m') \<Longrightarrow>
     mutex_step calm s (s\<lparr>shared := m', own := (own s)(a := No_owner)\<rparr>)"
| unlock_busy:
    "own s a = Holding \<Longrightarrow> queue (shared s) = Null_slot \<Longrightarrow>
     cas_requests Doorman Null_slot (shared s) = (False, m') \<Longrightarrow>
     mutex_step calm s (s\<lparr>shared := m', own := (own s)(a := Emptying)\<rparr>)"
| unlock_queue:
    "own s a = Holding \<Longrightarrow> queue (shared s) \<noteq> Null_slot \<Longrightarrow> pick_first (shared s) = Some (f, m') \<Longrightarrow>
     mutex_step calm s (hand_over a f m' s)"
| unlock_take:
    "own s a = Emptying \<Longrightarrow> calm \<longrightarrow> (\<forall>b. ph s b \<noteq> Checking) \<Longrightarrow>
     take_requests Doorman (shared s) = Some m1 \<Longrightarrow> pick_first m1 = Some (f, m') \<Longrightarrow>
     mutex_step calm s (hand_over a f m' s)"

definition mutex_init :: "mutex_sys \<Rightarrow> bool" where
  "mutex_init s \<longleftrightarrow> requests (shared s) = Null_slot \<and> queue (shared s) = Null_slot
                 \<and> ph s = (\<lambda>_. Idle) \<and> own s = (\<lambda>_. No_owner)"

section \<open>Shapes of the shared structure\<close>

text \<open>Slots that a request put into the structure and that were not served yet.\<close>

abbreviation enqueued :: "mutex_sys \<Rightarrow> nat \<Rightarrow> bool" where
  "enqueued s a \<equiv> ph s a = Checking \<or> ph s a = Waiting"

definition free_shape :: "mutex_sys \<Rightarrow> bool" where
  "free_shape s \<longleftrightarrow>
     requests (shared s) = Null_slot \<and> queue (shared s) = Null_slot \<and> own s = (\<lambda>_. No_owner)
     \<and> (\<forall>a. ph s a \<noteq> Checking \<and> ph s a \<noteq> Taking \<and> ph s a \<noteq> Waiting)"

text \<open>A request found the mutex free and is about to take it; \<open>xs\<close> came after it.\<close>

definition claimed_shape :: "mutex_sys \<Rightarrow> nat \<Rightarrow> nat list \<Rightarrow> bool" where
  "claimed_shape s t xs \<longleftrightarrow>
     chain (shared s) (requests (shared s)) (xs @ [t]) Null_slot \<and> distinct (xs @ [t])
     \<and> queue (shared s) = Null_slot \<and> own s = (\<lambda>_. No_owner)
     \<and> (ph s t = Checking \<or> ph s t = Taking) \<and> (\<forall>a. ph s a = Taking \<longrightarrow> a = t)
     \<and> (\<forall>a. a \<in> set xs \<longleftrightarrow> a \<noteq> t \<and> enqueued s a)"

text \<open>The owner \<open>h\<close>, the stack \<open>xs\<close> of new requests and the queue \<open>ys\<close>.\<close>

definition held_shape :: "mutex_sys \<Rightarrow> nat \<Rightarrow> nat list \<Rightarrow> nat list \<Rightarrow> bool" where
  "held_shape s h xs ys \<longleftrightarrow>
     chain (shared s) (requests (shared s)) xs Doorman \<and> chain (shared s) (queue (shared s)) ys Null_slot
     \<and> distinct (xs @ ys)
     \<and> own s h \<noteq> No_owner \<and> (\<forall>a. own s a \<noteq> No_owner \<longrightarrow> a = h) \<and> ph s h = Idle
     \<and> (\<forall>a. ph s a \<noteq> Taking) \<and> (\<forall>a. a \<in> set xs \<union> set ys \<longleftrightarrow> enqueued s a)
     \<and> (\<forall>a \<in> set ys. ph s a = Waiting)
     \<and> (own s h = Emptying \<longrightarrow> ys = [] \<and> xs \<noteq> [])"

definition mutex_inv :: "mutex_sys \<Rightarrow> bool" where
  "mutex_inv s \<longleftrightarrow>
     free_shape s \<or> (\<exists>t xs. claimed_shape s t xs) \<or> (\<exists>h xs ys. held_shape s h xs ys)"

lemma mutex_invE:
  assumes "mutex_inv s"
  obtains (free) "free_shape s" | (claimed) t xs where "claimed_shape s t xs"
  | (held) h xs ys where "held_shape s h xs ys"
  using assms by (auto simp: mutex_inv_def)

lemma mutex_invI [intro]:
  "free_shape s \<Longrightarrow> mutex_inv s" "claimed_shape s t xs \<Longrightarrow> mutex_inv s" "held_shape s h xs ys \<Longrightarrow> mutex_inv s"
  by (auto simp: mutex_inv_def)

lemma chain_append: "chain m p (xs @ ys) q = (\<exists>r. chain m p xs r \<and> chain m r ys q)"
  by (induction xs arbitrary: p) auto

lemma chain_Null [simp]: "chain m Null_slot xs q = (xs = [] \<and> q = Null_slot)"
  by (cases xs) auto

lemma chain_Doorman [simp]: "chain m Doorman xs q = (xs = [] \<and> q = Doorman)"
  by (cases xs) auto

lemma chain_next_inner:
  "chain m p xs q \<Longrightarrow> a \<in> set xs \<Longrightarrow> q \<noteq> Null_slot \<Longrightarrow> next_of m a \<noteq> Null_slot"
proof (induction xs arbitrary: p)
  case (Cons b xs)
  then show ?case by (cases xs) auto
qed simp

lemma cas_ok: "add_request_cas a m = (True, m') \<Longrightarrow> requests m = next_of m a \<and> m' = m\<lparr>requests := Slot a\<rparr>"
  by (auto simp: add_request_cas_def cas_requests_def split: if_splits)

lemma cas_fail: "add_request_cas a m = (False, m') \<Longrightarrow> m' = set_next a (requests m) m"
  by (auto simp: add_request_cas_def cas_requests_def split: if_splits)

lemma claimedD:
  assumes "claimed_shape s t xs"
  shows "a \<in> set xs \<longleftrightarrow> a \<noteq> t \<and> enqueued s a" "ph s t = Checking \<or> ph s t = Taking"
    "ph s a = Taking \<Longrightarrow> a = t" "own s = (\<lambda>_. No_owner)" "queue (shared s) = Null_slot"
    "chain (shared s) (requests (shared s)) (xs @ [t]) Null_slot" "distinct (xs @ [t])"
  using assms by (simp_all add: claimed_shape_def)

lemma heldD:
  assumes "held_shape s h xs ys"
  shows "a \<in> set xs \<union> set ys \<longleftrightarrow> enqueued s a" "a \<in> set ys \<Longrightarrow> ph s a = Waiting"
    "ph s a \<noteq> Taking" "ph s h = Idle" "own s h \<noteq> No_owner" "own s a \<noteq> No_owner \<Longrightarrow> a = h"
    "chain (shared s) (requests (shared s)) xs Doorman"
    "chain (shared s) (queue (shared s)) ys Null_slot" "distinct (xs @ ys)"
    "own s h = Emptying \<Longrightarrow> ys = [] \<and> xs \<noteq> []"
  using assms unfolding held_shape_def by blast+

lemma claimedI:
  assumes "\<And>a. a \<in> set xs \<longleftrightarrow> a \<noteq> t \<and> enqueued s a" and "\<And>a. ph s a = Taking \<Longrightarrow> a = t"
    and "ph s t = Checking \<or> ph s t = Taking" and "own s = (\<lambda>_. No_owner)"
    and "queue (shared s) = Null_slot"
    and "chain (shared s) (requests (shared s)) (xs @ [t]) Null_slot" and "distinct (xs @ [t])"
  shows "claimed_shape s t xs"
  using assms unfolding claimed_shape_def by blast

lemma heldI:
  assumes "\<And>a. a \<in> set xs \<union> set ys \<longleftrightarrow> enqueued s a" and "\<And>a. a \<in> set ys \<Longrightarrow> ph s a = Waiting"
    and "\<And>a. ph s a \<noteq> Taking" and "\<And>a. own s a \<noteq> No_owner \<Longrightarrow> a = h"
    and "ph s h = Idle" and "own s h \<noteq> No_owner" and "own s h = Emptying \<Longrightarrow> ys = [] \<and> xs \<noteq> []"
    and "chain (shared s) (requests (shared s)) xs Doorman"
    and "chain (shared s) (queue (shared s)) ys Null_slot" and "distinct (xs @ ys)"
  shows "held_shape s h xs ys"
  using assms unfolding held_shape_def by blast

section \<open>Every step keeps the shape\<close>

text \<open>Changes that keep away from the slots in the structure.\<close>

lemma claimed_frame:
  assumes "claimed_shape s t xs" and "own s' = own s"
    and "\<And>b. b \<in> set xs \<union> {t} \<Longrightarrow> ph s' b = ph s b \<and> next_of (shared s') b = next_of (shared s) b"
    and "\<And>b. b \<notin> set xs \<union> {t} \<Longrightarrow> ph s' b = Idle \<or> ph s' b = Pushing"
    and "requests (shared s') = requests (shared s)" "queue (shared s') = queue (shared s)"
  shows "claimed_shape s' t xs"
proof -
  have "chain (shared s') p zs q = chain (shared s) p zs q" if "set zs \<subseteq> set xs \<union> {t}" for p zs q
    using that assms(3) by (induction zs arbitrary: p) auto
  then have "chain (shared s') (requests (shared s')) (xs @ [t]) Null_slot"
    using claimedD(6) [OF assms(1)] assms(5) by simp
  moreover have "b \<in> set xs \<longleftrightarrow> b \<noteq> t \<and> enqueued s' b" "ph s' b = Taking \<longrightarrow> b = t" for b
    using claimedD(1,3) [OF assms(1), of b] claimedD(2) [OF assms(1)] assms(3) [of b] assms(4) [of b]
    by (cases "b \<in> set xs \<union> {t}"; auto)+
  ultimately show ?thesis
    using claimedD(2,4,5,7) [OF assms(1)] assms(2,6) assms(3) [of t]
    unfolding claimed_shape_def by (metis UnI2 singletonI)
qed

lemma held_frame:
  assumes "held_shape s h xs ys" and "own s' = own s" and "ph s' h = Idle"
    and "\<And>b. b \<in> set xs \<union> set ys \<Longrightarrow> ph s' b = ph s b \<and> next_of (shared s') b = next_of (shared s) b"
    and "\<And>b. b \<notin> set xs \<union> set ys \<Longrightarrow> ph s' b = Idle \<or> ph s' b = Pushing"
    and "requests (shared s') = requests (shared s)" "queue (shared s') = queue (shared s)"
  shows "held_shape s' h xs ys"
proof -
  have "chain (shared s') p zs q = chain (shared s) p zs q" if "set zs \<subseteq> set xs \<union> set ys" for p zs q
    using that assms(4) by (induction zs arbitrary: p) auto
  then have "chain (shared s') (requests (shared s')) xs Doorman"
    "chain (shared s') (queue (shared s')) ys Null_slot"
    using heldD(7,8) [OF assms(1)] assms(6,7) by simp_all
  moreover have "b \<in> set xs \<union> set ys \<longleftrightarrow> enqueued s' b" "ph s' b \<noteq> Taking" for b
    using heldD(1,3) [OF assms(1), of b] assms(4) [of b] assms(5) [of b]
    by (cases "b \<in> set xs \<union> set ys"; auto)+
  moreover have "\<forall>b \<in> set ys. ph s' b = Waiting"
    using heldD(2) [OF assms(1)] assms(4) by auto
  ultimately show ?thesis
    using heldD(5,6,9,10) [OF assms(1)] assms(2,3) unfolding held_shape_def by metis
qed

lemma outside_claimed: "claimed_shape s t xs \<Longrightarrow> b \<notin> set xs \<Longrightarrow> b \<noteq> t \<Longrightarrow> ph s b = Idle \<or> ph s b = Pushing"
  using claimedD(1,3) [of s t xs b] by (cases "ph s b") auto

lemma outside_held: "held_shape s h xs ys \<Longrightarrow> b \<notin> set xs \<Longrightarrow> b \<notin> set ys \<Longrightarrow> ph s b = Idle \<or> ph s b = Pushing"
  using heldD(1,3) [of s h xs ys b] by (cases "ph s b") auto

text \<open>A thread that has not pushed its slot yet changes only the slot.\<close>

lemma inv_private_slot:
  assumes "mutex_inv s" and "ph s a = Idle \<and> own s a = No_owner \<or> ph s a = Pushing"
  shows "mutex_inv (s\<lparr>shared := set_next a p (shared s), ph := (ph s)(a := Pushing)\<rparr>)"
    (is "mutex_inv ?t")
  using assms(1)
proof (cases rule: mutex_invE)
  case free
  then have "free_shape ?t" by (simp add: free_shape_def)
  then show ?thesis ..
next
  case (claimed t xs)
  have "a \<notin> set xs \<union> {t}"
    using claimedD(1) [OF claimed, of a] claimedD(2) [OF claimed] assms(2) by auto
  then have "claimed_shape ?t t xs"
    by (intro claimed_frame [OF claimed]) (auto dest: outside_claimed [OF claimed])
  then show ?thesis ..
next
  case (held h xs ys)
  have "a \<notin> set xs \<union> set ys" using heldD(1) [OF held, of a] assms(2) by auto
  moreover have "a \<noteq> h" using heldD(4,5) [OF held] assms(2) by auto
  ultimately have "held_shape ?t h xs ys" using heldD(4) [OF held]
    by (intro held_frame [OF held]) (auto dest: outside_held [OF held])
  then show ?thesis ..
qed

text \<open>Pushing a slot, on each shape.\<close>

lemma inv_push_ok:
  assumes "mutex_inv s" and "ph s a = Pushing" and "requests (shared s) = next_of (shared s) a"
  shows "mutex_inv (s\<lparr>shared := (shared s)\<lparr>requests := Slot a\<rparr>, ph := (ph s)(a := Checking)\<rparr>)"
    (is "mutex_inv ?t")
  using assms(1)
proof (cases rule: mutex_invE)
  case free
  with assms(2,3) have "claimed_shape ?t a []"
    by (auto simp: free_shape_def claimed_shape_def)
  then show ?thesis ..
next
  case (claimed t xs)
  note D = claimedD [OF claimed]
  have a: "a \<notin> set xs" "a \<noteq> t" using D(1) [of a] D(2) assms(2) by auto
  have "claimed_shape ?t t (a # xs)"
  proof (rule claimedI)
    fix b
    show "b \<in> set (a # xs) \<longleftrightarrow> b \<noteq> t \<and> enqueued ?t b" using D(1) [of b] a by simp
    show "ph ?t b = Taking \<Longrightarrow> b = t" using D(3) [of b] by (simp split: if_splits)
  qed (use D(2,4-7) a assms(3) in simp_all)
  then show ?thesis ..
next
  case (held h xs ys)
  note D = heldD [OF held]
  have a: "a \<notin> set xs" "a \<notin> set ys" "a \<noteq> h" using D(1) [of a] D(4) assms(2) by auto
  have "held_shape ?t h (a # xs) ys"
  proof (rule heldI)
    fix b
    show "b \<in> set (a # xs) \<union> set ys \<longleftrightarrow> enqueued ?t b" using D(1) [of b] a by simp
    show "b \<in> set ys \<Longrightarrow> ph ?t b = Waiting" using D(2) [of b] a by auto
    show "ph ?t b \<noteq> Taking" using D(3) [of b] by simp
    show "own ?t b \<noteq> No_owner \<Longrightarrow> b = h" using D(6) [of b] by simp
  qed (use D(4,5,7-10) a assms(3) in simp_all)
  then show ?thesis ..
qed

text \<open>The test of \<^verbatim>\<open>s->_next\<close>: only the first request finds the null pointer.\<close>

lemma held_check:
  assumes "held_shape s h xs ys" and "ph s a = Checking"
  shows "next_of (shared s) a \<noteq> Null_slot \<and> held_shape (s\<lparr>ph := (ph s)(a := Waiting)\<rparr>) h xs ys"
    (is "_ \<and> held_shape ?t h xs ys")
proof
  note D = heldD [OF assms(1)]
  have "a \<in> set xs" using D(1) [of a] D(2) [of a] assms(2) by auto
  then show "next_of (shared s) a \<noteq> Null_slot" using chain_next_inner [OF D(7)] by blast
  have "a \<noteq> h" using D(4) assms(2) by auto
  show "held_shape ?t h xs ys"
  proof (rule heldI)
    fix b
    show "b \<in> set xs \<union> set ys \<longleftrightarrow> enqueued ?t b" using D(1) [of b] assms(2) by (cases "b = a") simp_all
    show "b \<in> set ys \<Longrightarrow> ph ?t b = Waiting" using D(2) [of b] by auto
    show "ph ?t b \<noteq> Taking" using D(3) [of b] by simp
    show "own ?t b \<noteq> No_owner \<Longrightarrow> b = h" using D(6) [of b] by simp
  qed (use D(4,5,7-10) \<open>a \<noteq> h\<close> in simp_all)
qed

lemma claimed_check:
  assumes "claimed_shape s t xs" and "ph s a = Checking" and "a \<noteq> t"
  shows "next_of (shared s) a \<noteq> Null_slot \<and> claimed_shape (s\<lparr>ph := (ph s)(a := Waiting)\<rparr>) t xs"
    (is "_ \<and> claimed_shape ?t t xs")
proof
  note D = claimedD [OF assms(1)]
  have "chain (shared s) (requests (shared s)) xs (Slot t)" using D(6) by (auto simp: chain_append)
  moreover have "a \<in> set xs" using D(1) [of a] assms(2,3) by simp
  ultimately show "next_of (shared s) a \<noteq> Null_slot" using chain_next_inner by blast
  show "claimed_shape ?t t xs"
  proof (rule claimedI)
    fix b
    show "b \<in> set xs \<longleftrightarrow> b \<noteq> t \<and> enqueued ?t b" using D(1) [of b] assms(2) by (cases "b = a") simp_all
    show "ph ?t b = Taking \<Longrightarrow> b = t" using D(3) [of b] by (simp split: if_splits)
  qed (use D(2,4-7) assms(3) in simp_all)
qed

lemma claimed_check_first:
  assumes "claimed_shape s t xs" and "ph s t = Checking"
  shows "next_of (shared s) t = Null_slot \<and> claimed_shape (s\<lparr>ph := (ph s)(t := Taking)\<rparr>) t xs"
    (is "_ \<and> claimed_shape ?t t xs")
proof
  note D = claimedD [OF assms(1)]
  show "next_of (shared s) t = Null_slot" using D(6) by (auto simp: chain_append)
  show "claimed_shape ?t t xs"
  proof (rule claimedI)
    fix b
    show "b \<in> set xs \<longleftrightarrow> b \<noteq> t \<and> enqueued ?t b" using D(1) [of b] by simp
    show "ph ?t b = Taking \<Longrightarrow> b = t" using D(3) [of b] by (simp split: if_splits)
  qed (use D(4-7) in simp_all)
qed

lemma inv_check_null:
  assumes "mutex_inv s" and "ph s a = Checking" and "next_of (shared s) a = Null_slot"
  shows "mutex_inv (s\<lparr>ph := (ph s)(a := Taking)\<rparr>)"
  using assms(1)
proof (cases rule: mutex_invE)
  case (claimed t xs)
  with claimed_check [OF claimed assms(2)] claimed_check_first [OF claimed] assms(2,3) show ?thesis
    by (cases "a = t") auto
qed (use assms(2,3) held_check in \<open>auto simp: free_shape_def\<close>)

lemma inv_check_next:
  assumes "mutex_inv s" and "ph s a = Checking" and "next_of (shared s) a \<noteq> Null_slot"
  shows "mutex_inv (s\<lparr>ph := (ph s)(a := Waiting)\<rparr>)"
  using assms(1)
proof (cases rule: mutex_invE)
  case (claimed t xs)
  with claimed_check [OF claimed assms(2)] claimed_check_first [OF claimed] assms(2,3) show ?thesis
    by (cases "a = t") auto
next
  case (held h xs ys)
  with held_check [OF held assms(2)] show ?thesis by blast
qed (use assms(2) in \<open>simp add: free_shape_def\<close>)

lemma claimed_take:
  assumes "claimed_shape s a xs" and "\<forall>b. ph s b \<noteq> Checking"
  shows "\<exists>m'. take_requests (Slot a) (shared s) = Some m' \<and>
     held_shape (s\<lparr>shared := m', ph := (ph s)(a := Idle), own := (own s)(a := Holding)\<rparr>) a [] (rev xs)"
proof -
  note D = claimedD [OF assms(1)]
  have "chain (shared s) (requests (shared s)) xs (Slot a)" using D(6) by (auto simp: chain_append)
  moreover have "Slot a \<notin> Slot ` set xs" using D(7) by auto
  ultimately obtain m' where m': "take_requests (Slot a) (shared s) = Some m'"
    "chain m' (queue m') (rev xs) Null_slot" "requests m' = Doorman"
    using take_requests_chain [of "shared s" "[]" xs "Slot a"] D(5,7) by auto
  have "held_shape (s\<lparr>shared := m', ph := (ph s)(a := Idle), own := (own s)(a := Holding)\<rparr>) a [] (rev xs)"
    (is "held_shape ?t _ _ _")
  proof (rule heldI)
    fix b
    show "b \<in> set [] \<union> set (rev xs) \<longleftrightarrow> enqueued ?t b" using D(1) [of b] by simp
    show "b \<in> set (rev xs) \<Longrightarrow> ph ?t b = Waiting" using D(1) [of b] assms(2) by auto
    show "ph ?t b \<noteq> Taking" using D(3) [of b] by auto
    show "own ?t b \<noteq> No_owner \<Longrightarrow> b = a" using D(4) by (simp split: if_splits)
  qed (use m' D(7) in simp_all)
  with m'(1) show ?thesis by blast
qed

lemma inv_take:
  assumes "mutex_inv s" and "ph s a = Taking" and "\<forall>b. ph s b \<noteq> Checking"
    and "take_requests (Slot a) (shared s) = Some m'"
  shows "mutex_inv (s\<lparr>shared := m', ph := (ph s)(a := Idle), own := (own s)(a := Holding)\<rparr>)"
  using assms(1)
proof (cases rule: mutex_invE)
  case free
  with assms(2) show ?thesis by (simp add: free_shape_def)
next
  case (claimed t xs)
  with claimedD(3) [OF claimed assms(2)] claimed_take [of s a xs] assms(3,4) show ?thesis by auto
next
  case (held h xs ys)
  with assms(2) show ?thesis using heldD(3) [OF held, of a] by simp
qed

lemma inv_attempt_ok:
  assumes "mutex_inv s" and "ph s a = Idle" and "requests (shared s) = Null_slot"
  shows "mutex_inv (s\<lparr>shared := (shared s)\<lparr>requests := Doorman\<rparr>, own := (own s)(a := Holding)\<rparr>)"
    (is "mutex_inv ?t")
  using assms(1)
proof (cases rule: mutex_invE)
  case free
  then have "held_shape ?t a [] []"
    using assms(2) by (intro heldI) (auto simp: free_shape_def split: if_splits)
  then show ?thesis ..
next
  case (claimed t xs)
  then show ?thesis using claimedD(6) [OF claimed] assms(3) by simp
next
  case (held h xs ys)
  then show ?thesis using heldD(7) [OF held] assms(3) by simp
qed

lemma owner_held:
  assumes "mutex_inv s" and "own s a \<noteq> No_owner"
  obtains xs ys where "held_shape s a xs ys"
  using assms(1)
proof (cases rule: mutex_invE)
  case (held h xs ys)
  with heldD(6) [OF held assms(2)] that show ?thesis by blast
qed (use assms(2) in \<open>simp_all add: free_shape_def claimed_shape_def\<close>)

lemma inv_unlock_free:
  assumes "mutex_inv s" and "own s a = Holding" and "queue (shared s) = Null_slot"
    and "requests (shared s) = Doorman"
  shows "mutex_inv (s\<lparr>shared := (shared s)\<lparr>requests := Null_slot\<rparr>, own := (own s)(a := No_owner)\<rparr>)"
    (is "mutex_inv ?t")
proof -
  obtain xs ys where held: "held_shape s a xs ys" using owner_held assms(1,2) by (metis own_phase.distinct(1))
  note D = heldD [OF held]
  have "xs = []" "ys = []" using D(7,8) assms(3,4) by simp_all
  then have "\<not> enqueued s b" "ph s b \<noteq> Taking" "b \<noteq> a \<Longrightarrow> own s b = No_owner" for b
    using D(1,3,6) [of b] by auto
  then have "free_shape ?t" using assms(3) by (auto simp: free_shape_def)
  then show ?thesis ..
qed

lemma held_busy:
  assumes "held_shape s a xs ys" and "queue (shared s) = Null_slot" and "requests (shared s) \<noteq> Doorman"
  shows "held_shape (s\<lparr>own := (own s)(a := Emptying)\<rparr>) a xs ys" (is "held_shape ?t a xs ys")
proof (rule heldI)
  fix b
  note D = heldD [OF assms(1)]
  show "b \<in> set xs \<union> set ys \<longleftrightarrow> enqueued ?t b" using D(1) [of b] by simp
  show "b \<in> set ys \<Longrightarrow> ph ?t b = Waiting" using D(2) [of b] by simp
  show "ph ?t b \<noteq> Taking" using D(3) [of b] by simp
  show "own ?t b \<noteq> No_owner \<Longrightarrow> b = a" using D(6) [of b] by (simp split: if_splits)
  show "ys = [] \<and> xs \<noteq> []" using D(7,8) assms(2,3) by auto
qed (use heldD(4,7-9) [OF assms(1)] in simp_all)

text \<open>The owner gives the mutex to the first slot of a queue that is not empty.\<close>

lemma held_hand_over:
  assumes "held_shape s a xs (f # ys)"
  shows "held_shape (hand_over a f ((shared s)\<lparr>queue := next_of (shared s) f\<rparr>) s) f xs ys"
    (is "held_shape ?t f xs ys")
proof (rule heldI)
  fix b
  note D = heldD [OF assms]
  have f: "ph s f = Waiting" "f \<noteq> a" "f \<notin> set xs" "f \<notin> set ys"
    using D(2) [of f] D(4,9) by auto
  show "b \<in> set xs \<union> set ys \<longleftrightarrow> enqueued ?t b" using D(1) [of b] f by (auto simp: hand_over_def)
  show "b \<in> set ys \<Longrightarrow> ph ?t b = Waiting" using D(2) [of b] f by (auto simp: hand_over_def)
  show "ph ?t b \<noteq> Taking" using D(3) [of b] f by (auto simp: hand_over_def)
  show "own ?t b \<noteq> No_owner \<Longrightarrow> b = f" using D(6) [of b] by (auto simp: hand_over_def split: if_splits)
  show "ph ?t f = Idle" using f by (simp add: hand_over_def)
qed (use heldD(7-9) [OF assms] in \<open>simp_all add: hand_over_def\<close>)

lemma pick_first_held:
  assumes "held_shape s a xs ys" and "pick_first (shared s) = Some (f, m')"
  obtains zs where "ys = f # zs" "m' = (shared s)\<lparr>queue := next_of (shared s) f\<rparr>"
proof -
  have "chain (shared s) (queue (shared s)) ys Null_slot" by (rule heldD(8) [OF assms(1)])
  with assms(2) that show thesis
    by (cases ys) (auto simp: pick_first_def)
qed

lemma held_empty_queue:
  assumes "held_shape s a xs []" and "\<forall>b. ph s b \<noteq> Checking"
  shows "\<exists>m1. take_requests Doorman (shared s) = Some m1
       \<and> held_shape (s\<lparr>shared := m1, own := (own s)(a := Holding)\<rparr>) a [] (rev xs)"
proof -
  note D = heldD [OF assms(1)]
  obtain m1 where m1: "take_requests Doorman (shared s) = Some m1"
    "chain m1 (queue m1) (rev xs) Null_slot" "requests m1 = Doorman"
    using take_requests_chain [of "shared s" "[]" xs Doorman] D(7-9) by auto
  have "held_shape (s\<lparr>shared := m1, own := (own s)(a := Holding)\<rparr>) a [] (rev xs)"
    (is "held_shape ?t _ _ _")
  proof (rule heldI)
    fix b
    show "b \<in> set [] \<union> set (rev xs) \<longleftrightarrow> enqueued ?t b" using D(1) [of b] by simp
    show "b \<in> set (rev xs) \<Longrightarrow> ph ?t b = Waiting" using D(1) [of b] assms(2) by simp
    show "ph ?t b \<noteq> Taking" using D(3) [of b] by simp
    show "own ?t b \<noteq> No_owner \<Longrightarrow> b = a" using D(6) [of b] by (simp split: if_splits)
  qed (use m1 D(4,9) in simp_all)
  with m1 show ?thesis by blast
qed

lemma hand_over_owner: "hand_over a f m (s\<lparr>shared := m1, own := (own s)(a := x)\<rparr>) = hand_over a f m s"
  by (simp add: hand_over_def)

lemma inv_unlock_take:
  assumes "mutex_inv s" and "own s a = Emptying" and "\<forall>b. ph s b \<noteq> Checking"
    and "take_requests Doorman (shared s) = Some m1" and "pick_first m1 = Some (f, m')"
  shows "mutex_inv (hand_over a f m' s)"
proof -
  obtain xs ys where held: "held_shape s a xs ys"
    using owner_held assms(1,2) by (metis own_phase.distinct(3))
  then have "ys = []" using heldD(10) assms(2) by blast
  with held_empty_queue [of s a xs] held assms(3,4)
  have h: "held_shape (s\<lparr>shared := m1, own := (own s)(a := Holding)\<rparr>) a [] (rev xs)"
    (is "held_shape ?s _ _ _") by auto
  have "pick_first (shared ?s) = Some (f, m')" using assms(5) by simp
  with pick_first_held [OF h] held_hand_over h show ?thesis
    by (metis hand_over_owner mutex_invI(3))
qed

lemma inv_unlock_queue:
  assumes "mutex_inv s" and "own s a = Holding" and "pick_first (shared s) = Some (f, m')"
  shows "mutex_inv (hand_over a f m' s)"
proof -
  obtain xs ys where held: "held_shape s a xs ys"
    using owner_held assms(1,2) by (metis own_phase.distinct(1))
  with pick_first_held [OF held assms(3)] held_hand_over show ?thesis by (metis mutex_invI(3))
qed

lemma mutex_step_inv: "mutex_step True s t \<Longrightarrow> mutex_inv s \<Longrightarrow> mutex_inv t"
proof (induction rule: mutex_step.induct)
  case (begin_request s a)
  then show ?case by (simp add: inv_private_slot)
next
  case (push_ok s a m')
  with cas_ok [OF push_ok(2)] show ?case using inv_push_ok [of s a] by simp
next
  case (push_fail s a m')
  then have "s\<lparr>shared := m'\<rparr> = s\<lparr>shared := m', ph := (ph s)(a := Pushing)\<rparr>"
    by (cases s) (simp add: fun_upd_idem)
  with push_fail cas_fail [OF push_fail(2)] show ?case
    using inv_private_slot [of s a "requests (shared s)"] by simp
next
  case (unlock_busy s a m')
  then have "m' = shared s" "requests (shared s) \<noteq> Doorman"
    by (auto simp: cas_requests_def split: if_splits)
  moreover obtain xs ys where "held_shape s a xs ys"
    using owner_held unlock_busy by (metis own_phase.distinct(1))
  ultimately show ?case using held_busy [of s a xs ys] unlock_busy(2) by (auto simp: mutex_inv_def)
qed (auto simp: try_lock_def cas_requests_def split: if_splits
      intro: inv_check_null inv_check_next inv_take inv_attempt_ok inv_unlock_free
        inv_unlock_queue inv_unlock_take)

interpretation calm_mutex: step_invariant mutex_init "mutex_step True" mutex_inv
proof
  show "mutex_init s \<Longrightarrow> mutex_inv s" for s
    by (rule mutex_invI(1)) (simp add: mutex_init_def free_shape_def)
  show "mutex_inv s \<Longrightarrow> mutex_step True s t \<Longrightarrow> mutex_inv t" for s t
    by (rule mutex_step_inv)
qed

section \<open>Mutual exclusion\<close>

text \<open>
  C2: mutual exclusion and no lost request in the calm schedules: for every number of threads and
  every interleaving in which the list of requests is not taken over while a thread stands between
  its exchange and its test.  (The code permits other schedules, and \<open>late_test_breaks_mutex\<close>
  shows that the mutex does not exclude there.)  At most one owner exists, and none while a thread is about to
  take the mutex; a request that waits is linked in the structure exactly once, and somebody
  holds the mutex or is about to take it, so that its release will find the request.
\<close>

theorem mutex_exclusive:
  assumes "reachable mutex_init (mutex_step True) s"
  shows "(\<forall>a b. own s a \<noteq> No_owner \<longrightarrow> own s b \<noteq> No_owner \<longrightarrow> a = b)
       \<and> (\<forall>a b. ph s a = Taking \<longrightarrow> own s b = No_owner \<and> (ph s b = Taking \<longrightarrow> a = b))
       \<and> (\<forall>a. ph s a = Waiting \<longrightarrow>
             (\<exists>xs ys t. chain (shared s) (requests (shared s)) xs t \<and> (t = Doorman \<or> t = Null_slot)
                \<and> chain (shared s) (queue (shared s)) ys Null_slot
                \<and> a \<in> set (xs @ ys) \<and> distinct (xs @ ys))
             \<and> (\<exists>b. own s b \<noteq> No_owner \<or> ph s b = Checking \<or> ph s b = Taking))"
  using calm_mutex.reachable_inv [OF assms]
proof (cases rule: mutex_invE)
  case free
  then show ?thesis by (simp add: free_shape_def)
next
  case (claimed t xs)
  note D = claimedD [OF claimed]
  have "a \<in> set ((xs @ [t]) @ [])" if "ph s a = Waiting" for a
    using D(1) [of a] that by simp
  moreover have "own s a = No_owner" for a using D(4) by simp
  moreover have "chain (shared s) (queue (shared s)) [] Null_slot" "distinct ((xs @ [t]) @ [])"
    using D(5,7) by simp_all
  ultimately show ?thesis using D(2,3,6) by blast
next
  case (held h xs ys)
  note D = heldD [OF held]
  have "ph s a = Waiting \<Longrightarrow> a \<in> set (xs @ ys)" for a using D(1) by auto
  with D(3,5-9) show ?thesis by blast
qed

definition idle_sys :: mutex_sys where
  "idle_sys = \<lparr>shared = new_mutex, ph = (\<lambda>_. Idle), own = (\<lambda>_. No_owner)\<rparr>"

lemma idle_reachable: "reachable mutex_init (mutex_step calm) idle_sys"
  by (rule reachable.start) (simp add: mutex_init_def idle_sys_def new_mutex_def)

text \<open>Thread 0 locks, then thread 1 requests and comes to wait.\<close>

definition locked_sys :: mutex_sys where
  "locked_sys = idle_sys\<lparr>shared := new_mutex\<lparr>requests := Doorman\<rparr>, own := (\<lambda>_. No_owner)(0 := Holding)\<rparr>"

definition pushing_sys :: "nat \<Rightarrow> mutex_sys \<Rightarrow> mutex_sys" where
  "pushing_sys a s = s\<lparr>shared := set_next a Null_slot (shared s), ph := (ph s)(a := Pushing)\<rparr>"

definition pushed_sys :: "nat \<Rightarrow> mutex_sys \<Rightarrow> mutex_sys" where
  "pushed_sys a s =
     s\<lparr>shared := (set_next a (requests (shared s)) (set_next a Null_slot (shared s)))\<lparr>requests := Slot a\<rparr>,
       ph := (ph s)(a := Checking)\<rparr>"

lemma locked_reachable: "reachable mutex_init (mutex_step calm) locked_sys"
proof (rule reachable.next_step [OF idle_reachable])
  show "mutex_step calm idle_sys locked_sys"
    using mutex_step.attempt_ok [of idle_sys 0 "new_mutex\<lparr>requests := Doorman\<rparr>" calm]
    by (simp add: idle_sys_def locked_sys_def new_mutex_def try_lock_def cas_requests_def)
qed

lemma pushed_reachable:
  assumes "reachable mutex_init (mutex_step calm) s" and "ph s a = Idle" and "own s a = No_owner"
    and "requests (shared s) \<noteq> Null_slot"
  shows "reachable mutex_init (mutex_step calm) (pushed_sys a s)"
proof -
  let ?s1 = "pushing_sys a s"
  let ?s2 = "?s1\<lparr>shared := set_next a (requests (shared s)) (shared ?s1)\<rparr>"
  have "mutex_step calm s ?s1"
    unfolding pushing_sys_def using assms(2,3) by (rule mutex_step.begin_request)
  moreover have "mutex_step calm ?s1 ?s2"
    by (rule mutex_step.push_fail [of _ a])
      (use assms(4) in \<open>simp_all add: pushing_sys_def add_request_cas_def cas_requests_def\<close>)
  moreover have "mutex_step calm ?s2
      (?s2\<lparr>shared := (shared ?s2)\<lparr>requests := Slot a\<rparr>, ph := (ph ?s2)(a := Checking)\<rparr>)"
    by (rule mutex_step.push_ok)
      (simp_all add: pushing_sys_def add_request_cas_def cas_requests_def)
  moreover have "?s2\<lparr>shared := (shared ?s2)\<lparr>requests := Slot a\<rparr>, ph := (ph ?s2)(a := Checking)\<rparr> = pushed_sys a s"
    by (simp add: pushing_sys_def pushed_sys_def)
  ultimately show ?thesis using assms(1) by (metis reachable.next_step)
qed

definition waiting_sys :: mutex_sys where
  "waiting_sys = (pushed_sys 1 locked_sys)\<lparr>ph := (\<lambda>_. Idle)(1 := Waiting)\<rparr>"

lemmas sys_defs = waiting_sys_def pushed_sys_def locked_sys_def idle_sys_def new_mutex_def set_next_def

lemma waiting_reachable: "reachable mutex_init (mutex_step calm) waiting_sys"
proof -
  have p: "reachable mutex_init (mutex_step calm) (pushed_sys 1 locked_sys)"
    by (rule pushed_reachable [OF locked_reachable]) (simp_all add: locked_sys_def idle_sys_def)
  have "mutex_step calm (pushed_sys 1 locked_sys) waiting_sys"
    using mutex_step.check_next [of "pushed_sys 1 locked_sys" 1 calm]
    by (simp add: sys_defs)
  with p show ?thesis by (rule reachable.next_step)
qed

theorem mutex_exclusive_witness:
  "ph waiting_sys 1 = Waiting \<and> own waiting_sys 0 = Holding
   \<and> (\<forall>b. b = 0 \<or> own waiting_sys b = No_owner)"
proof -
  have "ph waiting_sys 1 = Waiting" "own waiting_sys 0 = Holding" by (simp_all add: sys_defs)
  with mutex_exclusive [OF waiting_reachable] show ?thesis by (metis own_phase.distinct(1))
qed

section \<open>The loop over the requests ends\<close>

text \<open>
  C26: \<^verbatim>\<open>make_queue\<close> returns whenever it runs in a calm schedule.  In every state reachable
  without taking over the list of requests while a thread stands between its exchange and its test
  (a restriction that the code does not enforce and without which the loop may run past the end of
  the list, \<open>late_test_breaks_mutex\<close>) the thread that takes the mutex over, or the owner that releases it, takes a
  list of requests that ends at the slot it is looking for: the loop neither runs forever nor
  meets the null pointer, and an owner that found requests gets one to hand the mutex to.
\<close>

theorem mutex_loops_end:
  assumes "reachable mutex_init (mutex_step True) s"
    and "(e = Slot a \<and> ph s a = Taking) \<or> (e = Doorman \<and> own s a \<noteq> No_owner)"
  shows "\<exists>m. take_requests e (shared s) = Some m
           \<and> (own s a = Emptying \<longrightarrow> (\<exists>f m'. pick_first m = Some (f, m')))"
proof -
  have "mutex_inv s" using calm_mutex.reachable_inv [OF assms(1)] .
  then show ?thesis
  proof (cases rule: mutex_invE)
    case free
    with assms(2) show ?thesis by (auto simp: free_shape_def)
  next
    case (claimed t xs)
    note D = claimedD [OF claimed]
    from assms(2) D(3,4) have e: "e = Slot t" "a = t" by auto
    have "chain (shared s) (requests (shared s)) xs (Slot t)" using D(6) by (auto simp: chain_append)
    then show ?thesis
      using take_requests_chain [of "shared s" "[]" xs "Slot t"] D(4,5,7) e by auto
  next
    case (held h xs ys)
    note D = heldD [OF held]
    from assms(2) D(3,6) have e: "e = Doorman" "a = h" by auto
    obtain m where m: "take_requests Doorman (shared s) = Some m" "chain m (queue m) (rev xs @ ys) Null_slot"
      using take_requests_chain [of "shared s" ys xs Doorman] D(7,8,9) by auto
    have "\<exists>f m'. pick_first m = Some (f, m')" if "own s h = Emptying"
      using m(2) D(10) [OF that] by (cases "rev xs") (auto simp: pick_first_def)
    with e m(1) show ?thesis by auto
  qed
qed

theorem mutex_loops_end_witness: "\<exists>m. take_requests Doorman (shared waiting_sys) = Some m"
proof -
  have "own waiting_sys 0 \<noteq> No_owner" by (simp add: sys_defs)
  with mutex_loops_end [OF waiting_reachable, of Doorman 0] show ?thesis by blast
qed

section \<open>Every waiting request can be served\<close>

abbreviation mutex_run :: "mutex_sys \<Rightarrow> mutex_sys \<Rightarrow> bool" where
  "mutex_run \<equiv> (mutex_step True)\<^sup>*\<^sup>*"

text \<open>The threads that stand before their test can all finish it.\<close>

lemma held_settles:
  assumes "held_shape s h xs ys"
  shows "\<exists>t. mutex_run s t \<and> held_shape t h xs ys \<and> (\<forall>b. ph t b \<noteq> Checking)"
  using assms
proof (induction "card {b. ph s b = Checking}" arbitrary: s rule: less_induct)
  case less
  show ?case
  proof (cases "\<exists>a. ph s a = Checking")
    case True
    then obtain a where a: "ph s a = Checking" ..
    let ?t = "s\<lparr>ph := (ph s)(a := Waiting)\<rparr>"
    note t = held_check [OF less.prems a]
    have "{b. ph s b = Checking} \<subseteq> set xs \<union> set ys" using heldD(1) [OF less.prems] by blast
    then have "finite {b. ph s b = Checking}" by (rule finite_subset) simp
    moreover have "{b. ph ?t b = Checking} \<subset> {b. ph s b = Checking}" using a by auto
    ultimately have "card {b. ph ?t b = Checking} < card {b. ph s b = Checking}"
      by (rule psubset_card_mono)
    with less.hyps t obtain u where "mutex_run ?t u" "held_shape u h xs ys" "\<forall>b. ph u b \<noteq> Checking"
      by blast
    moreover have "mutex_step True s ?t" using a t by (auto intro: mutex_step.check_next)
    ultimately show ?thesis by (meson converse_rtranclp_into_rtranclp)
  qed (use less.prems in blast)
qed

lemma claimed_settles:
  assumes "claimed_shape s t xs"
  shows "\<exists>u. mutex_run s u \<and> claimed_shape u t xs \<and> ph u t = Taking \<and> (\<forall>b. ph u b \<noteq> Checking)"
  using assms
proof (induction "card {b. ph s b = Checking}" arbitrary: s rule: less_induct)
  case less
  show ?case
  proof (cases "\<exists>a. ph s a = Checking")
    case True
    then obtain a where a: "ph s a = Checking" ..
    have "\<exists>p. p \<noteq> Checking \<and> claimed_shape (s\<lparr>ph := (ph s)(a := p)\<rparr>) t xs
            \<and> mutex_step True s (s\<lparr>ph := (ph s)(a := p)\<rparr>)"
    proof (cases "a = t")
      case True
      with claimed_check_first [OF less.prems] a mutex_step.check_null [OF a]
      show ?thesis by (intro exI [of _ Taking]) simp
    next
      case False
      with claimed_check [OF less.prems a] mutex_step.check_next [OF a]
      show ?thesis by (intro exI [of _ Waiting]) simp
    qed
    then obtain p where p: "p \<noteq> Checking" "claimed_shape (s\<lparr>ph := (ph s)(a := p)\<rparr>) t xs"
      "mutex_step True s (s\<lparr>ph := (ph s)(a := p)\<rparr>)" (is "mutex_step True s ?t") by blast
    have "{b. ph s b = Checking} \<subseteq> set xs \<union> {t}" using claimedD(1) [OF less.prems] by blast
    then have "finite {b. ph s b = Checking}" by (rule finite_subset) simp
    moreover have "{b. ph ?t b = Checking} \<subset> {b. ph s b = Checking}" using a p(1) by auto
    ultimately have "card {b. ph ?t b = Checking} < card {b. ph s b = Checking}"
      by (rule psubset_card_mono)
    with less.hyps p(2) obtain u where "mutex_run ?t u" "claimed_shape u t xs" "ph u t = Taking"
      "\<forall>b. ph u b \<noteq> Checking" by blast
    with p(3) show ?thesis by (meson converse_rtranclp_into_rtranclp)
  next
    case False
    then have "ph s t = Taking" using claimedD(2) [OF less.prems] by blast
    with False less.prems show ?thesis by blast
  qed
qed

lemma claimed_takes:
  assumes "claimed_shape s t xs" and "ph s t = Taking" and "\<forall>b. ph s b \<noteq> Checking"
  shows "\<exists>u. mutex_step True s u \<and> held_shape u t [] (rev xs) \<and> (\<forall>b. ph u b \<noteq> Checking)"
proof -
  obtain m' where m': "take_requests (Slot t) (shared s) = Some m'"
    "held_shape (s\<lparr>shared := m', ph := (ph s)(t := Idle), own := (own s)(t := Holding)\<rparr>) t [] (rev xs)"
    (is "held_shape ?u _ _ _") using claimed_take [OF assms(1,3)] by blast
  have "mutex_step True s ?u" by (rule mutex_step.take [OF assms(2) _ m'(1)]) (use assms(3) in simp)
  moreover have "\<forall>b. ph ?u b \<noteq> Checking" using assms(3) by simp
  ultimately show ?thesis using m'(2) by blast
qed

text \<open>One release: the first of the waiting line gets the mutex.\<close>

lemma held_releases:
  assumes "held_shape s h xs ys" and "\<forall>b. ph s b \<noteq> Checking" and "ys @ rev xs = f # zs"
  shows "\<exists>t xs' ys'. mutex_run s t \<and> held_shape t f xs' ys' \<and> own t f = Holding
       \<and> (\<forall>b. ph t b \<noteq> Checking) \<and> ys' @ rev xs' = zs"
proof (cases ys)
  case (Cons f' ys')
  with assms(3) have f: "ys = f # ys'" "zs = ys' @ rev xs" by simp_all
  note D = heldD [OF assms(1)]
  let ?m = "(shared s)\<lparr>queue := next_of (shared s) f\<rparr>"
  have q: "queue (shared s) = Slot f" using D(8) f by simp
  have "own s h = Holding" using D(5,10) f by (cases "own s h") auto
  then have "mutex_step True s (hand_over h f ?m s)"
    by (rule mutex_step.unlock_queue) (simp_all add: q pick_first_def)
  moreover have "held_shape (hand_over h f ?m s) f xs ys'" using held_hand_over assms(1) f by blast
  moreover have "ph (hand_over h f ?m s) b \<noteq> Checking" for b using assms(2) by (simp add: hand_over_def)
  moreover have "own (hand_over h f ?m s) f = Holding" by (simp add: hand_over_def)
  ultimately show ?thesis using f(2) by blast
next
  case Nil
  with assms(3) have rx: "rev xs = f # zs" and xs: "xs \<noteq> []" by auto
  note D = heldD [OF assms(1)]
  let ?s = "s\<lparr>own := (own s)(h := Emptying)\<rparr>"
  have q: "queue (shared s) = Null_slot" using D(8) Nil by simp
  have r: "requests (shared s) \<noteq> Doorman" using D(7) xs by (cases xs) auto
  have e: "held_shape ?s h xs []" using held_busy [OF assms(1) q r] Nil by simp
  have "mutex_run s ?s"
  proof (cases "own s h")
    case Emptying
    then have "?s = s" by (cases s) (simp add: fun_upd_idem)
    then show ?thesis by simp
  next
    case Holding
    then have "mutex_step True s (s\<lparr>shared := shared s, own := (own s)(h := Emptying)\<rparr>)"
      using q r by (intro mutex_step.unlock_busy) (simp_all add: cas_requests_def)
    then show ?thesis by simp
  qed (use D(5) in simp)
  moreover obtain m1 where m1: "take_requests Doorman (shared ?s) = Some m1"
    "held_shape (?s\<lparr>shared := m1, own := (own ?s)(h := Holding)\<rparr>) h [] (f # zs)"
    using held_empty_queue [OF e] assms(2) rx by auto
  let ?m = "m1\<lparr>queue := next_of m1 f\<rparr>"
  have pick: "pick_first m1 = Some (f, ?m)" using heldD(8) [OF m1(2)] by (simp add: pick_first_def)
  have "mutex_step True ?s (hand_over h f ?m ?s)"
    by (rule mutex_step.unlock_take [OF _ _ m1(1) pick]) (use assms(2) in simp_all)
  moreover have "held_shape (hand_over h f ?m ?s) f [] zs"
    using held_hand_over [OF m1(2)] hand_over_owner [of h f ?m ?s] by simp
  moreover have "ph (hand_over h f ?m ?s) b \<noteq> Checking" for b using assms(2) by (simp add: hand_over_def)
  moreover have "own (hand_over h f ?m ?s) f = Holding" by (simp add: hand_over_def)
  ultimately show ?thesis
    by (intro exI [of _ "hand_over h f ?m ?s"] exI [of _ "[]"] exI [of _ zs])
      (auto intro: rtranclp.rtrancl_into_rtrancl)
qed

lemma held_serves:
  assumes "held_shape s h xs ys" and "\<forall>b. ph s b \<noteq> Checking" and "a \<in> set (ys @ rev xs)"
  shows "\<exists>t. mutex_run s t \<and> own t a = Holding"
  using assms
proof (induction "ys @ rev xs" arbitrary: s h xs ys)
  case Nil
  then show ?case by simp
next
  case (Cons f zs)
  obtain t xs' ys' where t: "mutex_run s t" "held_shape t f xs' ys'" "own t f = Holding"
    "\<forall>b. ph t b \<noteq> Checking" "ys' @ rev xs' = zs"
    using held_releases [OF Cons.prems(1,2)] Cons.hyps(2) by metis
  show ?case
  proof (cases "a = f")
    case False
    have "a \<in> set (f # zs)" using Cons.prems(3) Cons.hyps(2) by simp
    with False have "a \<in> set (ys' @ rev xs')" using t(5) by simp
    with Cons.hyps(1) [of ys' xs' t f] t show ?thesis by (meson rtranclp_trans)
  qed (use t in blast)
qed

text \<open>
  No deadlock.  From every state with the shapes above, so from every reachable one,
  a request that waits can be brought to own the mutex by the steps of the threads that are
  inside the mutex (finishing their test, taking over, releasing).
\<close>

lemma waiting_served:
  assumes "mutex_inv s" and "ph s a = Waiting"
  shows "\<exists>t. (mutex_step True)\<^sup>*\<^sup>* s t \<and> own t a = Holding"
  using assms(1)
proof (cases rule: mutex_invE)
  case free
  with assms(2) show ?thesis by (simp add: free_shape_def)
next
  case (claimed t xs)
  then obtain u where u: "mutex_run s u" "claimed_shape u t xs" "ph u t = Taking" "\<forall>b. ph u b \<noteq> Checking"
    using claimed_settles by blast
  have "a \<in> set xs" using claimedD(1) [OF claimed, of a] claimedD(2) [OF claimed] assms(2) by auto
  obtain v where v: "mutex_step True u v" "held_shape v t [] (rev xs)" "\<forall>b. ph v b \<noteq> Checking"
    using claimed_takes [OF u(2-4)] by blast
  with \<open>a \<in> set xs\<close> obtain w where "mutex_run v w" "own w a = Holding"
    using held_serves [OF v(2,3), of a] by auto
  with u(1) v(1) show ?thesis by (meson rtranclp_trans r_into_rtranclp)
next
  case (held h xs ys)
  then obtain u where u: "mutex_run s u" "held_shape u h xs ys" "\<forall>b. ph u b \<noteq> Checking"
    using held_settles by blast
  have "a \<in> set (ys @ rev xs)" using heldD(1) [OF held, of a] assms(2) by auto
  with held_serves [OF u(2,3)] u(1) show ?thesis by (meson rtranclp_trans)
qed

lemma waiting_served_at_input:
  "\<exists>t. (mutex_step True)\<^sup>*\<^sup>* waiting_sys t \<and> own t 1 = Holding"
  using waiting_served [OF calm_mutex.reachable_inv [OF waiting_reachable], of 1] by (simp add: sys_defs)

section \<open>The late test\<close>

text \<open>
  C35: without the restriction on the schedule the mutex breaks.  Thread 0 holds it, request 1
  waits, thread 2 has pushed its slot and stands before its test of \<^verbatim>\<open>s->_next\<close>.
  Thread 0 releases: it reverses the requests into the queue, which makes slot 2 the end of
  the queue with a null pointer, and hands the mutex to request 1.  Then the test of thread 2
  finds the null pointer: it takes the mutex for its own while request 1 holds it, and its
  \<^verbatim>\<open>make_queue\<close> runs from the doorman past its end (a null pointer is dereferenced).
\<close>

theorem late_test_breaks_mutex:
  "\<exists>s. reachable mutex_init (mutex_step False) s
      \<and> own s 1 = Holding \<and> ph s 2 = Taking \<and> take_requests (Slot 2) (shared s) = None"
proof -
  let ?s1 = "pushed_sys 2 waiting_sys"
  let ?s2 = "?s1\<lparr>own := (own ?s1)(0 := Emptying)\<rparr>"
  have 1: "reachable mutex_init (mutex_step False) ?s1"
    by (rule pushed_reachable [OF waiting_reachable]) (simp_all add: sys_defs)
  have "mutex_step False ?s1 (?s1\<lparr>shared := shared ?s1, own := (own ?s1)(0 := Emptying)\<rparr>)"
    by (rule mutex_step.unlock_busy) (simp_all add: sys_defs cas_requests_def)
  with 1 have 2: "reachable mutex_init (mutex_step False) ?s2" by (auto intro: reachable.next_step)
  obtain m1 where m1: "take_requests Doorman (shared ?s2) = Some m1"
    "queue m1 = Slot 1" "next_of m1 1 = Slot 2" "next_of m1 2 = Null_slot" "requests m1 = Doorman"
    by (simp add: sys_defs take_requests_def make_queue.simps)
  let ?m = "m1\<lparr>queue := Slot 2\<rparr>"
  let ?s3 = "hand_over 0 1 ?m ?s2"
  have "pick_first m1 = Some (1, ?m)" using m1 by (simp add: pick_first_def)
  then have "mutex_step False ?s2 ?s3"
    by (intro mutex_step.unlock_take [OF _ _ m1(1)]) simp_all
  with 2 have 3: "reachable mutex_init (mutex_step False) ?s3" by (rule reachable.next_step)
  let ?s4 = "?s3\<lparr>ph := (ph ?s3)(2 := Taking)\<rparr>"
  have "mutex_step False ?s3 ?s4"
    by (rule mutex_step.check_null) (simp_all add: m1 hand_over_def sys_defs)
  with 3 have "reachable mutex_init (mutex_step False) ?s4" by (rule reachable.next_step)
  moreover have "own ?s4 1 = Holding" "ph ?s4 2 = Taking" by (simp_all add: hand_over_def)
  moreover have "take_requests (Slot 2) (shared ?s4) = None"
    by (simp add: take_requests_def make_queue.simps hand_over_def m1)
  ultimately show ?thesis by blast
qed

end
