(* ===== verification/Await_Facts.thy ===== *)
theory Await_Facts
  imports Await_Ops
begin

text \<open>
  Properties of the core: the class invariant over every run of the operations, the whole
  path of a \<^verbatim>\<open>co_await\<close> on a coroutine, what the awaiting side reads, moving and
  destroying awaitables, and the state readers.
\<close>

section \<open>The invariant over all runs\<close>

definition unowned :: "nat \<Rightarrow> 'v store \<Rightarrow> bool" where
  "unowned f s \<longleftrightarrow> (\<forall>p. state_of s p \<noteq> Coroutine (Some f))"

text \<open>
  One step is one operation of a client.  A callback closure runs further steps; its
  dispatch changes the awaitable only.  Frames are destroyed through their handle, which a
  client has only when no \<^verbatim>\<open>coroutine<T>\<close> object holds the frame.
\<close>

inductive awt_step :: "'v store \<Rightarrow> 'v store \<Rightarrow> bool" where
  new_awaitable: "dispatched st \<Longrightarrow> awt_step s (construct p st s)"
| new_coroutine:
    "map_of (frames s) f = None \<Longrightarrow> coroutine_create f s = (c, t) \<Longrightarrow>
     awt_step s (construct p (Coroutine c) t)"
| set_result: "result_step r x s = (pc, r', t) \<Longrightarrow> awt_step s t"
| drop_result: "awt_step s (result_dtor r s)"
| suspend:
    "(\<exists>c. state_of s p = Coroutine c) \<or> ready_state (state_of s p) \<Longrightarrow>
     await_suspend call p h s = Inr (h', t) \<Longrightarrow> awt_step s t"
| dispatch_callback: "state_of s p = Callback cb \<Longrightarrow> awt_step s (set_owner p h s)"
| dispatch_callback_ptr:
    "state_of s p = Callback_ptr (Some cb) \<Longrightarrow>
     awt_step s (set_state p (Callback_ptr None) (set_owner p h s))"
| finish:
    "unowned f s \<Longrightarrow> hook s = Inr s \<Longrightarrow> coroutine_finish hook f out s = Inr (h, t) \<Longrightarrow>
     awt_step s t"
| destroy_handle: "unowned f s \<Longrightarrow> awt_step s (destroy_frame f s)"
| move: "q \<noteq> p \<Longrightarrow> awt_step s (awaitable_move q p s)"
| cancel: "awaitable_cancel p s = Inr t \<Longrightarrow> awt_step s t"
| temp_state: "get_temp_state r s = (x, t) \<Longrightarrow> awt_step s t"
| end_of_life:
    "\<not> is_awaiting p s \<Longrightarrow> state_of s p = Coroutine c \<Longrightarrow> awaitable_dtor call p s = Inr t \<Longrightarrow>
     awt_step s (construct p No_value t)"

definition awt_init :: "'v store \<Rightarrow> bool" where
  "awt_init s \<longleftrightarrow> frames s = [] \<and> trace s = [] \<and> (\<forall>p. awts s p = \<lparr>a_state = No_value, a_owner = Null_handle\<rparr>)"

lemma construct_simps [simp]:
  "state_of (construct p st s) q = (if q = p then st else state_of s q)"
  "owner_of (construct p st s) q = (if q = p then Null_handle else owner_of s q)"
  "frames (construct p st s) = frames s" "trace (construct p st s) = trace s"
  "cur_exn (construct p st s) = cur_exn s"
  by (simp_all add: construct_def)

lemma wf_construct: "wf_store s \<Longrightarrow> dispatched st \<Longrightarrow> wf_store (construct p st s)"
  by (auto simp: wf_store_def)

lemma owned_after_destroy_state:
  "wf_store s \<Longrightarrow> unowned f s \<Longrightarrow> unowned f (destroy_state p s)"
  by (cases "state_of s p" rule: dispatched.cases)
     (auto simp: unowned_def destroy_state_owned)

lemma unowned_set_state: "unowned f s \<Longrightarrow> dispatched st \<Longrightarrow> unowned f (set_state p st s)"
  by (auto simp: unowned_def)

lemma unowned_set_owner [simp]: "unowned f (set_owner p h s) = unowned f s"
  by (simp add: unowned_def)

lemma unowned_outcome:
  assumes "wf_store s" and "unowned f s"
  shows "unowned f (set_value p mk s)" "unowned f (set_exception p e s)" "unowned f (drop_awt p s)"
  using owned_after_destroy_state [OF assms]
  by (auto simp: set_value_def set_exception_def drop_awt_def Let_def split: sum.split
      intro!: unowned_set_state)

lemma unowned_wakeup: "wf_store s \<Longrightarrow> unowned f s \<Longrightarrow> unowned f (snd (wakeup p s))"
  by (simp add: wakeup_def Let_def unowned_outcome)

lemma wf_promise_outcome:
  assumes "wf_store s" and "unowned f s" and "hook s = Inr s"
    and "promise_outcome hook f out s = Inr t"
  shows "wf_store t \<and> unowned f t"
  using assms
  by (auto simp: promise_outcome_def promise_return_value_def unhandled_exception_def
      promise_set_exception_def wf_outcome unowned_outcome
      split: sum.splits option.splits if_splits)

lemma wf_finish:
  assumes "wf_store s" and "unowned f s" and "hook s = Inr s"
    and "coroutine_finish hook f out s = Inr (h, t)"
  shows "wf_store t"
proof -
  obtain s1 where out: "promise_outcome hook f out s = Inr s1"
    and t: "(h, t) = (if finisher_await_ready f s1 then (Noop_coroutine, destroy_frame f s1)
                      else finisher_await_suspend f s1)"
    using assms(4) by (auto simp: coroutine_finish_def split: sum.splits if_splits)
  from wf_promise_outcome [OF assms(1-3) out] have s1: "wf_store s1" "unowned f s1" by auto
  have "wf_store (snd (promise_wakeup f s1))" "unowned f (snd (promise_wakeup f s1))"
    using s1 by (auto simp: promise_wakeup_def wf_wakeup unowned_wakeup split: option.split)
  then have "wf_store (snd (finisher_await_suspend f s1))"
    by (auto simp: finisher_await_suspend_def case_prod_beta unowned_def intro: wf_destroy_frame)
  moreover have "wf_store (destroy_frame f s1)"
    using s1 by (auto simp: unowned_def intro: wf_destroy_frame)
  ultimately show ?thesis using t by (metis snd_conv)
qed

lemma wf_move: "wf_store s \<Longrightarrow> q \<noteq> p \<Longrightarrow> wf_store (awaitable_move q p s)"
proof -
  assume wf: "wf_store s" and ne: "q \<noteq> p"
  let ?t = "set_state p (moved_from (state_of s p)) (construct q (state_of s p) s)"
  have disp: "dispatched (moved_from st)" for st :: "'a aw_state"
    by (cases st) auto
  have st: "state_of (set_state p No_value ?t) r =
      (if r = p then No_value else if r = q then state_of s p else state_of s r)" for r
    by simp
  have "wf_store (set_state p No_value ?t)"
  proof (rule wf_storeI)
    fix r f assume "state_of (set_state p No_value ?t) r = Coroutine (Some f)"
    then show "map_of (frames (set_state p No_value ?t)) f = Some \<lparr>p_target = None\<rparr>"
      unfolding st using wf_owned [OF wf] by (auto split: if_splits)
  next
    fix r r' f
    assume "state_of (set_state p No_value ?t) r = Coroutine (Some f)"
      and "state_of (set_state p No_value ?t) r' = Coroutine (Some f)"
    then show "r = r'"
      unfolding st using wf_unique [OF wf] by (metis aw_state.distinct(5))
  qed (use wf_distinct [OF wf] in simp)
  with disp [of "state_of s p"] show "wf_store (awaitable_move q p s)"
    by (simp add: awaitable_move_def Let_def)
qed

lemma wf_result_step: "wf_store s \<Longrightarrow> result_step r x s = (pc, r', t) \<Longrightarrow> wf_store t"
  by (cases x; cases r)
     (auto simp: result_defs case_prod_beta intro!: wf_wakeup wf_outcome)

lemma wf_new_coroutine:
  assumes "wf_store s" and "map_of (frames s) f = None" and "coroutine_create f s = (c, t)"
  shows "wf_store (construct p (Coroutine c) t)"
proof (rule wf_storeI)
  from assms(2,3) show "distinct (map fst (frames (construct p (Coroutine c) t)))"
    using wf_distinct [OF assms(1)]
    by (auto simp: coroutine_create_def map_of_eq_None_iff)
  have fresh: "state_of s q \<noteq> Coroutine (Some f)" for q
    using wf_owned [OF assms(1), of q f] assms(2) by auto
  fix q g assume q: "state_of (construct p (Coroutine c) t) q = Coroutine (Some g)"
  then show "map_of (frames (construct p (Coroutine c) t)) g = Some \<lparr>p_target = None\<rparr>"
    using assms(3) fresh [of q] wf_owned [OF assms(1), of q g]
    by (auto simp: coroutine_create_def split: if_splits)
  fix q' assume q': "state_of (construct p (Coroutine c) t) q' = Coroutine (Some g)"
  from q q' show "q = q'"
    using assms(3) fresh [of q] fresh [of q'] wf_unique [OF assms(1), of q g q']
    by (auto simp: coroutine_create_def split: if_splits)
qed

lemma wf_suspend:
  assumes wf: "wf_store s" and st: "(\<exists>c. state_of s p = Coroutine c) \<or> ready_state (state_of s p)"
    and t: "await_suspend call p h s = Inr (h', t)"
  shows "wf_store t"
proof (cases "state_of s p")
  case (Coroutine c)
  show ?thesis
  proof (cases c)
    case None
    with Coroutine t wf show ?thesis
      by (auto simp: await_suspend_def coroutine_start_def intro!: wf_result_dtor wf_set_state)
  next
    case (Some f)
    have "wf_store (set_state p (Coroutine None) (set_target f (Some p) (set_owner p h s)))"
      by (rule wf_start) (use wf Coroutine Some in simp_all)
    with Coroutine t Some show ?thesis
      by (auto simp: await_suspend_def coroutine_start_def result_release_def result_dtor_def)
  qed
qed (use st t wf in \<open>auto simp: await_suspend_def\<close>)

lemma wf_end_of_life:
  assumes "wf_store s" and "state_of s p = Coroutine c" and "awaitable_dtor call p s = Inr t"
  shows "wf_store (construct p No_value t)"
  using assms
  by (auto simp: awaitable_dtor_def coroutine_dtor_def split: if_splits option.splits
      intro!: wf_construct)

lemma awt_step_wf: "wf_store s \<Longrightarrow> awt_step s t \<Longrightarrow> wf_store t"
proof (erule awt_step.cases, goal_cases)
  case 5
  then show ?case using wf_suspend by blast
next
  case 8
  then show ?case using wf_finish by blast
next
  case 9
  then show ?case by (auto simp: unowned_def intro: wf_destroy_frame)
qed (auto simp: awaitable_cancel_def get_temp_state_def
      split: if_splits option.splits
      intro: wf_construct wf_new_coroutine wf_result_step wf_result_dtor wf_set_state wf_move
        wf_destroy_state wf_end_of_life)

interpretation awt: step_invariant awt_init awt_step wf_store
proof
  show "awt_init s \<Longrightarrow> wf_store s" for s :: "'a store"
    by (auto simp: awt_init_def wf_store_def)
qed (rule awt_step_wf)

text \<open>
  C20: in every run of the operations the class invariant of \<^verbatim>\<open>coroutine<T>\<close> holds: a
  coroutine object that still holds its frame holds a live frame that was never started, no
  frame is held by two objects, and no frame is listed twice.  So cancelling or destroying an
  object never destroys a running frame and never destroys a frame twice.
\<close>

theorem reachable_stores_well_formed:
  "reachable awt_init awt_step s \<Longrightarrow> wf_store s"
  by (rule awt.reachable_inv)

definition start_store :: "nat store" where
  "start_store = \<lparr>awts = (\<lambda>_. \<lparr>a_state = No_value, a_owner = Null_handle\<rparr>), frames = [],
                  cur_exn = None, trace = []\<rparr>"

definition called_store :: "nat store" where
  "called_store = construct 1 (Coroutine (Some 9)) (snd (coroutine_create 9 start_store))"

lemma called_store_reachable: "reachable awt_init awt_step called_store"
proof -
  have "reachable awt_init awt_step start_store"
    by (rule reachable.start) (simp add: awt_init_def start_store_def)
  then show ?thesis
    unfolding called_store_def
    by (rule reachable.next_step)
       (rule awt_step.new_coroutine, simp_all add: coroutine_create_def start_store_def)
qed

theorem reachable_stores_well_formed_witness:
  "wf_store called_store \<and> state_of called_store 1 = Coroutine (Some 9)"
  using reachable_stores_well_formed [OF called_store_reachable] by (simp add: called_store_def)

section \<open>What the awaiting side reads\<close>

fun read_state :: "'v aw_state \<Rightarrow> exn + 'v" where
  "read_state (Value v) = Inr v"
| "read_state (Exception e) = Inl e"
| "read_state _ = Inl await_canceled_exception"

lemma await_resume_eq: "await_resume p s = read_state (state_of s p)"
  by (simp add: await_resume_def split: aw_state.split)

text \<open>
  C34: round trip of a result.  After the life of a result object, however it was used, the
  awaitable is resolved, nobody is registered on it any more, and \<^verbatim>\<open>await_resume\<close> gives
  what the first setter stored: the value it was given, the exception it was given (or the one
  thrown while the value was constructed), and \<^verbatim>\<open>await_canceled_exception\<close> when the
  result was dropped or never set.
\<close>

theorem await_resume_reads_result:
  assumes "dispatched (state_of s p)"
  shows "await_ready p (result_life (Some p) xs s)
       \<and> \<not> is_awaiting p (result_life (Some p) xs s)
       \<and> await_resume p (result_life (Some p) xs s) = read_state (life_state (cur_exn s) xs)"
  using assms
  by (simp add: result_life_resolves await_ready_def is_awaiting_def await_resume_eq)

theorem await_resume_reads_result_witness:
  "await_resume 1 (result_life (Some 1) [R_set_exception (user_exn 3), R_call (Inr 8)] pending_store)
   = Inl (user_exn 3)"
  using await_resume_reads_result
    [of pending_store 1 "[R_set_exception (user_exn 3), R_call (Inr 8)]"]
  by (simp add: pending_store_def life_state_def)

lemma co_await_path:
  assumes "state_of s p = Coroutine (Some f)"
    and "map_of (frames s) f = Some \<lparr>p_target = None\<rparr>"
  shows "\<exists>s1 s2. await_suspend call p (Coro h) s = Inr (Coro f, s1)
       \<and> coroutine_finish hook f out s1 = Inr (Coro h, s2)
       \<and> await_resume p s2 = out
       \<and> \<not> is_awaiting p s2
       \<and> frames s2 = AList.delete f (frames s)
       \<and> trace s2 = trace s @ [Destroy f]
       \<and> (\<forall>q. q \<noteq> p \<longrightarrow> awts s2 q = awts s q)"
proof -
  let ?s1 = "set_state p (Coroutine None) (set_target f (Some p) (set_owner p (Coro h) s))"
  let ?s2 = "frame_gone f (resolved p (outcome_state out) ?s1)"
  have susp: "await_suspend call p (Coro h) s = Inr (Coro f, ?s1)"
    using assms(1)
    by (simp add: await_suspend_def coroutine_start_def result_release_def result_dtor_def transfer_of)
  have "map_of (frames ?s1) f = Some \<lparr>p_target = Some p\<rparr>"
    using assms(2) by (simp add: set_target_def map_of_map_entry_self)
  then have fin: "coroutine_finish hook f out ?s1 = Inr (Coro h, ?s2)"
    by (rule coroutine_finish_awaited) simp_all
  have "await_resume p ?s2 = out"
    by (cases out) (simp_all add: await_resume_eq)
  moreover have "\<not> is_awaiting p ?s2" by (simp add: is_awaiting_def)
  moreover have "frames ?s2 = AList.delete f (frames s)" by (simp add: set_target_def)
  moreover have "awts ?s2 q = awts s q" if "q \<noteq> p" for q
    using that by (simp add: resolved_def set_owner_def set_state_def set_target_def)
  moreover have "trace ?s2 = trace s @ [Destroy f]" by simp
  ultimately show ?thesis using susp fin by blast
qed

text \<open>
  C21: the whole path of \<^verbatim>\<open>co_await\<close> on a coroutine.  Suspending on an awaitable that
  holds an unstarted coroutine transfers control to that coroutine; when its body finishes
  with \<open>out\<close>, control comes back to the awaiting coroutine, whose \<^verbatim>\<open>await_resume\<close>
  gives exactly \<open>out\<close> (the value, or the exception rethrown).  The frame is destroyed, and no
  handle is resumed on the side.
\<close>

theorem co_await_coroutine:
  assumes "state_of s p = Coroutine (Some f)"
    and "map_of (frames s) f = Some \<lparr>p_target = None\<rparr>"
  shows "\<exists>s1 s2. await_suspend call p (Coro h) s = Inr (Coro f, s1)
       \<and> coroutine_finish hook f out s1 = Inr (Coro h, s2)
       \<and> await_resume p s2 = out
       \<and> \<not> is_awaiting p s2
       \<and> frames s2 = AList.delete f (frames s)
       \<and> trace s2 = trace s @ [Destroy f]
       \<and> (\<forall>q. q \<noteq> p \<longrightarrow> awts s2 q = awts s q)"
  using assms by (rule co_await_path)

theorem co_await_coroutine_witness:
  "\<exists>s1 s2. await_suspend (\<lambda>cb r s. (prepared_empty, s)) 1 (Coro 5) called_store = Inr (Coro 9, s1)
       \<and> coroutine_finish default_async_unhandled_exception 9 (Inr 42) s1 = Inr (Coro 5, s2)
       \<and> await_resume 1 s2 = Inr 42"
proof -
  have "state_of called_store 1 = Coroutine (Some 9)"
    and "map_of (frames called_store) 9 = Some \<lparr>p_target = None\<rparr>"
    by (simp_all add: called_store_def coroutine_create_def)
  from co_await_coroutine [OF this, of "\<lambda>cb r s. (prepared_empty, s)" 5
      default_async_unhandled_exception "Inr 42"]
  show ?thesis by blast
qed

section \<open>Moving and destroying\<close>

text \<open>
  A moved awaitable carries everything over: the new object has the state of the old
  one (also an unstarted coroutine or a callback, which is neither started nor destroyed by
  the move), nobody awaits on it, the old object holds no value, and no other object, frame or
  handle is touched.
\<close>

lemma move_carries_state:
  assumes "q \<noteq> p"
  shows "state_of (awaitable_move q p s) q = state_of s p
       \<and> owner_of (awaitable_move q p s) q = Null_handle
       \<and> state_of (awaitable_move q p s) p = No_value
       \<and> frames (awaitable_move q p s) = frames s
       \<and> trace (awaitable_move q p s) = trace s
       \<and> (\<forall>r. r \<noteq> p \<longrightarrow> r \<noteq> q \<longrightarrow> awts (awaitable_move q p s) r = awts s r)"
proof -
  have "dispatched (moved_from st)" for st :: "'a aw_state"
    by (cases st) auto
  then have "awaitable_move q p s
      = set_state p No_value (set_state p (moved_from (state_of s p)) (construct q (state_of s p) s))"
    by (simp add: awaitable_move_def Let_def)
  with assms show ?thesis
    by (simp add: set_state_def construct_def)
qed

lemma move_carries_state_at_input:
  "state_of (awaitable_move 2 1 called_store) 2 = Coroutine (Some 9)
   \<and> frames (awaitable_move 2 1 called_store) = [(9, \<lparr>p_target = None\<rparr>)]"
  using move_carries_state [of 2 1 called_store]
  by (simp add: called_store_def coroutine_create_def start_store_def)

section \<open>State readers\<close>

text \<open>
  \<^verbatim>\<open>has_value\<close> and \<^verbatim>\<open>operator!\<close> answer the same whether the awaitable is
  resolved already or later: the frame that waits for it gives its answer exactly once (the
  owner of the answer is resumed once) and the answer is the one that the immediate path gives
  for the resolved awaitable; the two operators are opposites.
\<close>

lemma state_readers_agree:
  assumes "ready_state (state_of s src)" and "dispatched (state_of b q)"
  shows "read_state_do_resume True \<lparr>rf_src = src, rf_result = Some q\<rparr> s b
         = emit (handle_resume (owner_of b q)) (resolved q (has_value cb src s) b)
       \<and> read_state_do_resume False \<lparr>rf_src = src, rf_result = Some q\<rparr> s b
         = emit (handle_resume (owner_of b q)) (resolved q (not_value cb src s) b)
       \<and> has_value cb src s = Value (state_of s src \<noteq> No_value)
       \<and> not_value cb src s = Value (state_of s src = No_value)"
proof -
  have "result_call (Some q) (Inr a) b = (prepared_of (owner_of b q), None, resolved q (Value a) b)"
    for a using result_step_resolves [OF assms(2), of "R_call (Inr a)"] by simp
  with assms(1) show ?thesis
    by (simp add: read_state_do_resume_def has_value_def not_value_def await_ready_def
        result_dtor_def)
qed

definition answer_store :: "bool store" where
  "answer_store = \<lparr>awts = (\<lambda>_. \<lparr>a_state = No_value, a_owner = Coro 4\<rparr>), frames = [],
                   cur_exn = None, trace = []\<rparr>"

lemma state_readers_agree_at_input:
  "trace (read_state_do_resume False \<lparr>rf_src = 1, rf_result = Some 2\<rparr> start_store answer_store)
   = [Resume 4]
   \<and> state_of (read_state_do_resume False \<lparr>rf_src = 1, rf_result = Some 2\<rparr> start_store answer_store) 2
   = Value True"
  using state_readers_agree [of start_store 1 answer_store 2 0]
  by (simp add: start_store_def answer_store_def)

text \<open>
  The result of \<^verbatim>\<open>begin()\<close> on an awaitable that is resolved with no value is the address of
  the value, not \<^verbatim>\<open>end()\<close>: iterating from it reads a value that was never constructed.
  The asynchronous path of the same function answers \<^verbatim>\<open>end()\<close> for the same state.
\<close>

lemma begin_of_no_value:
  assumes "state_of s p = No_value" and "dispatched (state_of b q)"
  shows "begin_awt cb p s = Inr (Value 0)
       \<and> state_of (read_ptr_do_resume \<lparr>rf_src = p, rf_result = Some q\<rparr> s b) q = Value end_awt
       \<and> end_awt \<noteq> 0"
proof -
  have "result_call (Some q) (Inr a) b = (prepared_of (owner_of b q), None, resolved q (Value a) b)"
    for a using result_step_resolves [OF assms(2), of "R_call (Inr a)"] by simp
  with assms(1) show ?thesis
    by (simp add: begin_awt_def await_ready_def read_ptr_do_resume_def result_dtor_def end_awt_def)
qed

lemma begin_of_no_value_at_input:
  "begin_awt 0 1 start_store = Inr (Value 0)
   \<and> state_of (read_ptr_do_resume \<lparr>rf_src = 1, rf_result = Some 2\<rparr> start_store pending_store) 2
     = Value end_awt"
  using begin_of_no_value [of start_store 1 pending_store 2 0]
  by (simp add: start_store_def pending_store_def)

text \<open>
  A \<^verbatim>\<open>copy_value\<close> of a resolved awaitable is a copy of it exactly when there is a value
  or an exception, or the type has no default value: an awaitable that is resolved with no
  value is copied into one that holds a default value.
\<close>

lemma copy_value_exact:
  assumes "ready_state st"
  shows "copy_value dflt st = st \<longleftrightarrow> st \<noteq> No_value \<or> dflt = None"
  using assms by (cases st) (auto simp: copy_value_def awaitable_default_def split: option.split)

lemma copy_value_exact_at_input:
  "copy_value (Some 0) (No_value :: nat aw_state) \<noteq> No_value
   \<and> copy_value (Some 0) (Value 7) = Value (7::nat)"
  using copy_value_exact [of "No_value :: nat aw_state" "Some 0"]
    copy_value_exact [of "Value (7::nat)" "Some 0"]
  by simp

end
