(* ===== verification/Awaiters.thy ===== *)
theory Awaiters
  imports Await_Facts "HOL-Library.Multiset"
begin

text \<open>
  Coroutines that wait for awaitables whose results a component holds: what the component keeps
  in the store of awaitables, and the fact that every way of using a result ends one wait with
  one resumption of the coroutine.  The scheduler, the distributor and
  the mutex use it.
\<close>

section \<open>Results in flight\<close>

definition owned_by :: "nat \<Rightarrow> 'v store \<Rightarrow> awaitable_result \<Rightarrow> bool" where
  "owned_by f st r \<longleftrightarrow> (case r of None \<Rightarrow> False | Some p \<Rightarrow> owner_of st p = Coro f)"

text \<open>How many of the results \<open>F\<close> the coroutine \<open>f\<close> waits for.\<close>

definition pending_of :: "nat \<Rightarrow> awaitable_result multiset \<Rightarrow> 'v store \<Rightarrow> nat" where
  "pending_of f F st = size (filter_mset (owned_by f st) F)"

text \<open>A result of an awaitable that is in a state allowed by \<open>ok\<close> and belongs to a coroutine.\<close>

definition awaits :: "('v aw_state \<Rightarrow> bool) \<Rightarrow> 'v store \<Rightarrow> awaitable_result \<Rightarrow> bool" where
  "awaits ok st r \<longleftrightarrow>
     (case r of
        None \<Rightarrow> False
      | Some p \<Rightarrow> ok (state_of st p) \<and> (case owner_of st p of Coro f \<Rightarrow> True | _ \<Rightarrow> False))"

text \<open>
  The results in flight point at different awaitables, each awaited by a coroutine, no two by the
  same; a coroutine was resumed once for every entry of the log \<open>L\<close> of waits that is over.
\<close>

definition awaiters :: "('v aw_state \<Rightarrow> bool) \<Rightarrow> awaitable_result multiset \<Rightarrow> nat list \<Rightarrow> 'v store \<Rightarrow> bool" where
  "awaiters ok F L st \<longleftrightarrow>
     (\<forall>r. count F r \<le> 1) \<and> (\<forall>r \<in># F. awaits ok st r)
     \<and> (\<forall>f. pending_of f F st \<le> 1 \<and> count_list (trace st) (Resume f) + pending_of f F st = count_list L f)"

lemma awaitersI:
  assumes "\<And>r. count F r \<le> 1" and "\<And>r. r \<in># F \<Longrightarrow> awaits ok st r"
    and "\<And>f. pending_of f F st \<le> 1 \<and> count_list (trace st) (Resume f) + pending_of f F st = count_list L f"
  shows "awaiters ok F L st"
  using assms unfolding awaiters_def by blast

lemma awaitersD:
  assumes "awaiters ok F L st"
  shows "count F r \<le> 1" and "r \<in># F \<Longrightarrow> awaits ok st r"
    and "pending_of f F st \<le> 1" and "count_list (trace st) (Resume f) + pending_of f F st = count_list L f"
  using assms unfolding awaiters_def by blast+

lemma awaiters_distinct:
  assumes "awaiters ok (mset xs) L st"
  shows "distinct xs"
proof -
  have "distinct xs" if "\<And>r. count (mset xs) r \<le> 1"
    using that
  proof (induction xs)
    case (Cons x xs)
    have "count (mset xs) r \<le> 1" for r by (rule le_trans [OF _ Cons.prems [of r]]) simp
    with Cons.IH Cons.prems [of x] show ?case by simp
  qed simp
  then show ?thesis using awaitersD(1) [OF assms] by blast
qed

lemma awaiters_cong:
  assumes "\<And>p. Some p \<in># F \<Longrightarrow> awts st' p = awts st p"
  shows "pending_of f F st' = pending_of f F st" and "r \<in># F \<Longrightarrow> awaits ok st' r = awaits ok st r"
proof -
  show "pending_of f F st' = pending_of f F st"
    unfolding pending_of_def owned_by_def using assms
    by (intro arg_cong [where f = size] filter_mset_cong) (auto split: option.split)
  show "awaits ok st' r = awaits ok st r" if "r \<in># F"
    using that assms by (cases r) (simp_all add: awaits_def)
qed

lemma pending_of_add: "pending_of f (add_mset r F) st = of_bool (owned_by f st r) + pending_of f F st"
  by (simp add: pending_of_def)

lemma pending_of_empty [simp]: "pending_of f {#} st = 0"
  by (simp add: pending_of_def)

lemma resolved_awts: "q \<noteq> p \<Longrightarrow> awts (resolved p x st) q = awts st q"
  by (simp add: resolved_def set_owner_def set_state_def)

section \<open>Waits begin and end\<close>

locale awaiting =
  fixes ok :: "'v aw_state \<Rightarrow> bool"
  assumes ok_dispatched: "ok x \<Longrightarrow> dispatched x"
begin

lemma await_ends:
  assumes "awaiters ok (add_mset r F) L st"
  obtains p f where "r = Some p" and "dispatched (state_of st p)" and "owner_of st p = Coro f"
    and "\<And>x. awaiters ok F L (emit [Resume f] (resolved p x st))"
proof -
  note inv = awaitersD [OF assms]
  from inv(2) [of r] obtain p f where p: "r = Some p" "dispatched (state_of st p)" "owner_of st p = Coro f"
    by (auto simp: awaits_def ok_dispatched split: option.splits coro_handle.splits)
  have out: "Some p \<notin># F" using inv(1) [of r] p(1) by (simp add: not_in_iff)
  show ?thesis
  proof (rule that [OF p])
    fix x
    let ?t = "emit [Resume f] (resolved p x st)"
    have "awts ?t q = awts st q" if "Some q \<in># F" for q
      using that out by (cases "q = p") (simp_all add: resolved_awts)
    note same = awaiters_cong [OF this]
    have tr: "trace ?t = trace st @ [Resume f]" by (simp add: resolved_def)
    show "awaiters ok F L ?t"
    proof (rule awaitersI)
      show "count F q \<le> 1" for q using inv(1) [of q] by (simp split: if_splits)
      show "awaits ok ?t q" if "q \<in># F" for q using inv(2) [of q] that same(2) by simp
      show "pending_of g F ?t \<le> 1 \<and> count_list (trace ?t) (Resume g) + pending_of g F ?t = count_list L g" for g
        using inv(3,4) [of g] p by (auto simp: same(1) tr pending_of_add owned_by_def)
    qed
  qed
qed

lemma await_begins:
  assumes "awaiters ok F L st" and "Some p \<notin># F" and "pending_of f F st = 0" and "ok x"
  shows "awaiters ok (add_mset (Some p) F) (L @ [f]) (set_owner p (Coro f) (construct p x st))"
    (is "awaiters _ _ _ ?t")
proof -
  note inv = awaitersD [OF assms(1)]
  have "awts ?t q = awts st q" if "Some q \<in># F" for q
    using that assms(2) by (cases "q = p") (simp_all add: construct_def set_owner_def)
  note same = awaiters_cong [OF this]
  have own: "owner_of ?t p = Coro f" "state_of ?t p = x" "trace ?t = trace st"
    by (simp_all add: construct_def set_owner_def)
  show ?thesis
  proof (rule awaitersI)
    show "count (add_mset (Some p) F) r \<le> 1" for r
      using inv(1) [of r] assms(2) by (auto simp: not_in_iff)
    show "awaits ok ?t r" if "r \<in># add_mset (Some p) F" for r
      using that inv(2) [of r] same(2) own assms(4) by (auto simp: awaits_def)
    show "pending_of g (add_mset (Some p) F) ?t \<le> 1
        \<and> count_list (trace ?t) (Resume g) + pending_of g (add_mset (Some p) F) ?t = count_list (L @ [f]) g" for g
      using inv(3,4) [of g] assms(3) own by (auto simp: same(1) pending_of_add owned_by_def)
  qed
qed

text \<open>Whatever is done with a result in flight, the wait is over and the owner is resumed.\<close>

lemma result_step_ends:
  assumes "awaiters ok (add_mset r F) L st" and "result_step r x st = (pc, r', st')"
  shows "r' = None" and "awaiters ok F L (emit (prepared_dtor pc) st')"
    and "awaiters ok F L (emit (handle_resume (fst (symmetric_transfer pc))) st')"
proof -
  obtain p f where p: "r = Some p" "dispatched (state_of st p)" "owner_of st p = Coro f"
    and fin: "\<And>x. awaiters ok F L (emit [Resume f] (resolved p x st))"
    using await_ends [OF assms(1)] by blast
  from assms(2) p have "pc = prepared_of (Coro f)" "r' = None" "st' = resolved p (op_state x) st"
    by (auto simp: result_step_resolves)
  with fin show "r' = None" and "awaiters ok F L (emit (prepared_dtor pc) st')"
    and "awaiters ok F L (emit (handle_resume (fst (symmetric_transfer pc))) st')"
    by (simp_all add: transfer_of)
qed

lemma dtor_ends:
  assumes "awaiters ok (add_mset r F) L st"
  shows "awaiters ok F L (result_dtor r st)"
proof -
  obtain p f where "r = Some p" "dispatched (state_of st p)" "owner_of st p = Coro f"
    and "\<And>x. awaiters ok F L (emit [Resume f] (resolved p x st))"
    using await_ends [OF assms] by blast
  then show ?thesis by (simp add: result_dtor_resolves)
qed

lemma life_ends:
  assumes "awaiters ok (add_mset r F) L st"
  shows "awaiters ok F L (result_life r xs st)"
proof (cases xs)
  case Nil
  with dtor_ends [OF assms] show ?thesis by simp
next
  case (Cons x ys)
  obtain pc r' st' where step: "result_step r x st = (pc, r', st')" by (cases "result_step r x st")
  from result_step_ends [OF assms step] Cons step show ?thesis by (simp add: result_life_used)
qed

end

text \<open>An awaitable whose operation has been started and has not set anything yet.\<close>

definition unresolved :: "'v aw_state \<Rightarrow> bool" where
  "unresolved x \<longleftrightarrow> dispatched x \<and> \<not> ready_state x"

lemma unresolved_callback [simp]: "unresolved (Callback cb)"
  by (simp add: unresolved_def)

interpretation unset: awaiting unresolved
  by unfold_locales (simp add: unresolved_def)

end
