(* ===== verification/Mutex_Await.thy ===== *)
theory Mutex_Await
  imports Mutex_Steps Awaiters
begin

text \<open>
  Coroutines that await the lock of a \<^verbatim>\<open>coro_mutex\<close> (\<^verbatim>\<open>coro_mutex.h\<close> over the awaitables of
  \<^verbatim>\<open>coroutine.h\<close>): the atomic accesses of all threads interleaved, together with the
  awaitables that the served requests resolve and the coroutines this resumes.
\<close>

section \<open>The system\<close>

text \<open>
  The slot of a request is in the temporary state of its awaitable, so it has the same address.
  \<open>locks\<close> logs the frame of every coroutine that was suspended on a lock.
\<close>

record lock_sys =
  mxs :: mutex_sys
  lst :: "bool store"
  locks :: "nat list"

text \<open>
  The closure of \<^verbatim>\<open>lock()\<close> up to the call of \<^verbatim>\<open>add_request\<close>, run by
  \<^verbatim>\<open>await_suspend\<close> of the awaitable at \<open>a\<close> for the coroutine \<open>h\<close>: the closure is
  destroyed for the temporary state, the slot is written and the result is released into it.
\<close>

definition lock_suspend :: "nat \<Rightarrow> awt_ptr \<Rightarrow> coro_handle \<Rightarrow> coro_mutex \<Rightarrow> bool store \<Rightarrow> coro_mutex \<times> bool store" where
  "lock_suspend cb a h m s =
     (let s1 = set_owner a h (construct a (Callback cb) s);
          (space, s2) = get_temp_state (Some a) s1;
          (p, r) = result_release (Some a)
      in (m\<lparr>slots := (slots m)(the space := \<lparr>sl_next = Null_slot, sl_resume = the p\<rparr>)\<rparr>, s2))"

text \<open>The requests that are not served yet, and their results.\<close>

definition pending_locks :: "mutex_sys \<Rightarrow> nat set" where
  "pending_locks u = {a. ph u a \<noteq> Idle}"

definition lock_results :: "mutex_sys \<Rightarrow> awaitable_result multiset" where
  "lock_results u = image_mset Some (mset_set (pending_locks u))"

text \<open>
  A thread's access that neither begins nor serves a request leaves the awaitables alone.  A
  thread that takes the mutex for its own request returns the prepared coroutine through
  \<^verbatim>\<open>await_suspend\<close>, which transfers control to it; the one that \<^verbatim>\<open>unlock\<close> returns is
  dropped by the caller.  The parameter \<open>calm\<close> is that of the mutex: with it the schedules are left
  out that take over the list of requests while a thread stands between its exchange and its test,
  which the code permits.
\<close>

inductive lock_step :: "bool \<Rightarrow> lock_sys \<Rightarrow> lock_sys \<Rightarrow> bool" for calm :: bool where
  lk_quiet:
    "mutex_step calm (mxs s) u \<Longrightarrow> pending_locks u = pending_locks (mxs s) \<Longrightarrow> lock_step calm s (s\<lparr>mxs := u\<rparr>)"
| lk_request:
    "ph (mxs s) a = Idle \<Longrightarrow> own (mxs s) a = No_owner \<Longrightarrow> pending_of f (lock_results (mxs s)) (lst s) = 0 \<Longrightarrow>
     lock_suspend cb a (Coro f) (shared (mxs s)) (lst s) = (m', st') \<Longrightarrow>
     lock_step calm s
       (s\<lparr>mxs := (mxs s)\<lparr>shared := m', ph := (ph (mxs s))(a := Pushing)\<rparr>, lst := st', locks := locks s @ [f]\<rparr>)"
| lk_take:
    "ph (mxs s) a = Taking \<Longrightarrow> calm \<longrightarrow> (\<forall>b. ph (mxs s) b \<noteq> Checking) \<Longrightarrow>
     take_requests (Slot a) (shared (mxs s)) = Some m' \<Longrightarrow>
     resume_slot a \<lparr>mx = m', st = lst s\<rparr> = (pc, w) \<Longrightarrow>
     lock_step calm s
       (s\<lparr>mxs := (mxs s)\<lparr>shared := mx w, ph := (ph (mxs s))(a := Idle), own := (own (mxs s))(a := Holding)\<rparr>,
          lst := emit (handle_resume (fst (symmetric_transfer pc))) (st w)\<rparr>)"
| lk_unlock_queue:
    "own (mxs s) a = Holding \<Longrightarrow> queue (shared (mxs s)) \<noteq> Null_slot \<Longrightarrow>
     pick_first (shared (mxs s)) = Some (b, m') \<Longrightarrow> resume_slot b \<lparr>mx = m', st = lst s\<rparr> = (pc, w) \<Longrightarrow>
     lock_step calm s (s\<lparr>mxs := hand_over a b (mx w) (mxs s), lst := emit (prepared_dtor pc) (st w)\<rparr>)"
| lk_unlock_take:
    "own (mxs s) a = Emptying \<Longrightarrow> calm \<longrightarrow> (\<forall>b. ph (mxs s) b \<noteq> Checking) \<Longrightarrow>
     take_requests Doorman (shared (mxs s)) = Some m1 \<Longrightarrow> pick_first m1 = Some (b, m') \<Longrightarrow>
     resume_slot b \<lparr>mx = m', st = lst s\<rparr> = (pc, w) \<Longrightarrow>
     lock_step calm s (s\<lparr>mxs := hand_over a b (mx w) (mxs s), lst := emit (prepared_dtor pc) (st w)\<rparr>)"

text \<open>
  The pointer of a slot is written before it is read, so what the memory of the awaitables held
  before does not matter; it is taken to be the right one.
\<close>

definition slots_own :: "coro_mutex \<Rightarrow> bool" where
  "slots_own m \<longleftrightarrow> (\<forall>a. sl_resume (slots m a) = a)"

definition lock_init :: "lock_sys \<Rightarrow> bool" where
  "lock_init s \<longleftrightarrow> mutex_init (mxs s) \<and> slots_own (shared (mxs s)) \<and> locks s = [] \<and> trace (lst s) = []"

section \<open>The mutex underneath\<close>

lemma slots_own_simps [simp]:
  "slots_own (m\<lparr>requests := x\<rparr>) = slots_own m" "slots_own (m\<lparr>queue := x\<rparr>) = slots_own m"
  "slots_own (set_next a x m) = slots_own m"
  by (simp_all add: slots_own_def)

lemma resume_slot_mutex: "resume_slot a w = (pc, w') \<Longrightarrow> mx w' = mx w"
  by (auto simp: resume_slot_def split: prod.splits)

lemma resume_slot_ends:
  assumes "resume_slot a \<lparr>mx = m, st = s\<rparr> = (pc, w)" and "slots_own m"
  shows "\<exists>r s'. result_step (Some a) (R_call (Inr True)) s = (pc, r, s') \<and> st w = result_dtor r s'"
proof -
  have "sl_resume (slots m a) = a" using assms(2) by (simp add: slots_own_def)
  with assms(1) show ?thesis by (auto simp: resume_slot_def split: prod.splits)
qed

lemma lock_suspend_eq:
  assumes "slots_own m"
  shows "lock_suspend cb a h m s = (set_next a Null_slot m, set_owner a h (construct a No_value s))"
proof -
  have "slots m a\<lparr>sl_next := Null_slot\<rparr> = \<lparr>sl_next = Null_slot, sl_resume = a\<rparr>"
    using assms by (cases "slots m a") (auto simp: slots_own_def dest: spec [of _ a])
  then show ?thesis
    by (simp add: lock_suspend_def get_temp_state_def result_release_def set_next_def construct_def set_owner_def
        set_state_def)
qed

lemma make_queue_slots:
  assumes "make_queue from to m = Some m'" and "slots_own m"
  shows "slots_own m'"
proof -
  have "slots_own m \<longrightarrow> slots_own m'"
    by (rule make_queue.raw_induct [OF _ assms(1), where P = "\<lambda>_ _ m m'. slots_own m \<longrightarrow> slots_own m'"])
      (auto split: if_splits slot_ptr.splits)
  with assms(2) show ?thesis by blast
qed

lemma mutex_step_slots:
  assumes "mutex_step calm u v" and "slots_own (shared u)"
  shows "slots_own (shared v)"
proof -
  have take: "take_requests to m = Some m' \<Longrightarrow> slots_own m \<Longrightarrow> slots_own m'" for to m m'
    using make_queue_slots [of "requests m" to "m\<lparr>requests := Doorman\<rparr>" m'] by (simp add: take_requests_def)
  have pick: "pick_first m = Some (f, m') \<Longrightarrow> slots_own m \<Longrightarrow> slots_own m'" for m f m'
    by (auto simp: pick_first_def split: slot_ptr.splits)
  show ?thesis
    using assms
    by cases (auto simp: hand_over_def cas_requests_def try_lock_def add_request_cas_def
        split: if_splits dest: take pick)
qed

lemma lock_step_mutex:
  assumes "lock_step calm s t" and "slots_own (shared (mxs s))"
  shows "mutex_step calm (mxs s) (mxs t)"
  using assms(1)
proof cases
  case (lk_request a f cb m' st')
  with lock_suspend_eq [OF assms(2)] have "m' = set_next a Null_slot (shared (mxs s))" by simp
  with lk_request show ?thesis by (auto intro: mutex_step.begin_request)
next
  case (lk_take a m' pc w)
  with resume_slot_mutex [OF lk_take(5)] show ?thesis by (auto intro: mutex_step.take)
next
  case (lk_unlock_queue a b m' pc w)
  with resume_slot_mutex [OF lk_unlock_queue(5)] show ?thesis by (auto intro: mutex_step.unlock_queue)
next
  case (lk_unlock_take a m1 b m' pc w)
  with resume_slot_mutex [OF lk_unlock_take(6)] show ?thesis by (auto intro: mutex_step.unlock_take)
qed simp

text \<open>The request that is served waits.\<close>

lemma picked_waits:
  assumes "mutex_inv u" and "own u a = Holding" and "pick_first (shared u) = Some (b, m')"
  shows "ph u b = Waiting"
proof -
  obtain xs ys where held: "held_shape u a xs ys" using owner_held assms(1,2) by (metis own_phase.distinct(1))
  from pick_first_held [OF held assms(3)] heldD(2) [OF held, of b] show ?thesis by (metis list.set_intros(1))
qed

lemma taken_waits:
  assumes "mutex_inv u" and "own u a = Emptying" and "\<forall>b. ph u b \<noteq> Checking"
    and "take_requests Doorman (shared u) = Some m1" and "pick_first m1 = Some (b, m')"
  shows "ph u b = Waiting"
proof -
  obtain xs ys where held: "held_shape u a xs ys" using owner_held assms(1,2) by (metis own_phase.distinct(3))
  then have "ys = []" using heldD(10) assms(2) by blast
  with held_empty_queue [of u a xs] held assms(3,4)
  have h: "held_shape (u\<lparr>shared := m1, own := (own u)(a := Holding)\<rparr>) a [] (rev xs)" by auto
  from picked_waits [OF mutex_invI(3) [OF h], of a b m'] assms(5) show ?thesis by simp
qed

section \<open>The invariant\<close>

text \<open>A pending awaitable holds the slot in its temporary state, so it has no value.\<close>

interpretation locking: awaiting "(=) No_value"
  by unfold_locales auto

definition lock_inv :: "lock_sys \<Rightarrow> bool" where
  "lock_inv s \<longleftrightarrow>
     mutex_inv (mxs s) \<and> slots_own (shared (mxs s)) \<and> finite (pending_locks (mxs s))
     \<and> awaiters ((=) No_value) (lock_results (mxs s)) (locks s) (lst s)"

lemma lock_invD:
  assumes "lock_inv s"
  shows "mutex_inv (mxs s)" and "slots_own (shared (mxs s))" and "finite (pending_locks (mxs s))"
    and "awaiters ((=) No_value) (lock_results (mxs s)) (locks s) (lst s)"
  using assms by (simp_all add: lock_inv_def)

lemma served_results:
  assumes "finite (pending_locks u)" and "ph u a \<noteq> Idle" and "ph v = (ph u)(a := Idle)"
  shows "lock_results u = add_mset (Some a) (lock_results v)" and "finite (pending_locks v)"
proof -
  have "pending_locks v = pending_locks u - {a}" "a \<in> pending_locks u"
    using assms(2,3) by (auto simp: pending_locks_def)
  with assms(1) show "lock_results u = add_mset (Some a) (lock_results v)" and "finite (pending_locks v)"
    by (simp_all add: lock_results_def mset_set.remove [of _ a])
qed

text \<open>Serving a request ends the wait of its coroutine with a resumption.\<close>

lemma served_store:
  assumes "lock_inv s" and "ph (mxs s) b \<noteq> Idle" and "ph v = (ph (mxs s))(b := Idle)"
    and "slots_own m'" and "resume_slot b \<lparr>mx = m', st = lst s\<rparr> = (pc, w)"
  shows "awaiters ((=) No_value) (lock_results v) (locks s) (emit (prepared_dtor pc) (st w))"
    and "awaiters ((=) No_value) (lock_results v) (locks s) (emit (handle_resume (fst (symmetric_transfer pc))) (st w))"
    and "finite (pending_locks v)"
proof -
  note inv = lock_invD [OF assms(1)]
  note res = served_results [OF inv(3) assms(2,3)]
  obtain r s' where call: "result_step (Some b) (R_call (Inr True)) (lst s) = (pc, r, s')" "st w = result_dtor r s'"
    using resume_slot_ends [OF assms(5,4)] by blast
  note ends = locking.result_step_ends [OF inv(4) [unfolded res(1)] call(1)]
  from ends call(2) show "awaiters ((=) No_value) (lock_results v) (locks s) (emit (prepared_dtor pc) (st w))"
    and "awaiters ((=) No_value) (lock_results v) (locks s) (emit (handle_resume (fst (symmetric_transfer pc))) (st w))"
    by (simp_all add: result_dtor_def)
  show "finite (pending_locks v)" by (rule res(2))
qed

lemma lock_step_inv:
  assumes "lock_inv s" and "lock_step True s t"
  shows "lock_inv t"
proof -
  note inv = lock_invD [OF assms(1)]
  note step = lock_step_mutex [OF assms(2) inv(2)]
  have mutex: "mutex_inv (mxs t)" "slots_own (shared (mxs t))"
    using mutex_step_inv [OF step inv(1)] mutex_step_slots [OF step inv(2)] by simp_all
  have "finite (pending_locks (mxs t)) \<and> awaiters ((=) No_value) (lock_results (mxs t)) (locks t) (lst t)"
    using assms(2)
  proof cases
    case (lk_quiet u)
    with inv show ?thesis by (simp add: lock_results_def)
  next
    case (lk_request a f cb m' st')
    have P: "pending_locks (mxs t) = insert a (pending_locks (mxs s))" "a \<notin> pending_locks (mxs s)"
      using lk_request by (auto simp: pending_locks_def)
    have "st' = set_owner a (Coro f) (construct a No_value (lst s))"
      using lk_request(5) lock_suspend_eq [OF inv(2)] by simp
    with locking.await_begins [OF inv(4), of a f No_value] lk_request P inv(3) show ?thesis
      by (auto simp: lock_results_def)
  next
    case (lk_take a m' pc w)
    have "slots_own m'" using mutex(2) lk_take(1) resume_slot_mutex [OF lk_take(5)] by simp
    from served_store [OF assms(1) _ _ this lk_take(5), of "mxs t"] lk_take show ?thesis by simp
  next
    case (lk_unlock_queue a b m' pc w)
    have wait: "ph (mxs s) b = Waiting" by (rule picked_waits [OF inv(1) lk_unlock_queue(2,4)])
    have "slots_own m'" using mutex(2) lk_unlock_queue(1) resume_slot_mutex [OF lk_unlock_queue(5)]
      by (simp add: hand_over_def)
    from served_store [OF assms(1) _ _ this lk_unlock_queue(5), of "mxs t"] lk_unlock_queue(1) wait show ?thesis
      by (simp add: hand_over_def)
  next
    case (lk_unlock_take a m1 b m' pc w)
    have wait: "ph (mxs s) b = Waiting" by (rule taken_waits [OF inv(1) lk_unlock_take(2) _ lk_unlock_take(4,5)]) (use lk_unlock_take(3) in simp)
    have "slots_own m'" using mutex(2) lk_unlock_take(1) resume_slot_mutex [OF lk_unlock_take(6)]
      by (simp add: hand_over_def)
    from served_store [OF assms(1) _ _ this lk_unlock_take(6), of "mxs t"] lk_unlock_take(1) wait show ?thesis
      by (simp add: hand_over_def)
  qed
  with mutex show ?thesis by (simp add: lock_inv_def)
qed

interpretation calm_locks: step_invariant lock_init "lock_step True" lock_inv
proof
  show "lock_init s \<Longrightarrow> lock_inv s" for s
    using calm_mutex.init_inv [of "mxs s"]
    by (simp add: lock_init_def lock_inv_def mutex_init_def pending_locks_def lock_results_def awaiters_def)
qed (rule lock_step_inv)

section \<open>Every wait ends in one resumption, with the lock\<close>

text \<open>What serving a request does to the awaitables.\<close>

lemma served_exact:
  assumes "lock_inv s" and "ph (mxs s) b \<noteq> Idle" and "slots_own m'"
    and "resume_slot b \<lparr>mx = m', st = lst s\<rparr> = (pc, w)"
  obtains f where "owner_of (lst s) b = Coro f" and "pc = prepared_of (Coro f)"
    and "st w = resolved b (Value True) (lst s)"
proof -
  note inv = lock_invD [OF assms(1)]
  have "Some b \<in># lock_results (mxs s)" using assms(2) inv(3) by (simp add: lock_results_def pending_locks_def)
  from awaitersD(2) [OF inv(4) this] obtain f where f: "owner_of (lst s) b = Coro f" "state_of (lst s) b = No_value"
    by (auto simp: awaits_def split: coro_handle.splits)
  obtain r s' where "result_step (Some b) (R_call (Inr True)) (lst s) = (pc, r, s')" "st w = result_dtor r s'"
    using resume_slot_ends [OF assms(4,3)] by blast
  with f that show ?thesis by (auto simp: result_step_resolves result_dtor_def simp del: result_step.simps)
qed

text \<open>A step serves nobody, or one request, whose coroutine it resumes.\<close>

lemma lock_step_serves:
  assumes "lock_inv s" and "lock_step True s t"
  obtains (nobody) "trace (lst t) = trace (lst s)" "locks t = locks s \<longrightarrow> pending_locks (mxs t) = pending_locks (mxs s)"
      "\<And>b. b \<in> pending_locks (mxs s) \<Longrightarrow> awts (lst t) b = awts (lst s) b"
  | (one) b f where "b \<in> pending_locks (mxs s)" "owner_of (lst s) b = Coro f"
      "lst t = emit [Resume f] (resolved b (Value True) (lst s))" "own (mxs t) b = Holding"
      "pending_locks (mxs t) = pending_locks (mxs s) - {b}" "locks t = locks s"
proof -
  note inv = lock_invD [OF assms(1)]
  have slots: "slots_own (shared (mxs t))"
    using mutex_step_slots [OF lock_step_mutex [OF assms(2) inv(2)] inv(2)] .
  show ?thesis
    using assms(2)
  proof cases
    case (lk_quiet u)
    then show ?thesis by (intro nobody) simp_all
  next
    case (lk_request a f cb m' st')
    with lock_suspend_eq [OF inv(2)] have "st' = set_owner a (Coro f) (construct a No_value (lst s))" by simp
    with lk_request(1,2) show ?thesis
      by (intro nobody) (auto simp: pending_locks_def construct_def set_owner_def)
  next
    case (lk_take a m' pc w)
    have "slots_own m'" using slots lk_take(1) resume_slot_mutex [OF lk_take(5)] by simp
    with served_exact [OF assms(1) _ _ lk_take(5)] lk_take(2) obtain f
      where "owner_of (lst s) a = Coro f" "pc = prepared_of (Coro f)" "st w = resolved a (Value True) (lst s)" by auto
    with lk_take(1,2) show ?thesis by (intro one [of a f]) (auto simp: pending_locks_def transfer_of)
  next
    case (lk_unlock_queue a b m' pc w)
    have wait: "ph (mxs s) b = Waiting" by (rule picked_waits [OF inv(1) lk_unlock_queue(2,4)])
    have "slots_own m'" using slots lk_unlock_queue(1) resume_slot_mutex [OF lk_unlock_queue(5)]
      by (simp add: hand_over_def)
    with served_exact [OF assms(1) _ _ lk_unlock_queue(5)] wait obtain f
      where "owner_of (lst s) b = Coro f" "pc = prepared_of (Coro f)" "st w = resolved b (Value True) (lst s)" by auto
    with lk_unlock_queue(1) wait show ?thesis by (intro one [of b f]) (auto simp: pending_locks_def hand_over_def)
  next
    case (lk_unlock_take a m1 b m' pc w)
    have wait: "ph (mxs s) b = Waiting"
      by (rule taken_waits [OF inv(1) lk_unlock_take(2) _ lk_unlock_take(4,5)]) (use lk_unlock_take(3) in simp)
    have "slots_own m'" using slots lk_unlock_take(1) resume_slot_mutex [OF lk_unlock_take(6)]
      by (simp add: hand_over_def)
    with served_exact [OF assms(1) _ _ lk_unlock_take(6)] wait obtain f
      where "owner_of (lst s) b = Coro f" "pc = prepared_of (Coro f)" "st w = resolved b (Value True) (lst s)" by auto
    with lk_unlock_take(1) wait show ?thesis by (intro one [of b f]) (auto simp: pending_locks_def hand_over_def)
  qed
qed

text \<open>
  C3: in the calm schedules (no list of requests is taken over while a thread stands between its
  exchange and its test) a coroutine that awaits the lock is resumed exactly once for each time it
  was suspended, and with the lock.  In every state of such a run the number of its resumptions and of its requests
  that are not served add up to the number of its suspensions, and at most one is not served; a
  step that resumes it makes it the only owner of the mutex, and its \<^verbatim>\<open>await_resume\<close> gives
  the ownership.  The code permits other schedules, in which \<open>late_test_breaks_mutex\<close> gives the mutex
  two owners.
\<close>

theorem lock_awaiters_resumed_once:
  assumes "reachable lock_init (lock_step True) s"
  shows "count_list (trace (lst s)) (Resume f) + pending_of f (lock_results (mxs s)) (lst s) = count_list (locks s) f
       \<and> pending_of f (lock_results (mxs s)) (lst s) \<le> 1
       \<and> (lock_step True s t \<and> count_list (trace (lst t)) (Resume f) \<noteq> count_list (trace (lst s)) (Resume f) \<longrightarrow>
            (\<exists>b. owner_of (lst s) b = Coro f \<and> await_resume b (lst t) = Inr True
               \<and> own (mxs t) b = Holding \<and> (\<forall>c. own (mxs t) c \<noteq> No_owner \<longrightarrow> c = b)))"
proof -
  have inv: "lock_inv s" by (rule calm_locks.reachable_inv [OF assms])
  note count = awaitersD(3,4) [OF lock_invD(4) [OF inv]]
  have "\<exists>b. owner_of (lst s) b = Coro f \<and> await_resume b (lst t) = Inr True
      \<and> own (mxs t) b = Holding \<and> (\<forall>c. own (mxs t) c \<noteq> No_owner \<longrightarrow> c = b)"
    if step: "lock_step True s t" and new: "count_list (trace (lst t)) (Resume f) \<noteq> count_list (trace (lst s)) (Resume f)"
  proof (cases rule: lock_step_serves [OF inv step])
    case (2 b g)
    note one = this
    have "mutex_inv (mxs t)" using lock_invD(1) [OF lock_step_inv [OF inv step]] .
    then obtain xs ys where held: "held_shape (mxs t) b xs ys"
      using owner_held one(4) by (metis own_phase.distinct(1))
    from one(3) new have "g = f" by (auto split: if_splits)
    with one heldD(6) [OF held] show ?thesis by (auto simp: await_resume_eq intro!: exI [of _ b])
  qed (use new in simp)
  with count show ?thesis by blast
qed

section \<open>No coroutine waits in vain\<close>

text \<open>Every access of a thread to the mutex is a step of the system, in which some other coroutine
  may be the one that begins a request.\<close>

lemma lifted: "lock_step True s t \<Longrightarrow> mxs t = u \<Longrightarrow> Q t \<Longrightarrow> \<exists>t. lock_step True s t \<and> mxs t = u \<and> Q t"
  by blast

lemma mutex_step_lifts:
  assumes "lock_inv s" and "mutex_step True (mxs s) u"
  shows "\<exists>t. lock_step True s t \<and> mxs t = u
       \<and> (locks t = locks s
          \<or> (\<exists>g a. g \<notin> set (locks s) \<union> {f} \<and> locks t = locks s @ [g] \<and> pending_locks u = insert a (pending_locks (mxs s))
               \<and> lst t = set_owner a (Coro g) (construct a No_value (lst s))))"
proof -
  have quiet: ?thesis if "pending_locks u = pending_locks (mxs s)"
    by (rule lifted [OF lk_quiet [OF assms(2) that]]) simp_all
  show ?thesis
    using assms(2)
  proof cases
    case (begin_request a)
    note inv = lock_invD [OF assms(1)]
    obtain g where g: "g \<notin> set (locks s) \<union> {f}" using ex_new_if_finite [of "set (locks s) \<union> {f}"] by auto
    then have "pending_of g (lock_results (mxs s)) (lst s) = 0"
      using awaitersD(4) [OF inv(4), of g] by (simp add: count_list_0_iff)
    note step = lk_request [OF begin_request(2,3) this lock_suspend_eq [OF inv(2), of 0], where calm = True]
    have "pending_locks u = insert a (pending_locks (mxs s))" by (auto simp: begin_request(1) pending_locks_def)
    with g begin_request(1) show ?thesis by (intro lifted [OF step]) auto
  next
    case (take a m')
    obtain pc w where r: "resume_slot a \<lparr>mx = m', st = lst s\<rparr> = (pc, w)" by fastforce
    show ?thesis
      by (rule lifted [OF lk_take [OF take(2,3,4) r]]) (simp_all add: take(1) resume_slot_mutex [OF r])
  next
    case (unlock_queue a b m')
    obtain pc w where r: "resume_slot b \<lparr>mx = m', st = lst s\<rparr> = (pc, w)" by fastforce
    show ?thesis
      by (rule lifted [OF lk_unlock_queue [OF unlock_queue(2,3,4) r]])
        (simp_all add: unlock_queue(1) resume_slot_mutex [OF r])
  next
    case (unlock_take a m1 b m')
    obtain pc w where r: "resume_slot b \<lparr>mx = m', st = lst s\<rparr> = (pc, w)" by fastforce
    show ?thesis
      by (rule lifted [OF lk_unlock_take [OF unlock_take(2,3,4,5) r]])
        (simp_all add: unlock_take(1) resume_slot_mutex [OF r])
  qed (rule quiet, (auto simp: pending_locks_def split: if_splits)[1])+
qed

text \<open>The coroutine \<open>f\<close> waits at \<open>a\<close> or not at all.\<close>

definition waits_only :: "nat \<Rightarrow> nat \<Rightarrow> lock_sys \<Rightarrow> bool" where
  "waits_only f a s \<longleftrightarrow> (\<forall>b \<in> pending_locks (mxs s). owner_of (lst s) b = Coro f \<longrightarrow> b = a)"

lemma waits_only_here:
  assumes "lock_inv s" and "a \<in> pending_locks (mxs s)" and "owner_of (lst s) a = Coro f"
  shows "waits_only f a s" and "pending_of f (lock_results (mxs s)) (lst s) = 1"
proof -
  note inv = lock_invD [OF assms(1)]
  let ?F = "image_mset Some (mset_set (pending_locks (mxs s) - {a}))"
  have F: "lock_results (mxs s) = add_mset (Some a) ?F"
    using inv(3) assms(2) by (simp add: lock_results_def mset_set.remove [of _ a])
  with awaitersD(3) [OF inv(4), of f] assms(3) have none: "pending_of f ?F (lst s) = 0"
    by (simp add: pending_of_add owned_by_def)
  with F assms(3) show "pending_of f (lock_results (mxs s)) (lst s) = 1" by (simp add: pending_of_add owned_by_def)
  have "b = a" if "b \<in> pending_locks (mxs s)" "owner_of (lst s) b = Coro f" for b
  proof (rule ccontr)
    assume "b \<noteq> a"
    with that inv(3) have "Some b \<in># filter_mset (owned_by f (lst s)) ?F" by (simp add: owned_by_def)
    with none show False by (auto simp: pending_of_def)
  qed
  then show "waits_only f a s" by (simp add: waits_only_def)
qed

lemma mutex_run_lifts:
  assumes "mutex_run (mxs s) u" and "lock_inv s" and "waits_only f a s"
  shows "\<exists>t. (lock_step True)\<^sup>*\<^sup>* s t \<and> mxs t = u \<and> lock_inv t \<and> waits_only f a t
       \<and> count_list (locks t) f = count_list (locks s) f"
  using assms
proof (induction rule: rtranclp_induct)
  case (step u v)
  then obtain t where t: "(lock_step True)\<^sup>*\<^sup>* s t" "mxs t = u" "lock_inv t" "waits_only f a t"
    "count_list (locks t) f = count_list (locks s) f" by blast
  from mutex_step_lifts [OF t(3), of v f] step(2) t(2) obtain w
    where w: "lock_step True t w" "mxs w = v"
      and how: "locks w = locks t \<or> (\<exists>g b. g \<notin> set (locks t) \<union> {f} \<and> locks w = locks t @ [g]
           \<and> pending_locks v = insert b (pending_locks (mxs t)) \<and> lst w = set_owner b (Coro g) (construct b No_value (lst t)))" by blast
  have "waits_only f a w \<and> count_list (locks w) f = count_list (locks t) f"
  proof (cases rule: lock_step_serves [OF t(3) w(1)])
    case 1
    from how show ?thesis
    proof
      assume "locks w = locks t"
      with 1 t(4) show ?thesis by (simp add: waits_only_def)
    next
      assume "\<exists>g b. g \<notin> set (locks t) \<union> {f} \<and> locks w = locks t @ [g]
           \<and> pending_locks v = insert b (pending_locks (mxs t)) \<and> lst w = set_owner b (Coro g) (construct b No_value (lst t))"
      with t(4) w(2) show ?thesis by (auto simp: waits_only_def construct_def split: if_splits)
    qed
  next
    case (2 b g)
    with t(4) show ?thesis by (auto simp: waits_only_def split: if_splits)
  qed
  with t w lock_step_inv [OF t(3) w(1)] show ?case by (metis rtranclp.rtrancl_into_rtrancl)
qed blast

text \<open>
  C5: in the calm schedules no coroutine waits for the lock in vain.  From every state of a run in
  which no list of requests was taken over while a thread stood between its exchange and its test,
  and in which a request waits, the threads inside the mutex can bring its coroutine to be resumed,
  once more than before, as the owner; and they can do so within such schedules.  Nothing is said of
  the other schedules, in which the mutex may be broken (\<open>late_test_breaks_mutex\<close>).
\<close>

theorem lock_awaiters_can_resume:
  assumes "reachable lock_init (lock_step True) s" and "ph (mxs s) a = Waiting" and "owner_of (lst s) a = Coro f"
  shows "\<exists>t. (lock_step True)\<^sup>*\<^sup>* s t \<and> own (mxs t) a = Holding
       \<and> count_list (trace (lst t)) (Resume f) = Suc (count_list (trace (lst s)) (Resume f))"
proof -
  have inv: "lock_inv s" by (rule calm_locks.reachable_inv [OF assms(1)])
  have a: "a \<in> pending_locks (mxs s)" using assms(2) by (simp add: pending_locks_def)
  note here = waits_only_here [OF inv a assms(3)]
  obtain u where u: "mutex_run (mxs s) u" "own u a = Holding"
    using waiting_served [OF lock_invD(1) [OF inv] assms(2)] by blast
  obtain t where t: "(lock_step True)\<^sup>*\<^sup>* s t" "mxs t = u" "lock_inv t" "waits_only f a t"
    "count_list (locks t) f = count_list (locks s) f" using mutex_run_lifts [OF u(1) inv here(1)] by blast
  obtain xs ys where "held_shape (mxs t) a xs ys"
    using owner_held lock_invD(1) [OF t(3)] u(2) t(2) by (metis own_phase.distinct(1))
  then have "a \<notin> pending_locks (mxs t)" using heldD(4) by (auto simp: pending_locks_def)
  with t(4) lock_invD(3) [OF t(3)] have "filter_mset (owned_by f (lst t)) (lock_results (mxs t)) = {#}"
    by (auto simp: waits_only_def lock_results_def owned_by_def)
  then have "pending_of f (lock_results (mxs t)) (lst t) = 0" by (simp add: pending_of_def)
  with awaitersD(4) [OF lock_invD(4) [OF inv], of f] awaitersD(4) [OF lock_invD(4) [OF t(3)], of f] here(2) t(5)
  have "count_list (trace (lst t)) (Resume f) = Suc (count_list (trace (lst s)) (Resume f))" by simp
  with t(1,2) u(2) show ?thesis by blast
qed

section \<open>At an input\<close>

text \<open>Thread 0 holds the mutex; the coroutine 7 has requested it with the slot 1 and waits.\<close>

definition lock_store :: "bool store" where
  "lock_store = \<lparr>awts = (\<lambda>_. \<lparr>a_state = No_value, a_owner = Null_handle\<rparr>), frames = [], cur_exn = None, trace = []\<rparr>"

definition slots_mutex :: coro_mutex where
  "slots_mutex = new_mutex\<lparr>slots := (\<lambda>a. \<lparr>sl_next = Null_slot, sl_resume = a\<rparr>)\<rparr>"

definition held_by_0 :: "coro_mutex \<Rightarrow> req_phase \<Rightarrow> mutex_sys" where
  "held_by_0 m x = \<lparr>shared = m, ph = (\<lambda>_. Idle)(1 := x), own = (\<lambda>_. No_owner)(0 := Holding)\<rparr>"

definition waiting_lock :: lock_sys where
  "waiting_lock =
     \<lparr>mxs = held_by_0 ((set_next 1 Doorman slots_mutex)\<lparr>requests := Slot 1\<rparr>) Waiting,
      lst = set_owner 1 (Coro 7) (construct 1 No_value lock_store), locks = [7]\<rparr>"

lemmas lock_state_defs = held_by_0_def slots_mutex_def new_mutex_def lock_store_def

lemma waiting_lock_reachable: "reachable lock_init (lock_step True) waiting_lock"
proof -
  let ?m = "slots_mutex\<lparr>requests := Doorman\<rparr>"
  let ?s0 = "\<lparr>mxs = \<lparr>shared = slots_mutex, ph = (\<lambda>_. Idle), own = (\<lambda>_. No_owner)\<rparr>, lst = lock_store, locks = []\<rparr>"
  let ?s1 = "?s0\<lparr>mxs := held_by_0 ?m Idle\<rparr>"
  let ?s2 = "?s1\<lparr>mxs := held_by_0 ?m Pushing, lst := lst waiting_lock, locks := [7]\<rparr>"
  let ?s3 = "?s2\<lparr>mxs := held_by_0 (set_next 1 Doorman ?m) Pushing\<rparr>"
  let ?s4 = "?s2\<lparr>mxs := held_by_0 ((set_next 1 Doorman ?m)\<lparr>requests := Slot 1\<rparr>) Checking\<rparr>"
  have own: "slots_own ?m" by (simp add: slots_own_def slots_mutex_def)
  have same: "set_next 1 Null_slot ?m = ?m"
    by (simp add: set_next_def slots_mutex_def fun_upd_idem)
  have "lock_init ?s0" by (simp add: lock_init_def mutex_init_def slots_own_def lock_state_defs)
  then have 0: "reachable lock_init (lock_step True) ?s0" by (rule reachable.start)
  have "mutex_step True (mxs ?s0) (mxs ?s1)"
    using attempt_ok [of "mxs ?s0" 0 ?m] by (simp add: lock_state_defs try_lock_def cas_requests_def fun_upd_idem)
  from lk_quiet [OF this] have "lock_step True ?s0 ?s1" by (simp add: pending_locks_def held_by_0_def)
  note 1 = reachable.next_step [OF 0 this]
  have "lock_step True ?s1 ?s2"
    using lk_request [of ?s1 1 7, OF _ _ _ lock_suspend_eq [of _ 0], where calm = True] own same
    by (simp add: lock_results_def pending_locks_def held_by_0_def waiting_lock_def fun_upd_idem)
  note 2 = reachable.next_step [OF 1 this]
  have "mutex_step True (mxs ?s2) (mxs ?s3)"
    using push_fail [of "mxs ?s2" 1 "set_next 1 Doorman ?m"]
    by (simp add: lock_state_defs add_request_cas_def cas_requests_def)
  from lk_quiet [OF this] have "lock_step True ?s2 ?s3" by (simp add: pending_locks_def held_by_0_def)
  note 3 = reachable.next_step [OF 2 this]
  have "mutex_step True (mxs ?s3) (mxs ?s4)"
    using push_ok [of "mxs ?s3" 1] by (simp add: lock_state_defs add_request_cas_def cas_requests_def)
  from lk_quiet [OF this] have "lock_step True ?s3 ?s4" by (auto simp: pending_locks_def held_by_0_def)
  note 4 = reachable.next_step [OF 3 this]
  have "mutex_step True (mxs ?s4) (mxs waiting_lock)"
    using check_next [of "mxs ?s4" 1] by (simp add: waiting_lock_def held_by_0_def)
  from lk_quiet [OF this] have "lock_step True ?s4 waiting_lock"
    by (auto simp: pending_locks_def held_by_0_def waiting_lock_def)
  then show ?thesis by (rule reachable.next_step [OF 4])
qed

theorem lock_awaiters_resumed_once_witness:
  "count_list (trace (lst waiting_lock)) (Resume 7)
     + pending_of 7 (lock_results (mxs waiting_lock)) (lst waiting_lock) = 1"
  using lock_awaiters_resumed_once [OF waiting_lock_reachable, of 7] by (simp add: waiting_lock_def)

theorem lock_awaiters_can_resume_witness:
  "\<exists>t. (lock_step True)\<^sup>*\<^sup>* waiting_lock t \<and> own (mxs t) 1 = Holding \<and> count_list (trace (lst t)) (Resume 7) = 1"
  using lock_awaiters_can_resume [OF waiting_lock_reachable, of 1 7]
  by (simp add: waiting_lock_def held_by_0_def construct_def lock_store_def)

end
