(* ===== verification/Multi_Lock.thy ===== *)
theory Multi_Lock
  imports Mutex_Fifo
begin

text \<open>
  \<^verbatim>\<open>multi_lock\<close> of \<^verbatim>\<open>coro_mutex.h\<close>: locking several mutexes, with a retreat when one
  of them is taken.  The mutexes live at their addresses; the lock has pointers to them and
  an array of ownerships.  An ownership that is destructed or released unlocks its mutex; the
  requests that get a mutex in this way are logged.
\<close>

record multi_lock =
  ml_locking :: "nat option list"
  ml_owns :: "nat option list"
  ml_r :: awaitable_result
  ml_first :: nat

record lock_memory =
  mutexes :: "nat \<Rightarrow> coro_mutex"
  woken :: "(nat \<times> nat) list"

definition multi_lock_new :: "nat option list \<Rightarrow> multi_lock" where
  "multi_lock_new ls = \<lparr>ml_locking = ls, ml_owns = map (\<lambda>_. None) ls, ml_r = None, ml_first = 0\<rparr>"

text \<open>\<^verbatim>\<open>ownership::release\<close>, also its destructor, for an ownership of the mutex at \<open>k\<close>.\<close>

definition release_at :: "nat option \<Rightarrow> lock_memory \<Rightarrow> lock_memory option" where
  "release_at own w =
     (case own of
        None \<Rightarrow> Some w
      | Some k \<Rightarrow>
          (case ownership_release True (mutexes w k) of
             None \<Rightarrow> None
           | Some (f, _, m) \<Rightarrow>
               Some (w\<lparr>mutexes := (mutexes w)(k := m),
                       woken := woken w @ (case f of None \<Rightarrow> [] | Some s \<Rightarrow> [(k, s)])\<rparr>)))"

definition try_lock_at :: "nat \<Rightarrow> lock_memory \<Rightarrow> nat option \<times> lock_memory" where
  "try_lock_at k w =
     (let (ok, m) = try_lock (mutexes w k)
      in (if ok then Some k else None, w\<lparr>mutexes := (mutexes w)(k := m)\<rparr>))"

text \<open>The loop \<^verbatim>\<open>for (auto &x: owns) x.release()\<close>.\<close>

fun release_owns :: "nat option list \<Rightarrow> lock_memory \<Rightarrow> lock_memory option" where
  "release_owns [] w = Some w"
| "release_owns (x # xs) w = (case release_at x w of None \<Rightarrow> None | Some w1 \<Rightarrow> release_owns xs w1)"

text \<open>
  \<^verbatim>\<open>lock_others\<close> from the index \<open>i\<close>, with \<open>k\<close> iterations left.  The ownership \<^verbatim>\<open>o\<close> is
  a local variable of the body of the loop, so it is destructed at the end of each iteration.
\<close>

fun lock_others_loop :: "nat \<Rightarrow> nat \<Rightarrow> multi_lock \<Rightarrow> lock_memory \<Rightarrow> (nat \<times> multi_lock \<times> lock_memory) option" where
  "lock_others_loop 0 i ml w = Some (length (ml_locking ml), ml, w)"
| "lock_others_loop (Suc k) i ml w =
     (case ml_locking ml ! ((i + ml_first ml) mod length (ml_locking ml)) of
        None \<Rightarrow> lock_others_loop k (Suc i) ml w
      | Some a \<Rightarrow>
          let (own, w1) = try_lock_at a w in
          if own = None then
            map_option (\<lambda>w2. (i, ml\<lparr>ml_owns := map (\<lambda>_. None) (ml_owns ml)\<rparr>, w2)) (release_owns (ml_owns ml) w1)
          else
            (case release_at own w1 of
               None \<Rightarrow> None
             | Some w2 \<Rightarrow> lock_others_loop k (Suc i) ml w2))"

definition lock_others :: "multi_lock \<Rightarrow> lock_memory \<Rightarrow> (nat \<times> multi_lock \<times> lock_memory) option" where
  "lock_others ml w = lock_others_loop (length (ml_locking ml) - 1) 1 ml w"

text \<open>
  \<^verbatim>\<open>lock()\<close>: whether the returned awaitable is resolved already.  Otherwise its closure
  starts with \<^verbatim>\<open>lock_first\<close>.  The first pointer must not be null.
\<close>

definition multi_lock_lock :: "multi_lock \<Rightarrow> lock_memory \<Rightarrow> (bool \<times> multi_lock \<times> lock_memory) option" where
  "multi_lock_lock ml w =
     (case ml_locking ml ! 0 of
        None \<Rightarrow> None
      | Some a \<Rightarrow>
          let (own, w1) = try_lock_at a w in
          if own \<noteq> None then
            (case lock_others ml w1 of
               None \<Rightarrow> None
             | Some (x, ml1, w2) \<Rightarrow>
                 let success = (x = length (ml_locking ml));
                     ml2 = (if success then ml1 else ml1\<lparr>ml_first := x\<rparr>)
                 in map_option (\<lambda>w3. (success, ml2, w3)) (release_at own w2))
          else Some (False, ml, w1))"

text \<open>
  \<^verbatim>\<open>lock_first\<close> waits for the mutex at the index \<^verbatim>\<open>first\<close>, with the slot \<open>a\<close> in the
  temporary state of the member callback's awaitable: whether it has been locked at once, in
  which case the callback's own frame comes out to be resumed.  No result means a null pointer.
\<close>

definition lock_first :: "nat \<Rightarrow> multi_lock \<Rightarrow> lock_memory \<Rightarrow> (bool \<times> lock_memory) option" where
  "lock_first a ml w =
     (case ml_locking ml ! ml_first ml of
        None \<Rightarrow> None
      | Some k \<Rightarrow>
          let (own, w1) = try_lock_at k w in
          if own \<noteq> None then Some (True, w1)
          else
            let m = mutexes w1 k;
                m1 = m\<lparr>slots := (slots m)(a := \<lparr>sl_next = Null_slot, sl_resume = a\<rparr>)\<rparr>
            in map_option (\<lambda>(f, m2). (f \<noteq> None, w1\<lparr>mutexes := (mutexes w1)(k := m2)\<rparr>)) (add_request a m1))"

text \<open>The closure of \<^verbatim>\<open>lock()\<close>; a result that is not there ends it.\<close>

definition multi_lock_start ::
    "nat \<Rightarrow> awaitable_result \<Rightarrow> multi_lock \<Rightarrow> lock_memory \<Rightarrow> (bool \<times> multi_lock \<times> lock_memory) option" where
  "multi_lock_start a r ml w =
     (if r = None then Some (False, ml, w)
      else let ml1 = ml\<lparr>ml_r := r\<rparr>
           in map_option (\<lambda>(locked, w1). (locked, ml1, w1)) (lock_first a ml1 w))"

text \<open>
  \<^verbatim>\<open>lock_complete\<close>, called when the mutex at the index \<^verbatim>\<open>first\<close> has been locked: the
  prepared coroutine of the caller, or what came of \<^verbatim>\<open>lock_first\<close>: the callback is to be
  resumed again, or the lock waits.
\<close>

datatype lock_outcome = All_locked prepared_coro | First_locked | First_waits

definition lock_complete ::
    "nat \<Rightarrow> multi_lock \<Rightarrow> lock_memory \<Rightarrow> unit store \<Rightarrow> (lock_outcome \<times> multi_lock \<times> lock_memory \<times> unit store) option" where
  "lock_complete a ml w s =
     (case release_at (ml_owns ml ! ml_first ml) w of
        None \<Rightarrow> None
      | Some w1 \<Rightarrow>
          let ml1 = ml\<lparr>ml_owns := (ml_owns ml)[ml_first ml := ml_locking ml ! ml_first ml]\<rparr> in
          (case lock_others ml1 w1 of
             None \<Rightarrow> None
           | Some (x, ml2, w2) \<Rightarrow>
               if x \<noteq> length (ml_locking ml) then
                 let ml3 = ml2\<lparr>ml_first := x\<rparr>
                 in map_option (\<lambda>(locked, w3). (if locked then First_locked else First_waits, ml3, w3, s))
                      (lock_first a ml3 w2)
               else let (pc, r, s') = result_call (ml_r ml2) (Inr ()) s
                    in Some (All_locked pc, ml2\<lparr>ml_r := r\<rparr>, w2, s')))"

definition get_ownership :: "multi_lock \<Rightarrow> nat option list \<times> multi_lock" where
  "get_ownership ml = (ml_owns ml, ml\<lparr>ml_owns := map (\<lambda>_. None) (ml_owns ml)\<rparr>)"

section \<open>What lock leaves behind\<close>

lemma try_then_release:
  assumes "mutex_free (mutexes w a)"
  shows "\<exists>w1. try_lock_at a w = (Some a, w1) \<and> release_at (Some a) w1 = Some w
        \<and> (\<forall>b. b \<noteq> a \<longrightarrow> mutexes w1 b = mutexes w b) \<and> woken w1 = woken w"
proof -
  let ?m = "(mutexes w a)\<lparr>requests := Doorman\<rparr>"
  let ?w = "w\<lparr>mutexes := (mutexes w)(a := ?m)\<rparr>"
  have same: "(mutexes w a)\<lparr>requests := Null_slot\<rparr> = mutexes w a"
    using assms by (cases "mutexes w a") (simp add: mutex_free_def)
  have "try_lock_at a w = (Some a, ?w)"
    using assms by (simp add: try_lock_at_def try_lock_def cas_requests_def mutex_free_def)
  moreover have "release_at (Some a) ?w = Some w"
    using assms
    by (simp add: release_at_def ownership_release_def unlock_def cas_requests_def mutex_free_def same)
  ultimately show ?thesis by auto
qed

lemma lock_others_keeps:
  assumes "\<And>a. Some a \<in> set (ml_locking ml) \<Longrightarrow> a \<noteq> h \<Longrightarrow> mutex_free (mutexes w a)"
    and "\<And>j. i \<le> j \<Longrightarrow> j < i + k \<Longrightarrow> ml_locking ml ! ((j + ml_first ml) mod length (ml_locking ml)) \<noteq> Some h"
    and "ml_locking ml \<noteq> []"
  shows "lock_others_loop k i ml w = Some (length (ml_locking ml), ml, w)"
  using assms
proof (induction k arbitrary: i)
  case (Suc k)
  let ?l = "ml_locking ml ! ((i + ml_first ml) mod length (ml_locking ml))"
  have mem: "?l \<in> set (ml_locking ml)" using Suc.prems(3) by simp
  have rest: "lock_others_loop k (Suc i) ml w = Some (length (ml_locking ml), ml, w)"
    by (rule Suc.IH) (use Suc.prems in auto)
  show ?case
  proof (cases ?l)
    case (Some a)
    have "a \<noteq> h" using Suc.prems(2) [of i] Some by auto
    then have "mutex_free (mutexes w a)" using Suc.prems(1) [of a] mem Some by simp
    from try_then_release [OF this] obtain w1
      where "try_lock_at a w = (Some a, w1)" "release_at (Some a) w1 = Some w" by blast
    with Some rest show ?thesis by simp
  qed (use rest in simp)
qed simp

text \<open>
  C39: when all mutexes are free, \<^verbatim>\<open>multi_lock::lock\<close> reports that it has locked them, and
  every mutex is free again: each ownership it acquires is destructed at the end of the scope
  that acquires it, none is stored, and \<^verbatim>\<open>get_ownership\<close> hands out empty ownerships.
\<close>

theorem multi_lock_holds_nothing:
  assumes "ls = Some h # rest" and "Some h \<notin> set rest"
    and "\<And>a. Some a \<in> set ls \<Longrightarrow> mutex_free (mutexes w a)"
  shows "multi_lock_lock (multi_lock_new ls) w = Some (True, multi_lock_new ls, w)
       \<and> set (fst (get_ownership (multi_lock_new ls))) = {None}"
proof -
  let ?ml = "multi_lock_new ls"
  have "mutex_free (mutexes w h)" using assms(1,3) by simp
  from try_then_release [OF this] obtain w1
    where w1: "try_lock_at h w = (Some h, w1)" "release_at (Some h) w1 = Some w"
      and other: "\<And>b. b \<noteq> h \<Longrightarrow> mutexes w1 b = mutexes w b" by blast
  have "lock_others ?ml w1 = Some (length ls, ?ml, w1)"
    unfolding lock_others_def
  proof (subst lock_others_keeps [where h = h])
    fix j assume "1 \<le> j" "j < 1 + (length (ml_locking ?ml) - 1)"
    then have j: "j < length ls" "j - 1 < length rest" "ls ! j = rest ! (j - 1)"
      using assms(1) by (auto simp: multi_lock_new_def nth_Cons')
    then have "ls ! j \<noteq> Some h" using assms(2) nth_mem [of "j - 1" rest] by metis
    with j(1) show "ml_locking ?ml ! ((j + ml_first ?ml) mod length (ml_locking ?ml)) \<noteq> Some h"
      by (simp add: multi_lock_new_def)
  qed (use assms other in \<open>auto simp: multi_lock_new_def\<close>)
  then show ?thesis
    using w1 assms(1) by (auto simp: multi_lock_lock_def multi_lock_new_def get_ownership_def)
qed

theorem multi_lock_holds_nothing_witness:
  "multi_lock_lock (multi_lock_new [Some 0, Some 1]) \<lparr>mutexes = \<lambda>_. new_mutex, woken = []\<rparr>
     = Some (True, multi_lock_new [Some 0, Some 1], \<lparr>mutexes = \<lambda>_. new_mutex, woken = []\<rparr>)
   \<and> mutex_free new_mutex"
  using multi_lock_holds_nothing [of "[Some 0, Some 1]" 0 "[Some 1]" "\<lparr>mutexes = \<lambda>_. new_mutex, woken = []\<rparr>"]
  by (simp add: mutex_free_def new_mutex_def)

text \<open>
  The asynchronous path keeps one mutex: when the others are free, \<^verbatim>\<open>lock_complete\<close> resolves
  the caller and holds only the mutex that it waited for.
\<close>

lemma lock_complete_keeps_one:
  assumes "ml_locking ml ! ml_first ml = Some h" and "ml_first ml < length (ml_locking ml)"
    and "ml_owns ml ! ml_first ml = None"
    and "\<And>a. Some a \<in> set (ml_locking ml) \<Longrightarrow> a \<noteq> h \<Longrightarrow> mutex_free (mutexes w a)"
    and "\<And>j. 1 \<le> j \<Longrightarrow> j < length (ml_locking ml) \<Longrightarrow>
      ml_locking ml ! ((j + ml_first ml) mod length (ml_locking ml)) \<noteq> Some h"
  shows "\<exists>pc ml' s'. lock_complete a ml w s = Some (All_locked pc, ml', w, s')
       \<and> ml_owns ml' = (ml_owns ml)[ml_first ml := Some h]"
proof -
  let ?ml = "ml\<lparr>ml_owns := (ml_owns ml)[ml_first ml := Some h]\<rparr>"
  have "lock_others ?ml w = Some (length (ml_locking ml), ?ml, w)"
    unfolding lock_others_def
    by (subst lock_others_keeps [where h = h]) (use assms(2,4,5) in \<open>auto\<close>)
  then show ?thesis
    using assms(1,3) by (simp add: lock_complete_def release_at_def case_prod_beta)
qed

section \<open>What lock waits for\<close>

text \<open>
  \<^verbatim>\<open>lock_others\<close> returns the number of the iteration that failed, which is the index of the
  failed mutex only while \<^verbatim>\<open>first\<close> is 0.
\<close>

definition trio :: "nat \<Rightarrow> nat option list \<Rightarrow> multi_lock" where
  "trio f ls = \<lparr>ml_locking = ls, ml_owns = [None, None, None], ml_r = None, ml_first = f\<rparr>"

definition set_req :: "nat \<Rightarrow> slot_ptr \<Rightarrow> lock_memory \<Rightarrow> lock_memory" where
  "set_req k r w = w\<lparr>mutexes := (mutexes w)(k := (mutexes w k)\<lparr>requests := r\<rparr>)\<rparr>"

lemma set_req_simps [simp]:
  "mutexes (set_req k r w) j = (if j = k then (mutexes w k)\<lparr>requests := r\<rparr> else mutexes w j)"
  "set_req k r (set_req k q w) = set_req k r w"
  by (simp_all add: set_req_def)

lemma set_req_same: "requests (mutexes w k) = r \<Longrightarrow> set_req k r w = w"
  by (auto simp: set_req_def)

lemma set_req_commute: "j \<noteq> k \<Longrightarrow> set_req j q (set_req k r w) = set_req k r (set_req j q w)"
  by (simp add: set_req_def fun_upd_twist)

lemma try_lock_taken: "requests (mutexes w k) \<noteq> Null_slot \<Longrightarrow> try_lock_at k w = (None, w)"
  by (simp add: try_lock_at_def try_lock_def cas_requests_def)

lemma try_lock_free: "requests (mutexes w k) = Null_slot \<Longrightarrow> try_lock_at k w = (Some k, set_req k Doorman w)"
  by (simp add: try_lock_at_def try_lock_def cas_requests_def set_req_def)

lemma release_unwanted:
  "requests (mutexes w k) = Doorman \<Longrightarrow> queue (mutexes w k) = Null_slot \<Longrightarrow>
   release_at (Some k) w = Some (set_req k Null_slot w)"
  by (simp add: release_at_def ownership_release_def unlock_def cas_requests_def set_req_def)

lemmas lock_moves = try_lock_taken try_lock_free release_unwanted

text \<open>
  C40: a retreat waits for the wrong mutex.  Three mutexes; the first one is held by somebody
  else, the second one has just been granted to the lock, the third one is free.  The callback
  finds the first one taken, releases, and locks the third one instead of waiting; resumed for
  it, it finds the first one taken again, releases, and locks the second one: it is back in
  the state it started from, without ever having waited.  So it goes round for as long as the
  first mutex is held.
\<close>

theorem multi_lock_spins:
  assumes "distinct [k0, k1, k2]" and "requests (mutexes w k0) \<noteq> Null_slot"
    and "mutex_free (mutexes w k2)" and "requests (mutexes w k1) = Doorman" and "queue (mutexes w k1) = Null_slot"
  shows "\<exists>w'. lock_complete a (trio 1 [Some k0, Some k1, Some k2]) w s
           = Some (First_locked, trio 2 [Some k0, Some k1, Some k2], w', s)
         \<and> lock_complete a (trio 2 [Some k0, Some k1, Some k2]) w' s
           = Some (First_locked, trio 1 [Some k0, Some k1, Some k2], w, s)"
proof -
  let ?ls = "[Some k0, Some k1, Some k2]"
  let ?w = "set_req k1 Null_slot (set_req k2 Doorman w)"
  have free2: "requests (mutexes w k2) = Null_slot" "queue (mutexes w k2) = Null_slot"
    using assms(3) by (simp_all add: mutex_free_def)
  have none: "release_at None v = Some v" for v by (simp add: release_at_def)
  have "lock_complete a (trio 1 ?ls) w s = Some (First_locked, trio 2 ?ls, ?w, s)"
    using assms(1,2,4,5) free2
    by (simp add: lock_complete_def lock_others_def lock_first_def trio_def none lock_moves numeral_2_eq_2
        set_req_same set_req_commute)
  moreover have "lock_complete a (trio 2 ?ls) ?w s = Some (First_locked, trio 1 ?ls, w, s)"
    using assms(1,2,4,5) free2
    by (simp add: lock_complete_def lock_others_def lock_first_def trio_def none lock_moves numeral_2_eq_2
        set_req_same set_req_commute)
  ultimately show ?thesis by blast
qed

definition held_mutex :: coro_mutex where
  "held_mutex = new_mutex\<lparr>requests := Doorman\<rparr>"

definition two_held :: lock_memory where
  "two_held = \<lparr>mutexes = (\<lambda>_. new_mutex)(0 := held_mutex, 1 := held_mutex), woken = []\<rparr>"

theorem multi_lock_spins_witness:
  "\<forall>s. \<exists>w'. lock_complete 9 (trio 1 [Some 0, Some 1, Some 2]) two_held s
           = Some (First_locked, trio 2 [Some 0, Some 1, Some 2], w', s)"
  using multi_lock_spins [of 0 1 2 two_held 9]
  by (fastforce simp: two_held_def held_mutex_def mutex_free_def new_mutex_def)

text \<open>
  The code gets there by itself: \<^verbatim>\<open>lock()\<close> finds the second mutex taken, and waits for it;
  in the meantime the first one is locked by somebody else, then the second one is released.
\<close>

lemma lock_waits_for_second:
  assumes "mutexes w 0 = new_mutex" and "mutexes w 1 = held_mutex"
  shows "multi_lock_lock (multi_lock_new [Some 0, Some 1, Some 2]) w
         = Some (False, trio 1 [Some 0, Some 1, Some 2], w)
       \<and> (\<exists>w'. multi_lock_start a (Some p) (trio 1 [Some 0, Some 1, Some 2]) w
           = Some (False, (trio 1 [Some 0, Some 1, Some 2])\<lparr>ml_r := Some p\<rparr>, w')
           \<and> requests (mutexes w' 1) = Slot a)"
proof -
  have r: "requests (mutexes w 0) = Null_slot" "queue (mutexes w 0) = Null_slot" "requests (mutexes w 1) = Doorman"
    using assms(1,2) by (simp_all add: new_mutex_def held_mutex_def)
  have none: "release_at None v = Some v" for v by (simp add: release_at_def)
  have "multi_lock_lock (multi_lock_new [Some 0, Some 1, Some 2]) w = Some (False, trio 1 [Some 0, Some 1, Some 2], w)"
    using r by (simp add: multi_lock_lock_def multi_lock_new_def lock_others_def trio_def none lock_moves set_req_same)
  moreover have "add_request a ((mutexes w 1)\<lparr>slots := (slots (mutexes w 1))(a := \<lparr>sl_next = Null_slot, sl_resume = a\<rparr>)\<rparr>)
      = Some (None, (mutexes w 1)\<lparr>slots := (slots (mutexes w 1))(a := \<lparr>sl_next = Doorman, sl_resume = a\<rparr>), requests := Slot a\<rparr>)"
    using r(3)
    by (simp add: add_request_def add_request_loop.simps add_request_cas_def cas_requests_def set_next_def)
  ultimately show ?thesis
    using r by (simp add: multi_lock_start_def lock_first_def trio_def lock_moves Let_def)
qed

text \<open>With a null pointer in the last place, which the class allows, the retreat dereferences it.\<close>

lemma multi_lock_null_place:
  assumes "k0 \<noteq> k1" and "requests (mutexes w k0) \<noteq> Null_slot"
    and "requests (mutexes w k1) = Doorman" and "queue (mutexes w k1) = Null_slot"
  shows "lock_complete a (trio 1 [Some k0, Some k1, None]) w s = None"
proof -
  have none: "release_at None v = Some v" for v by (simp add: release_at_def)
  show ?thesis
    using assms
    by (simp add: lock_complete_def lock_others_def lock_first_def trio_def none lock_moves numeral_2_eq_2)
qed

end
