(* ===== verification/Closures.thy ===== *)
theory Closures
  imports Await_Facts
begin

text \<open>
  How an awaitable gets its operation (\<^verbatim>\<open>coroutine.h\<close>): the constructors of
  \<^verbatim>\<open>awaitable<T>\<close> from a value, an exception, a coroutine, a function object and a member
  function, and \<^verbatim>\<open>CallbackImpl::call\<close>, which calls the function object.  It gives a
  meaning to the parameter \<open>call\<close> of the operations on awaitables.
\<close>

section \<open>Constructors\<close>

text \<open>\<open>mk\<close> is the outcome of constructing the stored value from the arguments.\<close>

definition awaitable_of_args :: "exn + 'v \<Rightarrow> exn + 'v aw_state" where
  "awaitable_of_args mk = (case mk of Inl e \<Rightarrow> Inl e | Inr v \<Rightarrow> Inr (Value v))"

definition awaitable_of_exception :: "exn \<Rightarrow> 'v aw_state" where
  "awaitable_of_exception e = Exception e"

text \<open>The coroutine object is moved in; the second component is what is left of it.\<close>

definition awaitable_of_coroutine :: "nat option \<Rightarrow> 'v aw_state \<times> nat option" where
  "awaitable_of_coroutine c = (let (c', left) = coroutine_move c in (Coroutine c', left))"

definition coroutine_co_await :: "nat option \<Rightarrow> 'v aw_state \<times> nat option" where
  "coroutine_co_await c = awaitable_of_coroutine c"

section \<open>Function objects\<close>

text \<open>
  The body of a function object gets its own result object and gives back what it left there;
  the result is destructed when the call ends.  Whether the function returns something
  convertible to \<^verbatim>\<open>prepared_coro\<close> is known at compile time.
\<close>

datatype 'v closure =
    Returns_coro "awaitable_result \<Rightarrow> 'v store \<Rightarrow> prepared_coro \<times> awaitable_result \<times> 'v store"
  | Returns_void "awaitable_result \<Rightarrow> 'v store \<Rightarrow> awaitable_result \<times> 'v store"

fun callback_call :: "'v closure \<Rightarrow> awaitable_result \<Rightarrow> 'v store \<Rightarrow> prepared_coro \<times> 'v store" where
  "callback_call (Returns_coro fn) r s = (let (pc, r', s') = fn r s in (pc, result_dtor r' s'))"
| "callback_call (Returns_void fn) r s = (let (r', s') = fn r s in (prepared_empty, result_dtor r' s'))"

text \<open>
  The function object that calls a member function of an instance, whose returned value is
  dropped.
\<close>

definition member_closure ::
    "('o \<Rightarrow> awaitable_result \<Rightarrow> 'v store \<Rightarrow> prepared_coro \<times> awaitable_result \<times> 'v store) \<Rightarrow> 'o \<Rightarrow> 'v closure" where
  "member_closure fn inst =
     Returns_void (\<lambda>res s. let (pc, r', s1) = fn inst res s in (None, emit (prepared_dtor pc) (result_dtor r' s1)))"

section \<open>What a function object can do with its result\<close>

text \<open>
  Setters whose prepared coroutine is dropped, and at the end the result is let go, kept
  elsewhere, or set by the returned expression.
\<close>

datatype 'v closure_end = Lets_go | Keeps | Returns "'v result_op"

fun run_ops :: "awaitable_result \<Rightarrow> 'v result_op list \<Rightarrow> 'v store \<Rightarrow> awaitable_result \<times> 'v store" where
  "run_ops r [] s = (r, s)"
| "run_ops r (x # xs) s =
     (let (pc, r', s') = result_step r x s in run_ops r' xs (emit (prepared_dtor pc) s'))"

fun run_end ::
    "'v closure_end \<Rightarrow> awaitable_result \<Rightarrow> 'v store \<Rightarrow> prepared_coro \<times> awaitable_result \<times> 'v store" where
  "run_end Lets_go r s = (prepared_empty, r, s)"
| "run_end Keeps r s = (prepared_empty, snd (result_release r), s)"
| "run_end (Returns x) r s = result_step r x s"

definition closure_body ::
    "'v result_op list \<Rightarrow> 'v closure_end \<Rightarrow> awaitable_result \<Rightarrow> 'v store
     \<Rightarrow> prepared_coro \<times> awaitable_result \<times> 'v store" where
  "closure_body xs e r s = (let (r1, s1) = run_ops r xs s in run_end e r1 s1)"

definition closure_of :: "bool \<Rightarrow> 'v result_op list \<Rightarrow> 'v closure_end \<Rightarrow> 'v closure" where
  "closure_of returns_coro xs e =
     (if returns_coro then Returns_coro (closure_body xs e)
      else Returns_void (\<lambda>r s. let (pc, r', s') = closure_body xs e r s in (r', emit (prepared_dtor pc) s')))"

fun end_ops :: "'v closure_end \<Rightarrow> 'v result_op list" where
  "end_ops (Returns x) = [x]"
| "end_ops _ = []"

fun transfers :: "bool \<Rightarrow> 'v result_op list \<Rightarrow> 'v closure_end \<Rightarrow> bool" where
  "transfers returns_coro [] (Returns x) = returns_coro"
| "transfers _ _ _ = False"

lemma result_dtor_used [result_simps]: "result_dtor None s = s"
  by (simp add: result_dtor_def)

lemma run_ops_used [result_simps]: "run_ops None xs s = (None, s)"
  by (induction xs arbitrary: s) (simp_all add: result_step_used prepared_simps)

lemma run_end_used [result_simps]: "run_end e None s = (prepared_empty, None, s)"
  by (cases e) (simp_all add: result_step_used result_release_def)

lemma callback_call_detached: "callback_call (closure_of rc xs e) None s = (prepared_empty, s)"
  by (simp add: closure_of_def closure_body_def result_simps handle_simps)

lemma callback_call_keeps: "callback_call (closure_of rc [] Keeps) r s = (prepared_empty, s)"
  by (cases r) (simp_all add: closure_of_def closure_body_def result_release_def result_dtor_def prepared_simps)

lemma run_ops_resolves:
  assumes "dispatched (state_of s p)"
  shows "run_ops (Some p) (x # xs) s = (None, emit (handle_resume (owner_of s p)) (resolved p (op_state x) s))"
  using assms by (simp add: result_step_resolves run_ops_used)

text \<open>A function object that uses its result, or lets it go, resolves the awaitable.\<close>

lemma callback_call_resolves:
  assumes "dispatched (state_of s p)" and "xs \<noteq> [] \<or> e \<noteq> Keeps"
  shows "callback_call (closure_of rc xs e) (Some p) s =
     (let t = resolved p (life_state (cur_exn s) (xs @ end_ops e)) s in
      if transfers rc xs e then (prepared_of (owner_of s p), t)
      else (prepared_empty, emit (handle_resume (owner_of s p)) t))"
proof (cases xs)
  case (Cons x ys)
  with assms(1) show ?thesis
    by (simp add: closure_of_def closure_body_def run_ops_resolves life_state_def result_simps handle_simps
        del: run_ops.simps)
next
  case Nil
  with assms show ?thesis
    by (cases e)
       (simp_all add: closure_of_def closure_body_def life_state_def result_simps handle_simps)
qed

section \<open>Awaiting on a function object\<close>

lemma awaitable_of_callback_cases:
  "awaitable_of_callback cb sz mx = Callback cb \<or> awaitable_of_callback cb sz mx = Callback_ptr (Some cb)"
  by (simp add: awaitable_of_callback_def)

text \<open>
  C22: \<^verbatim>\<open>co_await\<close> on an awaitable made from a function object, stored locally or allocated,
  that uses its result before it returns: the awaiting coroutine is continued exactly once
  (control is transferred to it when the function returns the setter's prepared coroutine, and
  otherwise it is resumed inside the call), and \<^verbatim>\<open>await_resume\<close> gives what the first setter
  stored; a function that ends without having used or kept the result cancels.  An awaitable that
  is destroyed without being awaited calls the function with an empty result, which changes
  nothing.
\<close>

theorem co_await_closure:
  assumes "state_of s p = awaitable_of_callback cb sz mx" and "cls cb = closure_of rc xs e"
    and "xs \<noteq> [] \<or> e \<noteq> Keeps"
  shows "\<exists>t. await_suspend (\<lambda>c. callback_call (cls c)) p (Coro h) s
           = Inr (if transfers rc xs e then Coro h else Noop_coroutine, t)
         \<and> trace t = trace s @ (if transfers rc xs e then [] else [Resume h])
         \<and> await_resume p t = read_state (life_state (cur_exn s) (xs @ end_ops e))
         \<and> \<not> is_awaiting p t
         \<and> (\<not> is_awaiting p s \<longrightarrow> awaitable_dtor (\<lambda>c. callback_call (cls c)) p s = Inr s)"
proof -
  let ?s0 = "set_owner p (Coro h) s"
  have st: "state_of s p = Callback cb \<or> state_of s p = Callback_ptr (Some cb)"
    using assms(1) awaitable_of_callback_cases [of cb sz mx] by simp
  define s1 where "s1 = (if state_of s p = Callback cb then ?s0 else set_state p (Callback_ptr None) ?s0)"
  have "dispatched (state_of s1 p)" "owner_of s1 p = Coro h" "cur_exn s1 = cur_exn s" "trace s1 = trace s"
    using st by (auto simp: s1_def)
  note call = callback_call_resolves [OF this(1) assms(3), of rc, unfolded this(2,3)] and tr = this(4)
  define t where "t = snd (callback_call (cls cb) (Some p) s1)"
  have "await_suspend (\<lambda>c. callback_call (cls c)) p (Coro h) s
      = Inr (fst (symmetric_transfer (fst (callback_call (cls cb) (Some p) s1))), t)"
    using st
    by (auto simp: await_suspend_def s1_def t_def case_prod_beta Let_def)
  moreover have "awaitable_dtor (\<lambda>c. callback_call (cls c)) p s = Inr s" if "\<not> is_awaiting p s"
    using that assms(2) st
    by (auto simp: awaitable_dtor_def callback_call_detached discard_def prepared_simps)
  ultimately show ?thesis
    using call tr
    by (intro exI [of _ t])
       (simp add: assms(2) t_def Let_def await_resume_eq is_awaiting_def prepared_simps transfer_of)
qed

definition closure_store :: "nat store" where
  "closure_store =
     \<lparr>awts = (\<lambda>_. \<lparr>a_state = Callback_ptr (Some 0), a_owner = Null_handle\<rparr>), frames = [], cur_exn = None, trace = []\<rparr>"

theorem co_await_closure_witness:
  "\<exists>t. await_suspend (\<lambda>c. callback_call (closure_of True [] (Returns (R_call (Inr 42))))) 1 (Coro 5) closure_store
       = Inr (Coro 5, t) \<and> await_resume 1 t = Inr 42"
  using co_await_closure [of closure_store 1 0 100 32
      "\<lambda>_. closure_of True [] (Returns (R_call (Inr 42)))" True "[]" "Returns (R_call (Inr 42))" 5]
  by (auto simp: closure_store_def awaitable_of_callback_def life_state_def)

end
