(* ===== verification/Callbacks.thy ===== *)
theory Callbacks
  imports Await_Facts
begin

text \<open>
  Callbacks that wait for an awaitable (\<^verbatim>\<open>coroutine.h\<close>): \<^verbatim>\<open>awaiting_callback\<close>, an
  allocated frame with an awaitable of its own, \<^verbatim>\<open>awaitable::set_callback\<close> with its
  \<^verbatim>\<open>operator >>\<close>, and \<^verbatim>\<open>await_member_callback\<close>, a reusable frame that calls a member
  function.
\<close>

section \<open>awaiting\_callback\<close>

text \<open>
  The allocated objects by the address of their frame.  A function of the client is a name;
  \<open>invoke\<close> gives what calling it on an awaitable does: the store afterwards and the exception it
  ends with, if any.  \<open>calls\<close> logs the calls with the state each awaitable was in.
\<close>

record cb_object =
  co_awt :: awt_ptr
  co_fn :: nat

record 'v cb_world =
  cw_st :: "'v store"
  cw_objs :: "nat \<Rightarrow> cb_object option"
  cw_calls :: "(nat \<times> 'v aw_state) list"

type_synonym 'v client_functions = "nat \<Rightarrow> awt_ptr \<Rightarrow> 'v store \<Rightarrow> exn option \<times> 'v store"

definition call_function ::
    "'v client_functions \<Rightarrow> nat \<Rightarrow> awt_ptr \<Rightarrow> 'v cb_world \<Rightarrow> exn option \<times> 'v cb_world" where
  "call_function invoke fn p w =
     (let (e, s) = invoke fn p (cw_st w)
      in (e, w\<lparr>cw_st := s, cw_calls := cw_calls w @ [(fn, state_of (cw_st w) p)]\<rparr>))"

text \<open>
  \<^verbatim>\<open>create\<close>: a new object at \<open>a\<close> whose awaitable, at \<open>q\<close>, has no value and is awaited by
  the frame itself.
\<close>

definition callback_create ::
    "nat \<Rightarrow> awt_ptr \<Rightarrow> nat \<Rightarrow> 'v cb_world \<Rightarrow> cpp_error + (awaitable_result \<times> 'v cb_world)" where
  "callback_create a q fn w =
     (case create_result q (Coro a) (construct q No_value (cw_st w)) of
        Inl e \<Rightarrow> Inl e
      | Inr (r, s) \<Rightarrow> Inr (r, w\<lparr>cw_st := s, cw_objs := (cw_objs w)(a := Some \<lparr>co_awt = q, co_fn = fn\<rparr>)\<rparr>))"

text \<open>\<^verbatim>\<open>delete this\<close> destructs the awaitable member; the frame's \<^verbatim>\<open>destroy\<close> does the same.\<close>

definition callback_do_destroy ::
    "'v callbacks \<Rightarrow> nat \<Rightarrow> 'v cb_world \<Rightarrow> cpp_error + 'v cb_world" where
  "callback_do_destroy call a w =
     (case cw_objs w a of
        None \<Rightarrow> Inl Null_dereference
      | Some ob \<Rightarrow>
          (case awaitable_dtor call (co_awt ob) (cw_st w) of
             Inl e \<Rightarrow> Inl e
           | Inr s \<Rightarrow> Inr (w\<lparr>cw_st := s, cw_objs := (cw_objs w)(a := None)\<rparr>)))"

definition callback_do_resume ::
    "'v callbacks \<Rightarrow> 'v hook \<Rightarrow> 'v client_functions \<Rightarrow> nat \<Rightarrow> 'v cb_world \<Rightarrow> cpp_error + 'v cb_world" where
  "callback_do_resume call async_unhandled_exception invoke a w =
     (case cw_objs w a of
        None \<Rightarrow> Inl Null_dereference
      | Some ob \<Rightarrow>
          (case call_function invoke (co_fn ob) (co_awt ob) w of
             (None, w1) \<Rightarrow> callback_do_destroy call a w1
           | (Some e, w1) \<Rightarrow>
               (case async_unhandled_exception (cw_st w1) of
                  Inl err \<Rightarrow> Inl err
                | Inr s \<Rightarrow> callback_do_destroy call a (w1\<lparr>cw_st := s\<rparr>))))"

section \<open>set\_callback\<close>

text \<open>
  \<^verbatim>\<open>set_callback_internal\<close> on the awaitable at \<open>p\<close>: a resolved one calls the function at
  once; otherwise the operation is started with the result of a new callback object, and the
  awaitable itself is cancelled.
\<close>

definition set_callback ::
    "'v callbacks \<Rightarrow> 'v client_functions \<Rightarrow> nat \<Rightarrow> awt_ptr \<Rightarrow> nat \<Rightarrow> awt_ptr \<Rightarrow> 'v cb_world
     \<Rightarrow> cpp_error + (prepared_coro \<times> 'v cb_world)" where
  "set_callback call invoke a q fn p w =
     (if await_ready p (cw_st w) then
        (case call_function invoke fn p w of
           (None, w1) \<Rightarrow> Inr (prepared_empty, w1)
         | (Some e, w1) \<Rightarrow> Inl (Throw e))
      else
        (case callback_create a q fn w of
           Inl e \<Rightarrow> Inl e
         | Inr (res, w1) \<Rightarrow>
             let s1 = cw_st w1;
                 started =
                   (case state_of s1 p of
                      Callback cb \<Rightarrow> let (out, s2) = call cb res s1 in Inr (out, None, s2)
                    | Callback_ptr (Some cb) \<Rightarrow> let (out, s2) = call cb res s1 in Inr (out, None, s2)
                    | Callback_ptr None \<Rightarrow> Inl Null_dereference
                    | Coroutine c \<Rightarrow>
                        let (out, c', res', s2) = coroutine_start c res s1
                        in Inr (out, res', set_state p (Coroutine c') s2)
                    | _ \<Rightarrow> Inr (prepared_empty, res, s1))
             in (case started of
                   Inl e \<Rightarrow> Inl e
                 | Inr (out, res', s2) \<Rightarrow>
                     (case awaitable_cancel p s2 of
                        Inl e \<Rightarrow> Inl e
                      | Inr s3 \<Rightarrow> Inr (out, w1\<lparr>cw_st := result_dtor res' s3\<rparr>)))))"

section \<open>await\_member\_callback\<close>

text \<open>The awaitable member is at \<open>mc_awt\<close>; the arguments are set by the first \<^verbatim>\<open>await\<close>.\<close>

record ('i, 'r) member_callback =
  mc_instance :: "'i option"
  mc_args :: "'r option"
  mc_awt :: awt_ptr

definition member_await_cont ::
    "'v callbacks \<Rightarrow> nat \<Rightarrow> awt_ptr \<Rightarrow> ('i, 'r) member_callback \<Rightarrow> 'v store
     \<Rightarrow> cpp_error + (prepared_coro \<times> 'v store)" where
  "member_await_cont call a p m s =
     (case awaitable_move_assign call (mc_awt m) p s of
        Inl e \<Rightarrow> Inl e
      | Inr s1 \<Rightarrow>
          if await_ready (mc_awt m) s1 then Inr (prepared_of (Coro a), s1)
          else (case await_suspend call (mc_awt m) (Coro a) s1 of
                  Inl e \<Rightarrow> Inl e
                | Inr (h, s2) \<Rightarrow> Inr (prepared_of h, s2)))"

definition member_await ::
    "'v callbacks \<Rightarrow> nat \<Rightarrow> awt_ptr \<Rightarrow> 'i \<Rightarrow> 'r \<Rightarrow> ('i, 'r) member_callback \<Rightarrow> 'v store
     \<Rightarrow> ('i, 'r) member_callback \<times> (cpp_error + (prepared_coro \<times> 'v store))" where
  "member_await call a p inst args m s =
     (let m1 = m\<lparr>mc_instance := Some inst, mc_args := Some args\<rparr> in (m1, member_await_cont call a p m1 s))"

text \<open>\<open>member_fn\<close> is the member function that the class is instantiated with.\<close>

definition member_do_resume ::
    "('i \<Rightarrow> awt_ptr \<Rightarrow> 'r \<Rightarrow> 'v store \<Rightarrow> 'r \<times> 'v store) \<Rightarrow> ('i, 'r) member_callback \<Rightarrow> 'v store
     \<Rightarrow> cpp_error + (('i, 'r) member_callback \<times> 'v store)" where
  "member_do_resume member_fn m s =
     (case (mc_instance m, mc_args m) of
        (Some inst, Some args) \<Rightarrow>
          let (args', s') = member_fn inst (mc_awt m) args s in Inr (m\<lparr>mc_args := Some args'\<rparr>, s')
      | _ \<Rightarrow> Inl Null_dereference)"

section \<open>A callback is called exactly once\<close>

lemma callback_create_fresh:
  "callback_create a q fn w =
     Inr (Some q, w\<lparr>cw_st := set_owner q (Coro a) (construct q No_value (cw_st w)),
                    cw_objs := (cw_objs w)(a := Some \<lparr>co_awt = q, co_fn = fn\<rparr>)\<rparr>)"
  by (simp add: callback_create_def create_result_def is_awaiting_def construct_def)

lemma set_callback_pending:
  assumes "state_of (cw_st w) p = Callback cb" and "owner_of (cw_st w) p = Null_handle" and "q \<noteq> p"
    and "call cb (Some q) (set_owner q (Coro a) (construct q No_value (cw_st w)))
         = (prepared_empty, set_owner q (Coro a) (construct q No_value (cw_st w)))"
  shows "set_callback call invoke a q fn p w =
     Inr (prepared_empty,
       w\<lparr>cw_st := set_state p No_value (set_owner q (Coro a) (construct q No_value (cw_st w))),
         cw_objs := (cw_objs w)(a := Some \<lparr>co_awt = q, co_fn = fn\<rparr>)\<rparr>)"
  using assms
  by (simp add: set_callback_def await_ready_def callback_create_fresh awaitable_cancel_def
      is_awaiting_def result_dtor_def Let_def)

lemma callback_do_resume_once:
  assumes "cw_objs w a = Some \<lparr>co_awt = q, co_fn = fn\<rparr>"
    and "invoke fn q (cw_st w) = (None, s')" and "owner_of s' q = Null_handle" and "ready_state (state_of s' q)"
  shows "callback_do_resume call hook invoke a w =
     Inr (w\<lparr>cw_st := s', cw_objs := (cw_objs w)(a := None),
            cw_calls := cw_calls w @ [(fn, state_of (cw_st w) q)]\<rparr>)"
  using assms
  by (cases "state_of s' q")
     (simp_all add: callback_do_resume_def call_function_def callback_do_destroy_def awaitable_dtor_def
        is_awaiting_def)

lemma callback_path:
  assumes "state_of (cw_st w) p = Callback cb" and "owner_of (cw_st w) p = Null_handle" and "q \<noteq> p"
    and "call cb (Some q) (set_owner q (Coro a) (construct q No_value (cw_st w)))
         = (prepared_empty, set_owner q (Coro a) (construct q No_value (cw_st w)))"
    and "\<And>s. \<exists>s'. invoke fn q s = (None, s') \<and> awts s' q = awts s q"
  shows "\<exists>w1 w2. set_callback call invoke a q fn p w = Inr (prepared_empty, w1)
     \<and> cw_calls w1 = cw_calls w \<and> state_of (cw_st w1) p = No_value
     \<and> trace (result_life (Some q) xs (cw_st w1)) = trace (cw_st w) @ [Resume a]
     \<and> callback_do_resume call hook invoke a (w1\<lparr>cw_st := result_life (Some q) xs (cw_st w1)\<rparr>) = Inr w2
     \<and> cw_calls w2 = cw_calls w @ [(fn, life_state (cur_exn (cw_st w)) xs)]
     \<and> cw_objs w2 = (cw_objs w)(a := None)"
proof -
  let ?s = "set_state p No_value (set_owner q (Coro a) (construct q No_value (cw_st w)))"
  let ?w = "w\<lparr>cw_st := ?s, cw_objs := (cw_objs w)(a := Some \<lparr>co_awt = q, co_fn = fn\<rparr>)\<rparr>"
  have life: "result_life (Some q) xs ?s
      = emit [Resume a] (resolved q (life_state (cur_exn (cw_st w)) xs) ?s)"
    using result_life_resolves [of ?s q xs] assms(3) by simp
  let ?t = "emit [Resume a] (resolved q (life_state (cur_exn (cw_st w)) xs) ?s)"
  obtain s' where s': "invoke fn q ?t = (None, s')" "awts s' q = awts ?t q" using assms(5) by blast
  have "owner_of s' q = Null_handle" "state_of s' q = life_state (cur_exn (cw_st w)) xs"
    using s'(2) by (simp_all add: resolved_def)
  then have "callback_do_resume call hook invoke a (?w\<lparr>cw_st := ?t\<rparr>) =
     Inr (?w\<lparr>cw_st := s', cw_objs := (cw_objs ?w)(a := None),
            cw_calls := cw_calls w @ [(fn, state_of ?t q)]\<rparr>)"
    using callback_do_resume_once [of "?w\<lparr>cw_st := ?t\<rparr>" a q fn invoke s' call hook] s'(1) by simp
  then show ?thesis
    unfolding set_callback_pending [of w p cb q call a, OF assms(1-4)]
    by (intro exI [of _ ?w] exI [of _ "?w\<lparr>cw_st := s', cw_objs := (cw_objs ?w)(a := None),
            cw_calls := cw_calls w @ [(fn, state_of ?t q)]\<rparr>"]) (simp add: life resolved_def)
qed

text \<open>
  C28: a callback set on an awaitable whose operation keeps the result object for later is not
  called before the result object is used or destroyed; whatever is then done with the result
  object resumes the callback's frame exactly once, which calls the function exactly once, with
  the value or the exception that was set or with no value, and frees the callback object.  The
  awaitable itself is left without a value.
\<close>

theorem callback_gets_result:
  assumes "state_of (cw_st w) p = Callback cb" and "owner_of (cw_st w) p = Null_handle" and "q \<noteq> p"
    and "call cb (Some q) (set_owner q (Coro a) (construct q No_value (cw_st w)))
         = (prepared_empty, set_owner q (Coro a) (construct q No_value (cw_st w)))"
    and "\<And>s. \<exists>s'. invoke fn q s = (None, s') \<and> awts s' q = awts s q"
  shows "\<exists>w1 w2. set_callback call invoke a q fn p w = Inr (prepared_empty, w1)
     \<and> cw_calls w1 = cw_calls w \<and> state_of (cw_st w1) p = No_value
     \<and> trace (result_life (Some q) xs (cw_st w1)) = trace (cw_st w) @ [Resume a]
     \<and> callback_do_resume call hook invoke a (w1\<lparr>cw_st := result_life (Some q) xs (cw_st w1)\<rparr>) = Inr w2
     \<and> cw_calls w2 = cw_calls w @ [(fn, life_state (cur_exn (cw_st w)) xs)]
     \<and> cw_objs w2 = (cw_objs w)(a := None)"
  using assms by (rule callback_path)

definition callback_world :: "nat cb_world" where
  "callback_world =
     \<lparr>cw_st = \<lparr>awts = (\<lambda>_. \<lparr>a_state = Callback 0, a_owner = Null_handle\<rparr>), frames = [],
               cur_exn = None, trace = []\<rparr>,
      cw_objs = (\<lambda>_. None), cw_calls = []\<rparr>"

theorem callback_gets_result_witness:
  "\<exists>w1 w2. set_callback (\<lambda>_ _ s. (prepared_empty, s)) (\<lambda>_ _ s. (None, s)) 9 2 5 1 callback_world
       = Inr (prepared_empty, w1)
     \<and> callback_do_resume (\<lambda>_ _ s. (prepared_empty, s)) default_async_unhandled_exception (\<lambda>_ _ s. (None, s)) 9
          (w1\<lparr>cw_st := result_life (Some 2) [R_call (Inr 42)] (cw_st w1)\<rparr>) = Inr w2
     \<and> cw_calls w2 = [(5, Value 42)]"
  using callback_gets_result [of callback_world 1 0 2 "\<lambda>_ _ s. (prepared_empty, s)" 9
      "\<lambda>_ _ s. (None, s)" 5 "[R_call (Inr 42)]" default_async_unhandled_exception]
  by (auto simp: callback_world_def life_state_def)

section \<open>A member callback is called with the result\<close>

text \<open>
  The same for \<^verbatim>\<open>await_member_callback\<close>: the awaitable is moved into the object, whose frame
  is resumed exactly once by whatever is done with the result; the member function then sees the
  outcome and the arguments of the registration.
\<close>

lemma member_callback_gets_result:
  assumes "state_of s p = Callback cb" and "mc_awt m \<noteq> p"
    and "ready_state (state_of s (mc_awt m))" and "owner_of s (mc_awt m) = Null_handle"
    and "\<And>q s. call cb (Some q) s = (prepared_empty, s)"
    and "member_await call a p inst args m s = (m1, Inr (pc, s1))"
  shows "pc = prepared_of Noop_coroutine
       \<and> result_life (Some (mc_awt m)) xs s1
         = emit [Resume a] (resolved (mc_awt m) (life_state (cur_exn s) xs) s1)
       \<and> member_do_resume fn m1 t
         = Inr (m1\<lparr>mc_args := Some (fst (fn inst (mc_awt m) args t))\<rparr>, snd (fn inst (mc_awt m) args t))"
proof -
  have "awaitable_dtor call (mc_awt m) s = Inr s"
    using assms(3,4) by (cases "state_of s (mc_awt m)") (simp_all add: awaitable_dtor_def is_awaiting_def)
  then have move: "awaitable_move_assign call (mc_awt m) p s = Inr (awaitable_move (mc_awt m) p s)"
    using assms(2) by (simp add: awaitable_move_assign_def)
  let ?t = "awaitable_move (mc_awt m) p s"
  have t: "state_of ?t (mc_awt m) = Callback cb" "cur_exn ?t = cur_exn s"
    using assms(1,2) by (simp_all add: awaitable_move_def Let_def)
  have out: "m1 = m\<lparr>mc_instance := Some inst, mc_args := Some args\<rparr>" "pc = prepared_of Noop_coroutine"
    "s1 = set_owner (mc_awt m) (Coro a) ?t"
    using assms(5,6) move t(1)
    by (auto simp: member_await_def member_await_cont_def await_ready_def await_suspend_def prepared_simps Let_def)
  with t result_life_resolves [of s1 "mc_awt m" xs] show ?thesis
    by (simp add: member_do_resume_def case_prod_beta)
qed

end
