(* ===== verification/Frame_Memory.thy ===== *)
theory Frame_Memory
  imports Prelude "HOL-Library.AList"
begin

text \<open>
  The allocators of \<^verbatim>\<open>coroutine.h\<close>: \<^verbatim>\<open>objstdalloc\<close>, which forwards to the global
  operators, and \<^verbatim>\<open>reusable_allocator\<close>, which keeps one block of memory for the
  frames of coroutines that run one after the other.  The global \<^verbatim>\<open>operator new\<close> may fail:
  \<open>avail\<close> tells which sizes it can give.
\<close>

section \<open>Global memory\<close>

datatype mem_error = Bad_alloc | Double_free

record memory =
  blocks :: "(nat \<times> nat) list"
  fresh :: nat

definition operator_new :: "(nat \<Rightarrow> bool) \<Rightarrow> nat \<Rightarrow> memory \<Rightarrow> mem_error + (nat \<times> memory)" where
  "operator_new avail sz m =
     (if avail sz then Inr (fresh m, m\<lparr>blocks := (fresh m, sz) # blocks m, fresh := fresh m + 1\<rparr>)
      else Inl Bad_alloc)"

definition operator_delete :: "nat option \<Rightarrow> memory \<Rightarrow> mem_error + memory" where
  "operator_delete p m =
     (case p of
        None \<Rightarrow> Inr m
      | Some a \<Rightarrow>
          if a \<in> fst ` set (blocks m) then Inr (m\<lparr>blocks := AList.delete a (blocks m)\<rparr>)
          else Inl Double_free)"

text \<open>\<^verbatim>\<open>objstdalloc\<close>: the other arguments of the placement form are ignored.\<close>

definition objstd_new :: "(nat \<Rightarrow> bool) \<Rightarrow> nat \<Rightarrow> memory \<Rightarrow> mem_error + (nat \<times> memory)" where
  "objstd_new avail sz m = operator_new avail sz m"

definition objstd_delete :: "nat option \<Rightarrow> memory \<Rightarrow> mem_error + memory" where
  "objstd_delete p m = operator_delete p m"

section \<open>The allocator\<close>

record reusable_allocator =
  ra_buffer :: "nat option"
  ra_size :: nat

definition allocator_init :: reusable_allocator where
  "allocator_init = \<lparr>ra_buffer = None, ra_size = 0\<rparr>"

text \<open>
  \<^verbatim>\<open>overrides::operator new\<close>, the allocator being among the arguments.  An exception of the
  global \<^verbatim>\<open>operator new\<close> leaves the members as they were.
\<close>

definition reusable_new ::
    "(nat \<Rightarrow> bool) \<Rightarrow> nat \<Rightarrow> reusable_allocator \<Rightarrow> memory
     \<Rightarrow> (mem_error + nat option) \<times> reusable_allocator \<times> memory" where
  "reusable_new avail sz ra m =
     (if ra_size ra < sz then
        (case operator_delete (ra_buffer ra) m of
           Inl e \<Rightarrow> (Inl e, ra, m)
         | Inr m1 \<Rightarrow>
             (case operator_new avail sz m1 of
                Inl e \<Rightarrow> (Inl e, ra, m1)
              | Inr (a, m2) \<Rightarrow> (Inr (Some a), \<lparr>ra_buffer = Some a, ra_size = sz\<rparr>, m2)))
      else (Inr (ra_buffer ra), ra, m))"

definition reusable_delete :: "nat option \<Rightarrow> reusable_allocator \<Rightarrow> memory \<Rightarrow> reusable_allocator \<times> memory" where
  "reusable_delete p ra m = (ra, m)"

definition reusable_dtor :: "reusable_allocator \<Rightarrow> memory \<Rightarrow> mem_error + memory" where
  "reusable_dtor ra m = operator_delete (ra_buffer ra) m"

text \<open>
  Frames of the given sizes, one after the other, each deallocated before the next one; the
  outcome lists what each allocation gave and how large that block was.
\<close>

fun reuse_run ::
    "(nat \<Rightarrow> bool) \<Rightarrow> nat list \<Rightarrow> reusable_allocator \<Rightarrow> memory
     \<Rightarrow> (mem_error + nat option) list \<times> nat list \<times> reusable_allocator \<times> memory" where
  "reuse_run avail [] ra m = ([], [], ra, m)"
| "reuse_run avail (sz # szs) ra m =
     (let (r, ra1, m1) = reusable_new avail sz ra m;
          (ra2, m2) = reusable_delete (case r of Inr p \<Rightarrow> p | Inl e \<Rightarrow> None) ra1 m1;
          got = (case r of Inr (Some a) \<Rightarrow> (case map_of (blocks m1) a of Some n \<Rightarrow> n | None \<Rightarrow> 0) | _ \<Rightarrow> 0);
          (rs, gs, ra3, m3) = reuse_run avail szs ra2 m2
      in (r # rs, got # gs, ra3, m3))"

section \<open>Properties\<close>

text \<open>The allocator owns at most one block, in front of the memory \<open>base\<close> of everybody else.\<close>

definition owns_block :: "(nat \<times> nat) list \<Rightarrow> reusable_allocator \<Rightarrow> memory \<Rightarrow> bool" where
  "owns_block base ra m \<longleftrightarrow>
     (\<forall>x \<in> set base. fst x < fresh m)
     \<and> (case ra_buffer ra of
          None \<Rightarrow> ra_size ra = 0 \<and> blocks m = base
        | Some a \<Rightarrow> blocks m = (a, ra_size ra) # base \<and> a \<notin> fst ` set base \<and> a < fresh m)"

lemma delete_absent: "a \<notin> fst ` set xs \<Longrightarrow> AList.delete a xs = xs"
  by (induction xs) auto

lemma reusable_new_ok:
  assumes "owns_block base ra m" and "avail sz" and "0 < sz"
  shows "\<exists>a ra' m'. reusable_new avail sz ra m = (Inr (Some a), ra', m') \<and> owns_block base ra' m'
      \<and> ra_buffer ra' = Some a \<and> sz \<le> ra_size ra' \<and> map_of (blocks m') a = Some (ra_size ra')
      \<and> (ra_size ra < sz \<longrightarrow> ra_size ra' = sz \<and> a = fresh m \<and> fresh m' = Suc (fresh m)) \<and> (sz \<le> ra_size ra \<longrightarrow> ra' = ra \<and> m' = m)"
proof (cases "ra_size ra < sz")
  case True
  have "\<exists>m1. operator_delete (ra_buffer ra) m = Inr m1 \<and> blocks m1 = base \<and> fresh m1 = fresh m"
    using assms(1)
    by (auto simp: owns_block_def operator_delete_def delete_absent split: option.splits)
  then obtain m1 where m1: "operator_delete (ra_buffer ra) m = Inr m1" "blocks m1 = base" "fresh m1 = fresh m"
    by blast
  have "fresh m \<notin> fst ` set base" using assms(1) by (auto simp: owns_block_def)
  with True m1 assms show ?thesis
    by (auto simp: reusable_new_def operator_new_def owns_block_def)
next
  case False
  with assms show ?thesis
    by (auto simp: reusable_new_def owns_block_def split: option.splits)
qed

lemma reuse_run_ok:
  "owns_block base ra m \<Longrightarrow> list_all avail szs \<Longrightarrow> list_all (\<lambda>n. 0 < n) szs \<Longrightarrow>
   \<exists>rs gs ra' m'. reuse_run avail szs ra m = (rs, gs, ra', m') \<and> owns_block base ra' m'
      \<and> list_all2 (\<le>) szs gs \<and> ra_size ra' = fold max szs (ra_size ra)"
proof (induction szs arbitrary: ra m)
  case Nil
  then show ?case by simp
next
  case (Cons sz szs)
  then obtain a ra1 m1 where n: "reusable_new avail sz ra m = (Inr (Some a), ra1, m1)"
      "owns_block base ra1 m1" "sz \<le> ra_size ra1" "map_of (blocks m1) a = Some (ra_size ra1)"
    and size: "ra_size ra < sz \<longrightarrow> ra_size ra1 = sz" "sz \<le> ra_size ra \<longrightarrow> ra1 = ra"
    using reusable_new_ok [of base ra m avail sz] by auto
  have mx: "ra_size ra1 = max sz (ra_size ra)" using size by (cases "ra_size ra < sz") auto
  from Cons.IH [OF n(2)] Cons.prems obtain rs gs ra' m'
    where "reuse_run avail szs ra1 m1 = (rs, gs, ra', m')" "owns_block base ra' m'"
      "list_all2 (\<le>) szs gs" "ra_size ra' = fold max szs (ra_size ra1)" by auto
  with n(1,3,4) mx show ?case by (simp add: reusable_delete_def)
qed

lemma owns_block_released:
  assumes "owns_block base ra m"
  shows "length (blocks m) \<le> length base + 1 \<and> (\<exists>m'. reusable_dtor ra m = Inr m' \<and> blocks m' = base)"
  using assms
  by (auto simp: owns_block_def reusable_dtor_def operator_delete_def delete_absent split: option.splits)

text \<open>
  As long as memory is available, every frame gets a block that is large enough, whatever
  the sizes and their order; the allocator never owns more than one block, no other block is
  touched, its size is the largest size asked for so far, and its destructor gives the memory
  back.
\<close>

lemma reused_frames_fit:
  assumes "\<forall>x \<in> set (blocks m). fst x < fresh m" and "list_all avail szs" and "list_all (\<lambda>n. 0 < n) szs"
  shows "\<exists>rs gs ra' m'. reuse_run avail szs allocator_init m = (rs, gs, ra', m')
      \<and> list_all2 (\<le>) szs gs \<and> ra_size ra' = fold max szs 0
      \<and> length (blocks m') \<le> length (blocks m) + 1
      \<and> (\<exists>m''. reusable_dtor ra' m' = Inr m'' \<and> blocks m'' = blocks m)"
proof -
  have "owns_block (blocks m) allocator_init m"
    using assms(1) by (auto simp: owns_block_def allocator_init_def)
  from reuse_run_ok [OF this assms(2,3)] obtain rs gs ra' m'
    where run: "reuse_run avail szs allocator_init m = (rs, gs, ra', m')"
      and owns: "owns_block (blocks m) ra' m'"
      and res: "list_all2 (\<le>) szs gs" "ra_size ra' = fold max szs 0"
    by (auto simp: allocator_init_def)
  from owns_block_released [OF owns] run res show ?thesis by blast
qed

lemma reused_frames_fit_at_input:
  "\<exists>rs gs ra' m'. reuse_run (\<lambda>_. True) [64, 32, 128] allocator_init \<lparr>blocks = [(0, 8)], fresh = 1\<rparr> = (rs, gs, ra', m')
      \<and> ra_size ra' = 128 \<and> (\<exists>m''. reusable_dtor ra' m' = Inr m'' \<and> blocks m'' = [(0, 8)])"
  using reused_frames_fit [of "\<lparr>blocks = [(0, 8)], fresh = 1\<rparr>" "\<lambda>_. True" "[64, 32, 128]"]
  by (auto simp del: reuse_run.simps)

text \<open>The standard allocator gives each frame a block of its own and takes it back.\<close>

lemma objstd_roundtrip:
  assumes "\<forall>x \<in> set (blocks m). fst x < fresh m" and "objstd_new avail sz m = Inr (a, m')"
  shows "map_of (blocks m') a = Some sz \<and> a \<notin> fst ` set (blocks m)
       \<and> (\<exists>m''. objstd_delete (Some a) m' = Inr m'' \<and> blocks m'' = blocks m)"
proof -
  have a: "a = fresh m" "m' = m\<lparr>blocks := (fresh m, sz) # blocks m, fresh := fresh m + 1\<rparr>"
    using assms(2) by (auto simp: objstd_new_def operator_new_def split: if_splits)
  have "fresh m \<notin> fst ` set (blocks m)" using assms(1) by auto
  with a show ?thesis by (simp add: objstd_delete_def operator_delete_def delete_absent)
qed

text \<open>
  When the larger block cannot be allocated the old one is already freed, but the members still
  describe it: the next frame that fits is placed in freed memory, and the destructor frees it
  a second time.
\<close>

lemma failed_reuse_frees_twice:
  assumes "owns_block base ra m" and "ra_buffer ra = Some a" and "ra_size ra < sz" and "\<not> avail sz"
    and "reusable_new avail sz ra m = (r, ra', m')"
  shows "r = Inl Bad_alloc \<and> map_of (blocks m') a = None
       \<and> fst (reusable_new avail (ra_size ra) ra' m') = Inr (Some a)
       \<and> reusable_dtor ra' m' = Inl Double_free"
proof -
  have m: "blocks m = (a, ra_size ra) # base" "a \<notin> fst ` set base"
    using assms(1,2) by (auto simp: owns_block_def)
  with assms(2-5) have "r = Inl Bad_alloc" "ra' = ra" "blocks m' = base"
    by (auto simp: reusable_new_def operator_delete_def operator_new_def delete_absent)
  with m assms(2) show ?thesis
    by (auto simp: reusable_new_def reusable_dtor_def operator_delete_def map_of_eq_None_iff)
qed

end
