(* ===== verification/Coroutine_Alloc.thy ===== *)
theory Coroutine_Alloc
  imports Frame_Memory Closures
begin

text \<open>
  Coroutines with an allocator (\<^verbatim>\<open>coroutine<T, _Allocator>\<close> of \<^verbatim>\<open>coroutine.h\<close>): the frame is
  placed by the allocator's \<^verbatim>\<open>operator new\<close>.  The cycle of calls that
  \<^verbatim>\<open>reusable_allocator\<close> is made for, over the store of awaitables and the memory.
\<close>

section \<open>Calling\<close>

record 'v alloc_world =
  al_mem :: memory
  al_ra :: reusable_allocator
  al_st :: "'v store"

text \<open>
  Calling a coroutine function whose frame takes \<open>sz\<close> bytes.  The frame is at the address that
  the allocator gives; without one there is no frame.
\<close>

definition alloc_coroutine_create ::
    "(nat \<Rightarrow> bool) \<Rightarrow> nat \<Rightarrow> 'v alloc_world \<Rightarrow> (mem_error + nat option) \<times> 'v alloc_world" where
  "alloc_coroutine_create avail sz w =
     (case reusable_new avail sz (al_ra w) (al_mem w) of
        (Inr (Some a), ra, m) \<Rightarrow>
          let (c, s) = coroutine_create a (al_st w) in (Inr c, \<lparr>al_mem = m, al_ra = ra, al_st = s\<rparr>)
      | (r, ra, m) \<Rightarrow> (r, w\<lparr>al_mem := m, al_ra := ra\<rparr>))"

text \<open>The end of a frame gives its memory to the allocator's \<^verbatim>\<open>operator delete\<close>.\<close>

definition alloc_finish ::
    "'v hook \<Rightarrow> nat \<Rightarrow> exn + 'v \<Rightarrow> 'v alloc_world \<Rightarrow> cpp_error + (coro_handle \<times> 'v alloc_world)" where
  "alloc_finish hook f out w =
     (case coroutine_finish hook f out (al_st w) of
        Inl e \<Rightarrow> Inl e
      | Inr (h, s) \<Rightarrow>
          let (ra, m) = reusable_delete (Some f) (al_ra w) (al_mem w)
          in Inr (h, \<lparr>al_mem = m, al_ra = ra, al_st = s\<rparr>))"

text \<open>
  \<^verbatim>\<open>co_await fn(allocator, ...)\<close> in the coroutine \<open>h\<close>, with the temporary awaitable at
  \<open>p\<close>; the body of the called coroutine runs when control is transferred to it and finishes with
  \<open>out\<close>.
\<close>

datatype 'v call_outcome = Not_allocated mem_error | Failed cpp_error | Not_started | Returned "exn + 'v"

definition alloc_co_await ::
    "'v callbacks \<Rightarrow> 'v hook \<Rightarrow> (nat \<Rightarrow> bool) \<Rightarrow> nat \<Rightarrow> awt_ptr \<Rightarrow> nat \<Rightarrow> exn + 'v \<Rightarrow> 'v alloc_world
     \<Rightarrow> 'v call_outcome \<times> 'v alloc_world" where
  "alloc_co_await call hook avail h p sz out w =
     (case alloc_coroutine_create avail sz w of
        (Inl e, w1) \<Rightarrow> (Not_allocated e, w1)
      | (Inr c, w1) \<Rightarrow>
          (case await_suspend call p (Coro h) (construct p (fst (coroutine_co_await c)) (al_st w1)) of
             Inl e \<Rightarrow> (Failed e, w1)
           | Inr (Coro f, s) \<Rightarrow>
               (case alloc_finish hook f out (w1\<lparr>al_st := s\<rparr>) of
                  Inl e \<Rightarrow> (Failed e, w1)
                | Inr (_, w2) \<Rightarrow> (Returned (await_resume p (al_st w2)), w2))
           | Inr (_, s) \<Rightarrow> (Not_started, w1\<lparr>al_st := s\<rparr>)))"

text \<open>The calls of a cycle: frame sizes and what the bodies end with.\<close>

fun alloc_cycle ::
    "'v callbacks \<Rightarrow> 'v hook \<Rightarrow> (nat \<Rightarrow> bool) \<Rightarrow> nat \<Rightarrow> awt_ptr \<Rightarrow> (nat \<times> (exn + 'v)) list \<Rightarrow> 'v alloc_world
     \<Rightarrow> 'v call_outcome list \<times> 'v alloc_world" where
  "alloc_cycle call hook avail h p [] w = ([], w)"
| "alloc_cycle call hook avail h p ((sz, out) # xs) w =
     (let (r, w1) = alloc_co_await call hook avail h p sz out w;
          (rs, w2) = alloc_cycle call hook avail h p xs w1
      in (r # rs, w2))"

text \<open>How often a size exceeds all sizes before it.\<close>

fun records :: "nat \<Rightarrow> nat list \<Rightarrow> nat" where
  "records mx [] = 0"
| "records mx (n # ns) = (if mx < n then Suc (records n ns) else records mx ns)"

section \<open>One call\<close>

text \<open>
  The allocator owns at most one block, and no live frame of the store is at its block or at an
  address that memory has not given out yet.
\<close>

definition block_idle :: "(nat \<times> nat) list \<Rightarrow> 'v alloc_world \<Rightarrow> bool" where
  "block_idle base w \<longleftrightarrow>
     owns_block base (al_ra w) (al_mem w)
     \<and> (\<forall>a \<in> fst ` set (frames (al_st w)). a < fresh (al_mem w) \<and> ra_buffer (al_ra w) \<noteq> Some a)"

lemma coroutine_created:
  assumes "f \<notin> fst ` set (frames s)"
  shows "coroutine_create f s = (Some f, s\<lparr>frames := (f, \<lparr>p_target = None\<rparr>) # frames s\<rparr>)"
    and "AList.delete f ((f, \<lparr>p_target = None\<rparr>) # frames s) = frames s"
  using assms by (simp_all add: coroutine_create_def delete_absent)

lemma alloc_co_await_returns:
  assumes "block_idle base w" and "avail sz" and "0 < sz"
  obtains w' a where "alloc_co_await call hook avail h p sz out w = (Returned out, w')"
    and "block_idle base w'" and "frames (al_st w') = frames (al_st w)"
    and "trace (al_st w') = trace (al_st w) @ [Destroy a]"
    and "ra_size (al_ra w') = max (ra_size (al_ra w)) sz"
    and "fresh (al_mem w') = fresh (al_mem w) + records (ra_size (al_ra w)) [sz]"
proof -
  from assms(1) have owns: "owns_block base (al_ra w) (al_mem w)"
    and apart: "\<And>a. a \<in> fst ` set (frames (al_st w)) \<Longrightarrow> a < fresh (al_mem w) \<and> ra_buffer (al_ra w) \<noteq> Some a"
    by (auto simp: block_idle_def)
  from reusable_new_ok [of base "al_ra w" "al_mem w" avail sz] owns assms(2,3) obtain a ra m
    where new: "reusable_new avail sz (al_ra w) (al_mem w) = (Inr (Some a), ra, m)" "owns_block base ra m"
      "ra_buffer ra = Some a"
      and grown: "ra_size (al_ra w) < sz \<longrightarrow> ra_size ra = sz \<and> a = fresh (al_mem w) \<and> fresh m = Suc (fresh (al_mem w))"
      and kept: "sz \<le> ra_size (al_ra w) \<longrightarrow> ra = al_ra w \<and> m = al_mem w" by blast
  have size: "ra_size ra = max (ra_size (al_ra w)) sz"
    and fresh: "fresh m = fresh (al_mem w) + records (ra_size (al_ra w)) [sz]"
    using grown kept by (cases "ra_size (al_ra w) < sz"; simp)+
  have out: "a \<notin> fst ` set (frames (al_st w))"
    using apart [of a] grown kept new(3) by (cases "ra_size (al_ra w) < sz") auto
  let ?s = "construct p (Coroutine (Some a)) ((al_st w)\<lparr>frames := (a, \<lparr>p_target = None\<rparr>) # frames (al_st w)\<rparr>)"
  have "state_of ?s p = Coroutine (Some a)" and "map_of (frames ?s) a = Some \<lparr>p_target = None\<rparr>"
    by (simp_all add: construct_def)
  from co_await_path [OF this, of call h hook out] obtain s1 s2
    where susp: "await_suspend call p (Coro h) ?s = Inr (Coro a, s1)"
      and fin: "coroutine_finish hook a out s1 = Inr (Coro h, s2)" and res: "await_resume p s2 = out"
      and fr: "frames s2 = AList.delete a (frames ?s)" and tr: "trace s2 = trace ?s @ [Destroy a]" by blast
  have fr': "frames s2 = frames (al_st w)" using fr coroutine_created(2) [OF out] by (simp add: construct_def)
  have tr': "trace s2 = trace (al_st w) @ [Destroy a]" using tr by (simp add: construct_def)
  let ?w = "\<lparr>al_mem = m, al_ra = ra, al_st = s2\<rparr>"
  have "alloc_co_await call hook avail h p sz out w = (Returned out, ?w)"
    using new(1) susp fin res
    by (simp add: alloc_co_await_def alloc_coroutine_create_def coroutine_created(1) [OF out]
        coroutine_co_await_def awaitable_of_coroutine_def coroutine_move_def alloc_finish_def reusable_delete_def)
  moreover have "b < fresh m \<and> ra_buffer ra \<noteq> Some b" if "b \<in> fst ` set (frames (al_st w))" for b
    using apart [OF that] fresh that out new(3) by auto
  then have "block_idle base ?w" unfolding block_idle_def using new(2) by (simp add: fr')
  ultimately show ?thesis using that size fresh fr' tr' by simp
qed

section \<open>The cycle\<close>

lemma fold_max_records:
  "records mx (n # ns) = records mx [n] + records (max mx n) ns"
  by (simp add: max_def)

lemma alloc_cycle_returns:
  assumes "block_idle base w" and "list_all (\<lambda>(sz, out). avail sz \<and> 0 < sz) xs"
  shows "\<exists>w'. alloc_cycle call hook avail h p xs w = (map (\<lambda>(sz, out). Returned out) xs, w') \<and> block_idle base w'
       \<and> frames (al_st w') = frames (al_st w) \<and> length (trace (al_st w')) = length (trace (al_st w)) + length xs
       \<and> fresh (al_mem w') = fresh (al_mem w) + records (ra_size (al_ra w)) (map fst xs)
       \<and> ra_size (al_ra w') = fold max (map fst xs) (ra_size (al_ra w))"
  using assms
proof (induction xs arbitrary: w)
  case (Cons x xs)
  obtain sz out where x: "x = (sz, out)" by fastforce
  with Cons.prems obtain w1 a where w1: "alloc_co_await call hook avail h p sz out w = (Returned out, w1)"
    "block_idle base w1" "frames (al_st w1) = frames (al_st w)" "trace (al_st w1) = trace (al_st w) @ [Destroy a]"
    "ra_size (al_ra w1) = max (ra_size (al_ra w)) sz"
    "fresh (al_mem w1) = fresh (al_mem w) + records (ra_size (al_ra w)) [sz]"
    using alloc_co_await_returns [of base w avail sz call hook h p out] by auto
  from Cons.IH [OF w1(2)] Cons.prems obtain w2
    where "alloc_cycle call hook avail h p xs w1 = (map (\<lambda>(sz, out). Returned out) xs, w2)" "block_idle base w2"
      "frames (al_st w2) = frames (al_st w1)" "length (trace (al_st w2)) = length (trace (al_st w1)) + length xs"
      "fresh (al_mem w2) = fresh (al_mem w1) + records (ra_size (al_ra w1)) (map fst xs)"
      "ra_size (al_ra w2) = fold max (map fst xs) (ra_size (al_ra w1))" by auto
  with w1 x fold_max_records [of "ra_size (al_ra w)" sz "map fst xs"] show ?case
    by (simp add: max.commute)
qed simp

text \<open>
  C31: coroutines called in a cycle share one block.  With a \<^verbatim>\<open>reusable_allocator\<close>, calls of
  any frame sizes, each awaited before the next, give the caller exactly what each body ended
  with, in order; the other live frames are untouched and none is overwritten; memory is
  allocated once for each size that exceeds all sizes before it, the block is as large as the
  largest frame, never more than one is held, and the destructor of the allocator gives it back.
\<close>

theorem reused_coroutines_deliver:
  assumes "\<forall>x \<in> set (blocks m). fst x < fresh m" and "\<forall>x \<in> set (frames s). fst x < fresh m"
    and "list_all (\<lambda>(sz, out). avail sz \<and> 0 < sz) xs"
  shows "\<exists>w. alloc_cycle call hook avail h p xs \<lparr>al_mem = m, al_ra = allocator_init, al_st = s\<rparr>
             = (map (\<lambda>(sz, out). Returned out) xs, w)
       \<and> frames (al_st w) = frames s \<and> length (trace (al_st w)) = length (trace s) + length xs
       \<and> fresh (al_mem w) = fresh m + records 0 (map fst xs) \<and> ra_size (al_ra w) = fold max (map fst xs) 0
       \<and> length (blocks (al_mem w)) \<le> length (blocks m) + 1
       \<and> (\<exists>m'. reusable_dtor (al_ra w) (al_mem w) = Inr m' \<and> blocks m' = blocks m)"
proof -
  let ?w = "\<lparr>al_mem = m, al_ra = allocator_init, al_st = s\<rparr>"
  have "block_idle (blocks m) ?w"
    using assms(1,2) by (auto simp: block_idle_def owns_block_def allocator_init_def)
  from alloc_cycle_returns [OF this assms(3), of call hook h p] obtain w
    where run: "alloc_cycle call hook avail h p xs ?w = (map (\<lambda>(sz, out). Returned out) xs, w)"
      and idle: "block_idle (blocks m) w"
      and rest: "frames (al_st w) = frames s" "length (trace (al_st w)) = length (trace s) + length xs"
        "fresh (al_mem w) = fresh m + records 0 (map fst xs)" "ra_size (al_ra w) = fold max (map fst xs) 0"
    by (auto simp: allocator_init_def)
  from idle have "length (blocks (al_mem w)) \<le> length (blocks m) + 1
      \<and> (\<exists>m'. reusable_dtor (al_ra w) (al_mem w) = Inr m' \<and> blocks m' = blocks m)"
    by (intro owns_block_released) (simp add: block_idle_def)
  with run rest show ?thesis by blast
qed

theorem reused_coroutines_deliver_witness:
  "\<exists>w. alloc_cycle (\<lambda>cb r s. (prepared_empty, s)) default_async_unhandled_exception (\<lambda>_. True) 5 1
         [(64, Inr (1::nat)), (32, Inl (user_exn 3)), (128, Inr 2)]
         \<lparr>al_mem = \<lparr>blocks = [(0, 8)], fresh = 20\<rparr>, al_ra = allocator_init, al_st = called_store\<rparr>
       = ([Returned (Inr 1), Returned (Inl (user_exn 3)), Returned (Inr 2)], w)
     \<and> fresh (al_mem w) = 22"
  using reused_coroutines_deliver [of "\<lparr>blocks = [(0, 8)], fresh = 20\<rparr>" called_store "\<lambda>_. True"
      "[(64, Inr 1), (32, Inl (user_exn 3)), (128, Inr 2)]" "\<lambda>cb r s. (prepared_empty, s)"
      default_async_unhandled_exception 5 1]
  by (auto simp: called_store_def start_store_def coroutine_create_def simp del: alloc_cycle.simps)

end
