(* ===== verification/Callback_Alloc.thy ===== *)
theory Callback_Alloc
  imports Callbacks Coroutine_Alloc
begin

text \<open>
  The public overloads of \<^verbatim>\<open>set_callback\<close> and \<^verbatim>\<open>operator >>\<close> (\<^verbatim>\<open>coroutine.h\<close>), which choose
  the allocator of the callback object, over the memory: the object is allocated only when the
  awaitable is not resolved, and its memory is given back when it destroys itself.
\<close>

section \<open>Operations\<close>

datatype callback_error = Alloc_error mem_error | Call_error cpp_error

text \<open>
  \<open>alloc\<close> is \<^verbatim>\<open>new(alloc) awaiting_callback\<close>, which gives the address of the object or throws; a
  resolved awaitable needs no object (the address 0 is not used).
\<close>

definition set_callback_in ::
    "('m \<Rightarrow> (mem_error + nat option) \<times> 'm) \<Rightarrow> 'v callbacks \<Rightarrow> 'v client_functions \<Rightarrow> awt_ptr \<Rightarrow> nat \<Rightarrow> awt_ptr
     \<Rightarrow> 'v cb_world \<Rightarrow> 'm \<Rightarrow> (callback_error + (prepared_coro \<times> 'v cb_world)) \<times> 'm" where
  "set_callback_in alloc call invoke q fn p w m =
     (if await_ready p (cw_st w) then
        (case set_callback call invoke 0 q fn p w of Inl e \<Rightarrow> (Inl (Call_error e), m) | Inr r \<Rightarrow> (Inr r, m))
      else
        (case alloc m of
           (Inl e, m1) \<Rightarrow> (Inl (Alloc_error e), m1)
         | (Inr None, m1) \<Rightarrow> (Inl (Call_error Null_dereference), m1)
         | (Inr (Some a), m1) \<Rightarrow>
             (case set_callback call invoke a q fn p w of
                Inl e \<Rightarrow> (Inl (Call_error e), m1)
              | Inr r \<Rightarrow> (Inr r, m1))))"

text \<open>\<^verbatim>\<open>set_callback(cb)\<close> and \<^verbatim>\<open>operator >>\<close> use \<^verbatim>\<open>objstdalloc\<close>; \<open>sz\<close> is the size of the object.\<close>

definition set_callback_std ::
    "(nat \<Rightarrow> bool) \<Rightarrow> nat \<Rightarrow> 'v callbacks \<Rightarrow> 'v client_functions \<Rightarrow> awt_ptr \<Rightarrow> nat \<Rightarrow> awt_ptr
     \<Rightarrow> 'v cb_world \<Rightarrow> memory \<Rightarrow> (callback_error + (prepared_coro \<times> 'v cb_world)) \<times> memory" where
  "set_callback_std avail sz =
     set_callback_in (\<lambda>m. case objstd_new avail sz m of Inl e \<Rightarrow> (Inl e, m) | Inr (a, m1) \<Rightarrow> (Inr (Some a), m1))"

definition shift_callback ::
    "(nat \<Rightarrow> bool) \<Rightarrow> nat \<Rightarrow> 'v callbacks \<Rightarrow> 'v client_functions \<Rightarrow> awt_ptr \<Rightarrow> nat \<Rightarrow> awt_ptr
     \<Rightarrow> 'v cb_world \<Rightarrow> memory \<Rightarrow> (callback_error + (prepared_coro \<times> 'v cb_world)) \<times> memory" where
  "shift_callback avail sz =
     set_callback_in (\<lambda>m. case objstd_new avail sz m of Inl e \<Rightarrow> (Inl e, m) | Inr (a, m1) \<Rightarrow> (Inr (Some a), m1))"

text \<open>\<^verbatim>\<open>set_callback(cb, a)\<close> with a \<^verbatim>\<open>reusable_allocator\<close>.\<close>

definition set_callback_alloc ::
    "(nat \<Rightarrow> bool) \<Rightarrow> nat \<Rightarrow> 'v callbacks \<Rightarrow> 'v client_functions \<Rightarrow> awt_ptr \<Rightarrow> nat \<Rightarrow> awt_ptr \<Rightarrow> 'v cb_world
     \<Rightarrow> reusable_allocator \<times> memory
     \<Rightarrow> (callback_error + (prepared_coro \<times> 'v cb_world)) \<times> reusable_allocator \<times> memory" where
  "set_callback_alloc avail sz =
     set_callback_in (\<lambda>(ra, m). let (r, ra1, m1) = reusable_new avail sz ra m in (r, ra1, m1))"

text \<open>The resumed object calls the function and deletes itself, which frees its block.\<close>

definition callback_resume_std ::
    "'v callbacks \<Rightarrow> 'v hook \<Rightarrow> 'v client_functions \<Rightarrow> nat \<Rightarrow> 'v cb_world \<Rightarrow> memory
     \<Rightarrow> callback_error + ('v cb_world \<times> memory)" where
  "callback_resume_std call hook invoke a w m =
     (case callback_do_resume call hook invoke a w of
        Inl e \<Rightarrow> Inl (Call_error e)
      | Inr w1 \<Rightarrow>
          (case objstd_delete (Some a) m of Inl e \<Rightarrow> Inl (Alloc_error e) | Inr m1 \<Rightarrow> Inr (w1, m1)))"

section \<open>The block of a callback\<close>

text \<open>A resolved awaitable calls the function at once and allocates nothing.\<close>

lemma ready_callback_allocates_nothing:
  assumes "await_ready p (cw_st w)" and "invoke fn p (cw_st w) = (None, s)"
  shows "set_callback_in alloc call invoke q fn p w m
       = (Inr (prepared_empty, w\<lparr>cw_st := s, cw_calls := cw_calls w @ [(fn, state_of (cw_st w) p)]\<rparr>), m)"
  using assms by (simp add: set_callback_in_def set_callback_def call_function_def)

text \<open>When the allocation fails nothing has happened to the awaitable and the memory.\<close>

lemma failed_callback_changes_nothing:
  assumes "\<not> await_ready p (cw_st w)" and "\<not> avail sz"
  shows "set_callback_std avail sz call invoke q fn p w m = (Inl (Alloc_error Bad_alloc), m)"
  using assms by (simp add: set_callback_std_def set_callback_in_def objstd_new_def operator_new_def)

text \<open>
  A callback on an awaitable whose operation keeps the result object: the object gets a block of
  its own at a new address; whatever is done with the result resumes it once, the function is
  called once with the outcome, and the memory is as before.
\<close>

lemma callback_block_returned:
  assumes "state_of (cw_st w) p = Callback cb" and "owner_of (cw_st w) p = Null_handle" and "q \<noteq> p"
    and "\<And>r s. call cb r s = (prepared_empty, s)"
    and "\<And>s. \<exists>s'. invoke fn q s = (None, s') \<and> awts s' q = awts s q"
    and "avail sz" and "\<forall>x \<in> set (blocks m). fst x < fresh m"
  shows "\<exists>a w1 m1 w2 m2. set_callback_std avail sz call invoke q fn p w m = (Inr (prepared_empty, w1), m1)
     \<and> map_of (blocks m1) a = Some sz \<and> a \<notin> fst ` set (blocks m)
     \<and> trace (result_life (Some q) xs (cw_st w1)) = trace (cw_st w) @ [Resume a]
     \<and> callback_resume_std call hook invoke a (w1\<lparr>cw_st := result_life (Some q) xs (cw_st w1)\<rparr>) m1 = Inr (w2, m2)
     \<and> cw_calls w2 = cw_calls w @ [(fn, life_state (cur_exn (cw_st w)) xs)] \<and> blocks m2 = blocks m"
proof -
  obtain a m1 where new: "objstd_new avail sz m = Inr (a, m1)"
    using assms(6) by (simp add: objstd_new_def operator_new_def)
  note mem = objstd_roundtrip [OF assms(7) new]
  obtain w1 w2 where w: "set_callback call invoke a q fn p w = Inr (prepared_empty, w1)"
    "trace (result_life (Some q) xs (cw_st w1)) = trace (cw_st w) @ [Resume a]"
    "callback_do_resume call hook invoke a (w1\<lparr>cw_st := result_life (Some q) xs (cw_st w1)\<rparr>) = Inr w2"
    "cw_calls w2 = cw_calls w @ [(fn, life_state (cur_exn (cw_st w)) xs)]"
    using callback_path [of w p cb q call a invoke fn xs hook, OF assms(1-3) assms(4) assms(5)]
    by blast
  moreover have "set_callback_std avail sz call invoke q fn p w m = (Inr (prepared_empty, w1), m1)"
    using assms(1) new w(1) by (simp add: set_callback_std_def set_callback_in_def await_ready_def)
  moreover obtain m2 where "objstd_delete (Some a) m1 = Inr m2" "blocks m2 = blocks m" using mem by blast
  ultimately show ?thesis using mem
    by (intro exI [of _ a] exI [of _ w1] exI [of _ m1] exI [of _ w2] exI [of _ m2])
      (simp add: callback_resume_std_def)
qed

end
