(* ===== verification/When_Each.thy ===== *)
theory When_Each
  imports Prepared_Coro
begin

text \<open>
  \<^verbatim>\<open>when_each\<close> of \<^verbatim>\<open>coroutine.h\<close>: a consumer that gets the indices of the awaited
  operations in the order of their completion.  The operations, and the system of one consumer
  and completions that come from any thread.
\<close>

section \<open>Operations\<close>

text \<open>
  In \<^verbatim>\<open>_finished\<close>, 0 means free, 1 that the consumer waits there, and \<open>i + 2\<close> that
  operation \<open>i\<close> is complete.  All counters are unsigned and wrap around.
\<close>

record when_each =
  we_finished :: "uint32 list"
  we_free :: uint32
  we_nx :: uint32
  we_cnt :: uint32
  we_r :: prepared_coro

abbreviation place :: "when_each \<Rightarrow> uint32 \<Rightarrow> uint32" where
  "place w k \<equiv> we_finished w ! unat k"

text \<open>
  The array has the size of the template parameter (\<open>cap\<close>); an object made from fewer
  awaiters (\<open>n\<close> of them) uses only the first places.
\<close>

definition when_each_new :: "nat \<Rightarrow> nat \<Rightarrow> when_each" where
  "when_each_new cap n =
     \<lparr>we_finished = replicate cap 0, we_free = 0, we_nx = 0, we_cnt = of_nat n, we_r = prepared_empty\<rparr>"

definition each_await_ready :: "when_each \<Rightarrow> bool" where
  "each_await_ready w \<longleftrightarrow> we_cnt w \<le> we_nx w \<or> place w (we_nx w) \<noteq> 0"

definition each_await_resume :: "when_each \<Rightarrow> uint32 \<times> when_each" where
  "each_await_resume w =
     (if we_cnt w \<le> we_nx w then (we_nx w, w)
      else (place w (we_nx w) - 2, w\<lparr>we_nx := we_nx w + 1\<rparr>))"

text \<open>
  \<^verbatim>\<open>await_suspend\<close> in its two statements: the assignment to \<^verbatim>\<open>_r\<close>, whose events
  (what becomes of the handle that was there) happen before the second one, and the exchange.
\<close>

definition each_set_r :: "coro_handle \<Rightarrow> when_each \<Rightarrow> coro_event list \<times> when_each" where
  "each_set_r h w = (let (r, ev) = prepared_assign (we_r w) (prepared_of h) in (ev, w\<lparr>we_r := r\<rparr>))"

definition each_enter :: "when_each \<Rightarrow> bool \<times> when_each" where
  "each_enter w =
     (if place w (we_nx w) = 0
      then (True, w\<lparr>we_finished := (we_finished w)[unat (we_nx w) := 1]\<rparr>) else (False, w))"

definition each_await_suspend :: "coro_handle \<Rightarrow> when_each \<Rightarrow> bool \<times> coro_event list \<times> when_each" where
  "each_await_suspend h w = (let (ev, w1) = each_set_r h w; (b, w2) = each_enter w1 in (b, ev, w2))"

definition each_bool :: "when_each \<Rightarrow> bool" where
  "each_bool w \<longleftrightarrow> we_nx w < we_cnt w"

text \<open>The two atomic accesses of \<^verbatim>\<open>resumed\<close>.\<close>

definition each_claim :: "when_each \<Rightarrow> uint32 \<times> when_each" where
  "each_claim w = (we_free w, w\<lparr>we_free := we_free w + 1\<rparr>)"

definition each_store :: "uint32 \<Rightarrow> uint32 \<Rightarrow> when_each \<Rightarrow> prepared_coro \<times> when_each" where
  "each_store k i w =
     (let old = place w k; w1 = w\<lparr>we_finished := (we_finished w)[unat k := i + 2]\<rparr> in
      if old = 1 then (we_r w1, w1\<lparr>we_r := prepared_empty\<rparr>) else (prepared_empty, w1))"

definition each_resumed :: "uint32 \<Rightarrow> when_each \<Rightarrow> prepared_coro \<times> when_each" where
  "each_resumed i w = (let (k, w1) = each_claim w in each_store k i w1)"

text \<open>
  \<^verbatim>\<open>add(awt, idx)\<close>: the prepared coroutine of a ready awaiter is dropped.  \<open>h\<close> is the
  handle of the slot.
\<close>

definition each_add ::
    "bool \<Rightarrow> 's await_suspend_fn \<Rightarrow> coro_handle \<Rightarrow> uint32 \<Rightarrow> 's \<Rightarrow> when_each
     \<Rightarrow> prepared_coro \<times> coro_event list \<times> 's \<times> when_each" where
  "each_add ready awt h i s w =
     (if ready then let (pc, w1) = each_resumed i w in (prepared_empty, prepared_dtor pc, s, w1)
      else let (pc, s') = call_await_suspend awt h s in (pc, [], s', w))"

section \<open>A consumer and the completions\<close>

datatype slot_phase = Slot_pending | Slot_claimed uint32 | Slot_done uint32

text \<open>
  The consumer is running, or has found \<^verbatim>\<open>await_ready\<close> false, or is suspended, or was
  resumed, or it is astray: it was resumed inside its own call of \<^verbatim>\<open>await_suspend\<close>.
\<close>

datatype consumer_phase = C_running | C_tested | C_suspended | C_resumed | C_astray

record each_sys =
  we :: when_each
  sl :: "uint32 \<Rightarrow> slot_phase"
  co :: consumer_phase
  got :: "uint32 list"
  evs :: "coro_event list"

text \<open>
  The coroutine \<open>c\<close> awaits again and again; \<open>got\<close> is what its awaits returned.  In a
  \<open>calm\<close> schedule no completion is stored while the consumer stands between
  \<^verbatim>\<open>await_ready\<close> and \<^verbatim>\<open>await_suspend\<close>; the code permits others.  When the
  assignment to \<^verbatim>\<open>_r\<close> resumes the consumer itself, its \<^verbatim>\<open>await_resume\<close> runs at once,
  and the run is followed up to there.
\<close>

inductive each_step :: "bool \<Rightarrow> nat \<Rightarrow> each_sys \<Rightarrow> each_sys \<Rightarrow> bool" for calm :: bool and c :: nat where
  claim:
    "sl s i = Slot_pending \<Longrightarrow> i < we_cnt (we s) \<Longrightarrow> co s \<noteq> C_astray \<Longrightarrow> each_claim (we s) = (k, w') \<Longrightarrow>
     each_step calm c s (s\<lparr>we := w', sl := (sl s)(i := Slot_claimed k)\<rparr>)"
| store:
    "sl s i = Slot_claimed k \<Longrightarrow> i < we_cnt (we s) \<Longrightarrow> co s \<noteq> C_astray \<Longrightarrow> calm \<longrightarrow> co s \<noteq> C_tested \<Longrightarrow>
     each_store k i (we s) = (pc, w') \<Longrightarrow>
     each_step calm c s (s\<lparr>we := w', sl := (sl s)(i := Slot_done k),
       co := (if prepared_bool pc then C_resumed else co s)\<rparr>)"
| get_ready:
    "co s = C_running \<Longrightarrow> each_bool (we s) \<Longrightarrow> each_await_ready (we s) \<Longrightarrow>
     each_await_resume (we s) = (v, w') \<Longrightarrow>
     each_step calm c s (s\<lparr>we := w', got := got s @ [v]\<rparr>)"
| not_ready:
    "co s = C_running \<Longrightarrow> \<not> each_await_ready (we s) \<Longrightarrow> each_step calm c s (s\<lparr>co := C_tested\<rparr>)"
| suspend:
    "co s = C_tested \<Longrightarrow> each_set_r (Coro c) (we s) = ([], w1) \<Longrightarrow> each_enter w1 = (True, w') \<Longrightarrow>
     each_step calm c s (s\<lparr>we := w', co := C_suspended\<rparr>)"
| no_suspend:
    "co s = C_tested \<Longrightarrow> each_set_r (Coro c) (we s) = ([], w1) \<Longrightarrow> each_enter w1 = (False, w2) \<Longrightarrow>
     each_await_resume w2 = (v, w') \<Longrightarrow>
     each_step calm c s (s\<lparr>we := w', co := C_running, got := got s @ [v]\<rparr>)"
| self_resumed:
    "co s = C_tested \<Longrightarrow> each_set_r (Coro c) (we s) = ([Resume c], w1) \<Longrightarrow> each_await_resume w1 = (v, w') \<Longrightarrow>
     each_step calm c s (s\<lparr>we := w', co := C_astray, got := got s @ [v], evs := evs s @ [Resume c]\<rparr>)"
| get_resumed:
    "co s = C_resumed \<Longrightarrow> each_await_resume (we s) = (v, w') \<Longrightarrow>
     each_step calm c s (s\<lparr>we := w', co := C_running, got := got s @ [v]\<rparr>)"

text \<open>
  The template argument is at most \<open>2 ^ 32 - 2\<close>, so that every index, increased by two, can
  be told from the two marks.
\<close>

definition each_init :: "nat \<Rightarrow> each_sys \<Rightarrow> bool" where
  "each_init n s \<longleftrightarrow>
     (\<exists>cap \<ge> n. cap + 2 \<le> 2 ^ 32
        \<and> s = \<lparr>we = when_each_new cap n, sl = (\<lambda>_. Slot_pending), co = C_running, got = [], evs = []\<rparr>)"

section \<open>Invariant\<close>

definition taken :: "slot_phase \<Rightarrow> uint32 option" where
  "taken p = (case p of Slot_pending \<Rightarrow> None | Slot_claimed k \<Rightarrow> Some k | Slot_done k \<Rightarrow> Some k)"

text \<open>The places in the array are given out in order, one for each operation.\<close>

definition places_ok :: "each_sys \<Rightarrow> bool" where
  "places_ok s \<longleftrightarrow>
     unat (we_cnt (we s)) \<le> length (we_finished (we s)) \<and> unat (we_cnt (we s)) + 2 \<le> 2 ^ 32
     \<and> unat (we_free (we s)) = card {i. i < we_cnt (we s) \<and> taken (sl s i) \<noteq> None}
     \<and> (\<forall>i k. i < we_cnt (we s) \<longrightarrow> taken (sl s i) = Some k \<longrightarrow> k < we_free (we s))
     \<and> (\<forall>i j k. i < we_cnt (we s) \<longrightarrow> j < we_cnt (we s) \<longrightarrow> taken (sl s i) = Some k \<longrightarrow>
          taken (sl s j) = Some k \<longrightarrow> i = j)"

text \<open>What the array holds.\<close>

definition array_ok :: "each_sys \<Rightarrow> bool" where
  "array_ok s \<longleftrightarrow>
     (\<forall>i k. i < we_cnt (we s) \<longrightarrow> sl s i = Slot_done k \<longrightarrow> place (we s) k = i + 2)
     \<and> (\<forall>k < we_cnt (we s). 1 < place (we s) k \<longrightarrow> (\<exists>i < we_cnt (we s). sl s i = Slot_done k))
     \<and> (\<forall>k < we_cnt (we s). place (we s) k = 1 \<longleftrightarrow> co s = C_suspended \<and> k = we_nx (we s))"

text \<open>
  In a calm run \<^verbatim>\<open>_r\<close> is empty unless the consumer is suspended; in any run it holds, if
  anything, the consumer.
\<close>

definition consumer_ok :: "bool \<Rightarrow> nat \<Rightarrow> each_sys \<Rightarrow> bool" where
  "consumer_ok calm c s \<longleftrightarrow>
     we_nx (we s) \<le> we_cnt (we s)
     \<and> (\<forall>k < we_nx (we s). 1 < place (we s) k)
     \<and> got s = map (\<lambda>k. we_finished (we s) ! k - 2) [0..<unat (we_nx (we s))]
     \<and> (co s \<noteq> C_running \<longrightarrow> we_nx (we s) < we_cnt (we s))
     \<and> (co s = C_resumed \<longrightarrow> 1 < place (we s) (we_nx (we s)))
     \<and> (co s = C_suspended \<longrightarrow> we_r (we s) = prepared_of (Coro c))
     \<and> evs s = []
     \<and> (calm \<longrightarrow> (co s \<noteq> C_suspended \<longrightarrow> we_r (we s) = prepared_empty)
              \<and> (co s = C_tested \<longrightarrow> place (we s) (we_nx (we s)) = 0))"

definition each_ok :: "bool \<Rightarrow> nat \<Rightarrow> each_sys \<Rightarrow> bool" where
  "each_ok calm c s \<longleftrightarrow> co s \<noteq> C_astray \<and> places_ok s \<and> array_ok s \<and> consumer_ok calm c s"

definition each_inv :: "bool \<Rightarrow> nat \<Rightarrow> each_sys \<Rightarrow> bool" where
  "each_inv calm c s \<longleftrightarrow> (if co s = C_astray then \<not> calm else each_ok calm c s)"

lemma placesD:
  assumes "places_ok s"
  shows "unat (we_cnt (we s)) \<le> length (we_finished (we s))" "unat (we_cnt (we s)) + 2 \<le> 2 ^ 32"
    "unat (we_free (we s)) = card {i. i < we_cnt (we s) \<and> taken (sl s i) \<noteq> None}"
    "i < we_cnt (we s) \<Longrightarrow> taken (sl s i) = Some k \<Longrightarrow> k < we_free (we s)"
    "i < we_cnt (we s) \<Longrightarrow> j < we_cnt (we s) \<Longrightarrow> taken (sl s i) = Some k \<Longrightarrow>
       taken (sl s j) = Some k \<Longrightarrow> i = j"
  using assms unfolding places_ok_def by blast+

lemma place_in_range: "places_ok s \<Longrightarrow> k < we_cnt (we s) \<Longrightarrow> unat k < length (we_finished (we s))"
  using placesD(1) [of s] by (simp add: word_less_nat_alt)

text \<open>No index is taken for a mark.\<close>

lemma mark_less:
  assumes "places_ok s" and "i < we_cnt (we s)"
  shows "1 < i + 2" "i + 2 \<noteq> 0" "1 + i \<noteq> 0"
proof -
  have "unat i + 2 < 2 ^ 32" using placesD(2) [OF assms(1)] assms(2) by (simp add: word_less_nat_alt)
  then have "unat (i + 2) = unat i + 2" "unat (1 + i) = unat i + 1" by (simp_all add: unat_word_ariths)
  then show "1 < i + 2" "i + 2 \<noteq> 0" "1 + i \<noteq> 0"
    by (auto simp: word_less_nat_alt)
qed

lemma taken_simps [simp]:
  "taken Slot_pending = None" "taken (Slot_claimed k) = Some k" "taken (Slot_done k) = Some k"
  by (simp_all add: taken_def)

lemma unat_less: "unat (n :: uint32) < 2 ^ 32"
  using unsigned_less [of n, where ?'a = nat] by simp

lemma card_less_word: "card {i. i < (n :: uint32)} = unat n"
proof -
  have "bij_betw unat {i. i < n} {..<unat n}"
    unfolding bij_betw_def
  proof (intro conjI inj_onI set_eqI iffI)
    fix j assume "j \<in> {..<unat n}"
    then have "unat (of_nat j :: uint32) = j" using unat_less [of n] by (simp add: unat_of_nat take_bit_nat_eq_self)
    with \<open>j \<in> {..<unat n}\<close> show "j \<in> unat ` {i. i < n}"
      by (intro image_eqI [of _ _ "of_nat j"]) (simp_all add: word_less_nat_alt)
  qed (auto simp: word_less_nat_alt intro: unsigned_word_eqI)
  then show ?thesis using bij_betw_same_card by fastforce
qed

lemma free_le: "places_ok s \<Longrightarrow> we_free (we s) \<le> we_cnt (we s)"
  using card_mono [OF finite, of "{i. i < we_cnt (we s) \<and> taken (sl s i) \<noteq> None}" "{i. i < we_cnt (we s)}"]
  unfolding word_le_nat_alt by (auto simp only: placesD(3) card_less_word)

lemma free_less:
  assumes "places_ok s" and "sl s i = Slot_pending" and "i < we_cnt (we s)"
  shows "we_free (we s) < we_cnt (we s)"
proof -
  have "i \<in> {j. j < we_cnt (we s)} - {j. j < we_cnt (we s) \<and> taken (sl s j) \<noteq> None}"
    using assms(2,3) by simp
  then have "{j. j < we_cnt (we s) \<and> taken (sl s j) \<noteq> None} \<subset> {j. j < we_cnt (we s)}" by blast
  from psubset_card_mono [OF finite this] have "unat (we_free (we s)) < unat (we_cnt (we s))"
    unfolding placesD(3) [OF assms(1)] card_less_word .
  then show ?thesis unfolding word_less_nat_alt .
qed

lemma unat_next: "(a :: uint32) < b \<Longrightarrow> unat (a + 1) = Suc (unat a)"
  by (auto simp: unat_Suc_word)

lemma less_next: "(a :: uint32) < b \<Longrightarrow> k < a + 1 \<longleftrightarrow> k < a \<or> k = a"
  using unat_next [of a b] by (auto simp: word_less_nat_alt less_Suc_eq intro: unsigned_word_eqI)

lemma places_frame:
  assumes "places_ok s" and "length (we_finished (we t)) = length (we_finished (we s))"
    and "we_cnt (we t) = we_cnt (we s)" and "we_free (we t) = we_free (we s)"
    and "\<And>j. taken (sl t j) = taken (sl s j)"
  shows "places_ok t"
  using assms(1) unfolding places_ok_def assms(2-5) .

lemma arrayD:
  assumes "array_ok s"
  shows "i < we_cnt (we s) \<Longrightarrow> sl s i = Slot_done k \<Longrightarrow> place (we s) k = i + 2"
    "k < we_cnt (we s) \<Longrightarrow> 1 < place (we s) k \<Longrightarrow> \<exists>i < we_cnt (we s). sl s i = Slot_done k"
    "k < we_cnt (we s) \<Longrightarrow> place (we s) k = 1 \<longleftrightarrow> co s = C_suspended \<and> k = we_nx (we s)"
  using assms unfolding array_ok_def by blast+

lemma consumerD:
  assumes "consumer_ok calm c s"
  shows "we_nx (we s) \<le> we_cnt (we s)" "k < we_nx (we s) \<Longrightarrow> 1 < place (we s) k"
    "got s = map (\<lambda>k. we_finished (we s) ! k - 2) [0..<unat (we_nx (we s))]"
    "co s \<noteq> C_running \<Longrightarrow> we_nx (we s) < we_cnt (we s)"
    "co s = C_resumed \<Longrightarrow> 1 < place (we s) (we_nx (we s))"
    "co s = C_suspended \<Longrightarrow> we_r (we s) = prepared_of (Coro c)"
    "evs s = []" "calm \<Longrightarrow> co s \<noteq> C_suspended \<Longrightarrow> we_r (we s) = prepared_empty"
    "calm \<Longrightarrow> co s = C_tested \<Longrightarrow> place (we s) (we_nx (we s)) = 0"
  using assms unfolding consumer_ok_def by blast+

lemma each_okD:
  assumes "each_ok calm c s"
  shows "co s \<noteq> C_astray" "places_ok s" "array_ok s" "consumer_ok calm c s"
  using assms unfolding each_ok_def by blast+

lemma each_ok_claim:
  assumes "each_ok calm c s" and "sl s i = Slot_pending" and "i < we_cnt (we s)"
  shows "each_ok calm c (s\<lparr>we := (we s)\<lparr>we_free := we_free (we s) + 1\<rparr>,
           sl := (sl s)(i := Slot_claimed (we_free (we s)))\<rparr>)" (is "each_ok calm c ?t")
proof -
  note p = each_okD(2) [OF assms(1)]
  note free = free_less [OF p assms(2,3)]
  have "{j. j < we_cnt (we s) \<and> taken (sl ?t j) \<noteq> None}
      = insert i {j. j < we_cnt (we s) \<and> taken (sl s j) \<noteq> None}" using assms(3) by auto
  then have "card {j. j < we_cnt (we s) \<and> taken (sl ?t j) \<noteq> None} = unat (we_free (we s) + 1)"
    using placesD(3) [OF p] assms(2) unat_next [OF free] by simp
  moreover have "k < we_free (we s) + 1" if "j < we_cnt (we s)" "taken (sl ?t j) = Some k" for j k
    using placesD(4) [OF p, of j k] that by (auto simp: less_next [OF free] split: if_splits)
  moreover have "j = l" if "j < we_cnt (we s)" "l < we_cnt (we s)" "taken (sl ?t j) = Some k"
    "taken (sl ?t l) = Some k" for j l k
    using placesD(4) [OF p, of j k] placesD(4) [OF p, of l k] placesD(5) [OF p, of j l k] that
    by (auto split: if_splits)
  ultimately have "places_ok ?t" using placesD(1,2) [OF p] unfolding places_ok_def by simp
  moreover have "sl ?t j = Slot_done k \<longleftrightarrow> sl s j = Slot_done k" for j k using assms(2) by auto
  then have "array_ok ?t" using each_okD(3) [OF assms(1)] unfolding array_ok_def by simp
  moreover have "consumer_ok calm c ?t" using each_okD(4) [OF assms(1)] unfolding consumer_ok_def by simp
  ultimately show ?thesis using each_okD(1) [OF assms(1)] by (simp add: each_ok_def)
qed

text \<open>A claimed place was not written yet.\<close>

lemma claimed_place:
  assumes "each_ok calm c s" and "sl s i = Slot_claimed k" and "i < we_cnt (we s)"
  shows "k < we_cnt (we s)" "\<not> 1 < place (we s) k" "we_nx (we s) \<le> k"
proof -
  note p = each_okD(2) [OF assms(1)]
  show k: "k < we_cnt (we s)" using placesD(4) [OF p assms(3), of k] free_le [OF p] assms(2) by simp
  show f: "\<not> 1 < place (we s) k"
  proof
    assume "1 < place (we s) k"
    then obtain j where "j < we_cnt (we s)" "sl s j = Slot_done k"
      using arrayD(2) [OF each_okD(3) [OF assms(1)] k] by blast
    with placesD(5) [OF p assms(3), of j k] assms(2) show False by auto
  qed
  show "we_nx (we s) \<le> k" using consumerD(2) [OF each_okD(4) [OF assms(1)], of k] f by (meson not_le)
qed

lemma each_store_eq:
  assumes "each_ok calm c s" and "sl s i = Slot_claimed k" and "i < we_cnt (we s)"
    and "each_store k i (we s) = (pc, w')"
  defines "one \<equiv> place (we s) k = 1"
  shows "one \<longleftrightarrow> co s = C_suspended \<and> k = we_nx (we s)" "prepared_bool pc = one"
    "w' = (we s)\<lparr>we_finished := (we_finished (we s))[unat k := i + 2],
             we_r := (if one then prepared_empty else we_r (we s))\<rparr>"
proof -
  show o: "one \<longleftrightarrow> co s = C_suspended \<and> k = we_nx (we s)"
    unfolding one_def by (rule arrayD(3) [OF each_okD(3) [OF assms(1)] claimed_place(1) [OF assms(1-3)]])
  show "prepared_bool pc = one"
    "w' = (we s)\<lparr>we_finished := (we_finished (we s))[unat k := i + 2],
             we_r := (if one then prepared_empty else we_r (we s))\<rparr>"
    using assms(4) o consumerD(6) [OF each_okD(4) [OF assms(1)]] unfolding one_def
    by (cases "we s", auto simp: each_store_def handle_simps split: if_splits)+
qed

text \<open>Reading another place than the one that was written.\<close>

lemma other_place: "(k :: uint32) \<noteq> l \<Longrightarrow> xs[unat k := v] ! unat l = xs ! unat l"
  by (rule nth_list_update_neq) (auto intro: unsigned_word_eqI)

lemma array_ok_store:
  assumes "each_ok calm c s" and "sl s i = Slot_claimed k" and "i < we_cnt (we s)"
    and "one \<longleftrightarrow> co s = C_suspended \<and> k = we_nx (we s)"
  shows "array_ok (s\<lparr>we := (we s)\<lparr>we_finished := (we_finished (we s))[unat k := i + 2], we_r := r\<rparr>,
           sl := (sl s)(i := Slot_done k), co := (if one then C_resumed else co s)\<rparr>)" (is "array_ok ?t")
proof -
  note p = each_okD(2) [OF assms(1)] and a = each_okD(3) [OF assms(1)]
  note len = place_in_range [OF p claimed_place(1) [OF assms(1-3)]]
  have at: "place (we ?t) l = (if l = k then i + 2 else place (we s) l)" for l
    using len other_place [of k l] by (cases "l = k") auto
  show ?thesis
    unfolding array_ok_def at
  proof (intro conjI allI impI)
    fix j l assume "j < we_cnt (we ?t)" "sl ?t j = Slot_done l"
    moreover have "l \<noteq> k" if "j \<noteq> i" "j < we_cnt (we s)" "sl s j = Slot_done l"
      using placesD(5) [OF p assms(3), of j k] assms(2) that by auto
    ultimately show "(if l = k then i + 2 else place (we s) l) = j + 2"
      using arrayD(1) [OF a, of j l] by (auto split: if_splits)
  next
    fix l assume l: "l < we_cnt (we ?t)" "1 < (if l = k then i + 2 else place (we s) l)"
    show "\<exists>j < we_cnt (we ?t). sl ?t j = Slot_done l"
    proof (cases "l = k")
      case False
      with l obtain j where "j < we_cnt (we s)" "sl s j = Slot_done l"
        using arrayD(2) [OF a, of l] by auto
      moreover from this have "j \<noteq> i" using assms(2) by auto
      ultimately show ?thesis by (intro exI [of _ j]) simp
    qed (use assms(3) in auto)
  next
    fix l assume "l < we_cnt (we ?t)"
    then show "(if l = k then i + 2 else place (we s) l) = 1 \<longleftrightarrow> co ?t = C_suspended \<and> l = we_nx (we ?t)"
      using arrayD(3) [OF a, of l] assms(4) mark_less(3) [OF p assms(3)]
      by (cases "l = k"; cases "l = we_nx (we s)") simp_all
  qed
qed

lemma each_ok_store:
  assumes "each_ok calm c s" and "sl s i = Slot_claimed k" and "i < we_cnt (we s)"
    and "calm \<longrightarrow> co s \<noteq> C_tested" and "each_store k i (we s) = (pc, w')"
  shows "each_ok calm c (s\<lparr>we := w', sl := (sl s)(i := Slot_done k),
           co := (if prepared_bool pc then C_resumed else co s)\<rparr>)" (is "each_ok calm c ?t")
proof -
  note p = each_okD(2) [OF assms(1)] and c = each_okD(4) [OF assms(1)]
  note k = claimed_place [OF assms(1-3)] and eq = each_store_eq [OF assms(1-3,5)]
  let ?F = "(we_finished (we s))[unat k := i + 2]" and ?one = "place (we s) k = 1"
  have "places_ok ?t" using assms(2) by (intro places_frame [OF p]) (simp_all add: eq(3))
  moreover have "array_ok ?t" unfolding eq(2,3) by (rule array_ok_store [OF assms(1-3) eq(1)])
  moreover have "consumer_ok calm c ?t"
  proof -
    have "l \<noteq> k" if "l < we_nx (we s)" for l using k(3) that by auto
    then have "\<forall>l < we_nx (we s). 1 < ?F ! unat l" using consumerD(2) [OF c] by (metis other_place)
    moreover have "?F ! l = we_finished (we s) ! l" if "l < unat (we_nx (we s))" for l
      using k(3) that by (intro nth_list_update_neq) (simp add: word_le_nat_alt)
    then have "map (\<lambda>l. ?F ! l - 2) [0..<unat (we_nx (we s))]
        = map (\<lambda>l. we_finished (we s) ! l - 2) [0..<unat (we_nx (we s))]" by simp
    moreover have "1 < ?F ! unat (we_nx (we s))" if "co s = C_suspended \<and> k = we_nx (we s) \<or> co s = C_resumed"
      using consumerD(5) [OF c] mark_less(1) [OF p assms(3)] place_in_range [OF p k(1)] that
      by (cases "k = we_nx (we s)") (auto simp: other_place)
    ultimately show ?thesis
      using consumerD(1,3,4,6,7,8) [OF c] eq(1) assms(4) unfolding consumer_ok_def eq(2,3)
      by (cases "co s = C_suspended \<and> k = we_nx (we s)") simp_all
  qed
  ultimately show ?thesis using each_okD(1) [OF assms(1)] by (simp add: each_ok_def)
qed

text \<open>The consumer takes a result that is there.\<close>

lemma each_ok_get:
  assumes "each_ok calm c s" and "we_nx (we s) < we_cnt (we s)"
    and "1 < place (we s) (we_nx (we s))" and "co s \<noteq> C_suspended"
    and "w1 = (we s)\<lparr>we_r := r\<rparr>" and "each_await_resume w1 = (v, w')"
    and "calm \<Longrightarrow> r = prepared_empty"
  shows "each_ok calm c (s\<lparr>we := w', co := C_running, got := got s @ [v]\<rparr>)" (is "each_ok calm c ?t")
proof -
  note p = each_okD(2) [OF assms(1)] and a = each_okD(3) [OF assms(1)] and c = each_okD(4) [OF assms(1)]
  have "\<not> we_cnt w1 \<le> we_nx w1" using assms(2,5) by (simp add: not_le)
  with assms(6) have "(place w1 (we_nx w1) - 2, w1\<lparr>we_nx := we_nx w1 + 1\<rparr>) = (v, w')"
    by (simp only: each_await_resume_def if_False)
  then have v: "v = place (we s) (we_nx (we s)) - 2" "w' = (we s)\<lparr>we_nx := we_nx (we s) + 1, we_r := r\<rparr>"
    using assms(5) by auto
  have "we_nx (we s) + 1 \<le> we_cnt (we s)" by (rule inc_le [OF assms(2)])
  moreover have "\<forall>k < we_nx (we s) + 1. 1 < place (we s) k"
    using consumerD(2) [OF c] assms(3) less_next [OF assms(2)] by blast
  ultimately have "consumer_ok calm c ?t"
    using consumerD(3,7) [OF c] assms(7) unfolding consumer_ok_def v by (simp add: unat_next [OF assms(2)])
  moreover have "places_ok ?t" by (rule places_frame [OF p]) (simp_all add: v)
  moreover have "array_ok ?t" using a assms(4) unfolding array_ok_def v by simp
  ultimately show ?thesis by (simp add: each_ok_def)
qed

lemma each_ok_suspend:
  assumes "each_ok calm c s" and "co s = C_tested"
    and "each_set_r (Coro c) (we s) = ([], w1)" and "each_enter w1 = (True, w')"
  shows "each_ok calm c (s\<lparr>we := w', co := C_suspended\<rparr>)" (is "each_ok calm c ?t")
proof -
  note p = each_okD(2) [OF assms(1)] and a = each_okD(3) [OF assms(1)] and c = each_okD(4) [OF assms(1)]
  have zero: "place (we s) (we_nx (we s)) = 0" and w': "w' = (we s)\<lparr>we_r := prepared_of (Coro c),
      we_finished := (we_finished (we s))[unat (we_nx (we s)) := 1]\<rparr>"
    using assms(3,4) by (auto simp: each_set_r_def each_enter_def prepared_assign_def Let_def split: if_splits)
  have nx: "we_nx (we s) < we_cnt (we s)" using consumerD(4) [OF c] assms(2) by simp
  have at: "place w' k = (if k = we_nx (we s) then 1 else place (we s) k)" for k
    using place_in_range [OF p nx] other_place [of "we_nx (we s)" k] by (cases "k = we_nx (we s)") (auto simp: w')
  have "places_ok ?t" by (rule places_frame [OF p]) (simp_all add: w')
  moreover have "array_ok ?t"
    unfolding array_ok_def
  proof (intro conjI allI impI)
    fix i k assume "i < we_cnt (we ?t)" "sl ?t i = Slot_done k"
    then show "place (we ?t) k = i + 2"
      using arrayD(1) [OF a, of i k] zero mark_less(2) [OF p, of i]
      by (cases "k = we_nx (we s)") (simp_all add: at, simp_all add: w')
  next
    fix k assume "k < we_cnt (we ?t)" "1 < place (we ?t) k"
    then show "\<exists>i < we_cnt (we ?t). sl ?t i = Slot_done k"
      using arrayD(2) [OF a, of k] by (cases "k = we_nx (we s)") (simp_all add: at, simp_all add: w')
  next
    fix k assume "k < we_cnt (we ?t)"
    then show "place (we ?t) k = 1 \<longleftrightarrow> co ?t = C_suspended \<and> k = we_nx (we ?t)"
      using arrayD(3) [OF a, of k] assms(2) by (simp add: at) (simp add: w')
  qed
  moreover have "map (\<lambda>k. we_finished w' ! k - 2) [0..<unat (we_nx (we s))]
      = map (\<lambda>k. we_finished (we s) ! k - 2) [0..<unat (we_nx (we s))]" by (simp add: w')
  then have "consumer_ok calm c ?t"
    using consumerD(1-3,7,8) [OF c] nx assms(2) unfolding consumer_ok_def by (auto simp: at) (simp_all add: w')
  ultimately show ?thesis by (simp add: each_ok_def)
qed

lemma not_one: "each_ok calm c s \<Longrightarrow> k < we_cnt (we s) \<Longrightarrow> co s \<noteq> C_suspended \<Longrightarrow> place (we s) k \<noteq> 1"
  using arrayD(3) [OF each_okD(3)] by blast

lemma above_one: "(x :: uint32) \<noteq> 0 \<Longrightarrow> x \<noteq> 1 \<Longrightarrow> 1 < x"
  by (metis One_nat_def linorder_neqE_nat less_one unat_eq_0 unsigned_1 unsigned_word_eqI word_less_nat_alt)

lemma each_step_ok:
  "each_step calm c s t \<Longrightarrow> each_ok calm c s \<Longrightarrow> each_inv calm c t"
proof (induction rule: each_step.induct)
  case (claim s i k w')
  then have "each_ok calm c (s\<lparr>we := w', sl := (sl s)(i := Slot_claimed k)\<rparr>)"
    using each_ok_claim [of calm c s i] by (auto simp: each_claim_def)
  then show ?case using claim(3) by (simp add: each_inv_def)
next
  case (store s i k pc w')
  from each_ok_store [OF store.prems store(1,2,4,5)] store(3) show ?case by (simp add: each_inv_def)
next
  case (get_ready s v w')
  then have n: "we_nx (we s) < we_cnt (we s)" by (simp add: each_bool_def)
  have "1 < place (we s) (we_nx (we s))"
    using not_one [OF get_ready.prems n] get_ready(1,3) n by (intro above_one) (auto simp: each_await_ready_def)
  moreover have "calm \<Longrightarrow> we_r (we s) = prepared_empty"
    using get_ready(1) consumerD(8) [OF each_okD(4) [OF get_ready.prems]] by simp
  ultimately have "each_ok calm c (s\<lparr>we := w', co := C_running, got := got s @ [v]\<rparr>)"
    using each_ok_get [OF get_ready.prems n, of "we s" "we_r (we s)" v w'] get_ready(1,4) by simp
  moreover have "s\<lparr>we := w', got := got s @ [v]\<rparr> = s\<lparr>we := w', co := C_running, got := got s @ [v]\<rparr>"
    using get_ready(1) by (cases s) simp
  ultimately show ?case by (simp add: each_inv_def)
next
  case (not_ready s)
  note ok = each_okD [OF not_ready.prems]
  from ok(2) have "places_ok (s\<lparr>co := C_tested\<rparr>)" by (rule places_frame) simp_all
  with ok(3,4) not_ready(1,2) show ?case
    by (simp add: each_inv_def each_ok_def array_ok_def consumer_ok_def each_await_ready_def not_le)
next
  case (suspend s w1 w')
  from each_ok_suspend [OF suspend.prems suspend(1-3)] show ?case by (simp add: each_inv_def)
next
  case (no_suspend s w1 w2 v w')
  note c = each_okD(4) [OF no_suspend.prems]
  have n: "we_nx (we s) < we_cnt (we s)" using consumerD(4) [OF c] no_suspend(1) by simp
  have f: "place (we s) (we_nx (we s)) \<noteq> 0" and w2: "w2 = (we s)\<lparr>we_r := prepared_of (Coro c)\<rparr>"
    using no_suspend(2,3) by (auto simp: each_set_r_def each_enter_def prepared_assign_def Let_def split: if_splits)
  have "1 < place (we s) (we_nx (we s))"
    using not_one [OF no_suspend.prems n] no_suspend(1) f by (intro above_one) simp_all
  moreover have "\<not> calm" using consumerD(9) [OF c] no_suspend(1) f by blast
  ultimately show ?case
    using each_ok_get [OF no_suspend.prems n _ _ w2 no_suspend(4)] no_suspend(1) by (simp add: each_inv_def)
next
  case (self_resumed s w1 v w')
  have "we_r (we s) \<noteq> prepared_empty"
    using self_resumed(2) by (auto simp: each_set_r_def prepared_simps Let_def)
  then have "\<not> calm" using consumerD(8) [OF each_okD(4) [OF self_resumed.prems]] self_resumed(1) by auto
  then show ?case by (simp add: each_inv_def)
next
  case (get_resumed s v w')
  note c = each_okD(4) [OF get_resumed.prems]
  have "calm \<Longrightarrow> we_r (we s) = prepared_empty" using get_resumed(1) consumerD(8) [OF c] by simp
  then show ?case
    using each_ok_get [OF get_resumed.prems consumerD(4,5) [OF c], of "we s" "we_r (we s)" v w'] get_resumed(1,2)
    by (simp add: each_inv_def)
qed

text \<open>A run ends when the consumer is astray.\<close>

lemma astray_ends: "each_step calm c s t \<Longrightarrow> co s \<noteq> C_astray"
  by (erule each_step.cases) auto

interpretation each: step_invariant "each_init n" "each_step calm c" "each_inv calm c" for n calm c
proof
  fix s assume "each_init n s"
  then obtain cap where cap: "n \<le> cap" "cap + 2 \<le> 2 ^ 32"
    and s: "s = \<lparr>we = when_each_new cap n, sl = (\<lambda>_. Slot_pending), co = C_running, got = [], evs = []\<rparr>"
    by (auto simp: each_init_def)
  then have n: "unat (of_nat n :: uint32) = n" by (simp add: unat_of_nat take_bit_nat_eq_self)
  have zero: "place (when_each_new cap n) k = 0" if "k < of_nat n" for k
    using that cap(1) n by (simp add: when_each_new_def word_less_nat_alt)
  have "array_ok s" using zero by (simp add: s array_ok_def) (simp add: when_each_new_def)
  then show "each_inv calm c s"
    using cap n by (simp add: s each_inv_def each_ok_def places_ok_def consumer_ok_def when_each_new_def)
next
  show "each_inv calm c s \<Longrightarrow> each_step calm c s t \<Longrightarrow> each_inv calm c t" for s t
    using each_step_ok [of calm c s t] astray_ends [of calm c s t] by (simp add: each_inv_def)
qed

section \<open>Every completion is delivered once\<close>

lemma got_done:
  assumes "each_ok calm c s" and "k < we_nx (we s)"
  shows "place (we s) k - 2 < we_cnt (we s)" "sl s (place (we s) k - 2) = Slot_done k"
proof -
  note a = each_okD(3) [OF assms(1)] and c = each_okD(4) [OF assms(1)]
  have "k < we_cnt (we s)" using consumerD(1) [OF c] assms(2) by simp
  then obtain i where "i < we_cnt (we s)" "sl s i = Slot_done k"
    using arrayD(2) [OF a] consumerD(2) [OF c assms(2)] by blast
  with arrayD(1) [OF a this] show "place (we s) k - 2 < we_cnt (we s)"
    "sl s (place (we s) k - 2) = Slot_done k" by simp_all
qed

lemma got_done_nat:
  assumes "each_ok calm c s" and "k < unat (we_nx (we s))"
  shows "we_finished (we s) ! k - 2 < we_cnt (we s)" "sl s (we_finished (we s) ! k - 2) = Slot_done (of_nat k)"
proof -
  have k: "unat (of_nat k :: uint32) = k"
    using assms(2) unat_less [of "we_nx (we s)"] by (simp add: unat_of_nat take_bit_nat_eq_self)
  with assms(2) have "of_nat k < we_nx (we s)" by (simp add: word_less_nat_alt)
  from got_done [OF assms(1) this] show "we_finished (we s) ! k - 2 < we_cnt (we s)"
    "sl s (we_finished (we s) ! k - 2) = Slot_done (of_nat k)" unfolding k .
qed

lemma got_facts:
  assumes "each_ok calm c s"
  shows "distinct (got s)" "length (got s) = unat (we_nx (we s))"
    "i \<in> set (got s) \<Longrightarrow> i < we_cnt (we s) \<and> (\<exists>k. sl s i = Slot_done k)"
proof -
  have g: "got s = map (\<lambda>k. we_finished (we s) ! k - 2) [0..<unat (we_nx (we s))]"
    using consumerD(3) [OF each_okD(4) [OF assms]] .
  have "j = k" if "j < unat (we_nx (we s))" "k < unat (we_nx (we s))"
    "we_finished (we s) ! j - 2 = we_finished (we s) ! k - 2" for j k
  proof -
    have "(of_nat j :: uint32) = of_nat k"
      using got_done_nat(2) [OF assms that(1)] got_done_nat(2) [OF assms that(2)] that(3) by simp
    then have "unat (of_nat j :: uint32) = unat (of_nat k :: uint32)" by simp
    then show "j = k" using that(1,2) unat_less [of "we_nx (we s)"]
      by (simp add: unat_of_nat take_bit_nat_eq_self)
  qed
  then show "distinct (got s)" unfolding g by (simp add: distinct_map inj_on_def)
  show "length (got s) = unat (we_nx (we s))" unfolding g by simp
  show "i \<in> set (got s) \<Longrightarrow> i < we_cnt (we s) \<and> (\<exists>k. sl s i = Slot_done k)"
    using got_done_nat [OF assms] unfolding g by auto
qed

lemma each_reachable_ok:
  "reachable (each_init n) (each_step calm c) s \<Longrightarrow> co s \<noteq> C_astray \<Longrightarrow> each_ok calm c s"
  using each.reachable_inv [of n calm c s] by (simp add: each_inv_def)

text \<open>
  C13: \<^verbatim>\<open>when_each\<close> delivers every completion exactly once: in every interleaving of the
  completions (each of them two atomic accesses) with the consumer, as long as the consumer has
  not been resumed inside its own \<^verbatim>\<open>await_suspend\<close>, no index comes twice, only
  indices of complete operations come, and when all were taken, every operation was
  delivered.  A suspended consumer is registered at the place it waits for, with its own
  handle, so that the completion that gets this place resumes it: no wake-up is lost.  In a calm
  schedule, one in which nothing completes between the consumer's \<^verbatim>\<open>await_ready\<close> and
  its \<^verbatim>\<open>await_suspend\<close> (always the case in a single thread), the consumer is never
  resumed in this way, and \<^verbatim>\<open>_r\<close> is overwritten only when it is empty.
\<close>

theorem when_each_delivers_once:
  assumes "reachable (each_init n) (each_step calm c) s"
  shows "(calm \<longrightarrow> co s \<noteq> C_astray \<and> evs s = [] \<and> (co s \<noteq> C_suspended \<longrightarrow> we_r (we s) = prepared_empty))
       \<and> (co s \<noteq> C_astray \<longrightarrow>
            distinct (got s) \<and> set (got s) \<subseteq> {i. i < we_cnt (we s) \<and> (\<exists>k. sl s i = Slot_done k)}
          \<and> (we_nx (we s) = we_cnt (we s) \<longrightarrow> set (got s) = {i. i < we_cnt (we s)})
          \<and> (co s = C_suspended \<longrightarrow>
               place (we s) (we_nx (we s)) = 1 \<and> we_r (we s) = prepared_of (Coro c)))"
proof (cases "co s = C_astray")
  case True
  then show ?thesis using each.reachable_inv [OF assms] by (simp add: each_inv_def)
next
  case False
  note ok = each_reachable_ok [OF assms False]
  note g = got_facts [OF ok] and con = each_okD(4) [OF ok]
  have "set (got s) \<subseteq> {i. i < we_cnt (we s)}" using g(3) by auto
  moreover have "card (set (got s)) = unat (we_nx (we s))" using g(1,2) distinct_card by fastforce
  ultimately have "set (got s) = {i. i < we_cnt (we s)}" if "we_nx (we s) = we_cnt (we s)"
    using card_subset_eq [OF finite, of "set (got s)" "{i. i < we_cnt (we s)}"] card_less_word [of "we_cnt (we s)"] that
    by simp
  moreover have "place (we s) (we_nx (we s)) = 1 \<and> we_r (we s) = prepared_of (Coro c)" if "co s = C_suspended"
    using that arrayD(3) [OF each_okD(3) [OF ok], of "we_nx (we s)"] consumerD(4,6) [OF con] by simp
  ultimately show ?thesis using g(1,3) False consumerD(7,8) [OF con] by blast
qed

definition start_sys :: each_sys where
  "start_sys = \<lparr>we = when_each_new 2 2, sl = (\<lambda>_. Slot_pending), co = C_running, got = [], evs = []\<rparr>"

lemma new_two: "when_each_new 2 2
  = \<lparr>we_finished = [0, 0], we_free = 0, we_nx = 0, we_cnt = 2, we_r = prepared_empty\<rparr>"
  by (simp add: when_each_new_def numeral_2_eq_2)

lemma tested_reachable: "reachable (each_init 2) (each_step calm c) (start_sys\<lparr>co := C_tested\<rparr>)"
proof (rule reachable.next_step)
  show "reachable (each_init 2) (each_step calm c) start_sys"
    by (rule reachable.start) (auto simp: each_init_def start_sys_def)
  show "each_step calm c start_sys (start_sys\<lparr>co := C_tested\<rparr>)"
    by (rule each_step.not_ready) (simp_all add: start_sys_def new_two each_await_ready_def)
qed

text \<open>The consumer suspends, operation 1 completes and resumes it, and it takes the index.\<close>

definition served_sys :: "nat \<Rightarrow> each_sys" where
  "served_sys c =
     \<lparr>we = \<lparr>we_finished = [3, 0], we_free = 1, we_nx = 1, we_cnt = 2, we_r = prepared_empty\<rparr>,
      sl = (\<lambda>_. Slot_pending)(1 := Slot_done 0), co = C_running, got = [1], evs = []\<rparr>"

lemma served_reachable: "reachable (each_init 2) (each_step calm c) (served_sys c)"
proof -
  let ?s1 = "start_sys\<lparr>co := C_tested\<rparr>"
  let ?s2 = "?s1\<lparr>we := (we ?s1)\<lparr>we_r := prepared_of (Coro c), we_finished := [1, 0]\<rparr>, co := C_suspended\<rparr>"
  let ?s3 = "?s2\<lparr>we := (we ?s2)\<lparr>we_free := 1\<rparr>, sl := (sl ?s2)(1 := Slot_claimed 0)\<rparr>"
  let ?s4 = "?s3\<lparr>we := (we ?s3)\<lparr>we_finished := [3, 0], we_r := prepared_empty\<rparr>,
      sl := (sl ?s2)(1 := Slot_done 0), co := C_resumed\<rparr>"
  note d = start_sys_def new_two
  have 1: "each_step calm c ?s1 ?s2"
    using each_step.suspend [of ?s1 c "(we ?s1)\<lparr>we_r := prepared_of (Coro c)\<rparr>" "we ?s2" calm]
    by (simp add: d each_set_r_def each_enter_def prepared_simps)
  have 2: "each_step calm c ?s2 ?s3"
    by (rule each_step.claim) (simp_all add: d each_claim_def)
  have 3: "each_step calm c ?s3 ?s4"
    using each_step.store [of ?s3 1 0 calm "prepared_of (Coro c)" "we ?s4" c]
    by (simp add: d each_store_def prepared_simps)
  have 4: "each_step calm c ?s4 (served_sys c)"
    using each_step.get_resumed [of ?s4 1 "we (served_sys c)" calm c]
    by (simp add: d served_sys_def each_await_resume_def)
  show ?thesis
    using reachable.next_step [OF reachable.next_step [OF reachable.next_step [OF reachable.next_step
          [OF tested_reachable, OF 1], OF 2], OF 3], OF 4] .
qed

theorem when_each_delivers_once_witness:
  "distinct (got (served_sys 5)) \<and> set (got (served_sys 5)) = {1} \<and> evs (served_sys 5) = []"
  using when_each_delivers_once [OF served_reachable [of True 5]] by (simp add: served_sys_def)

section \<open>Resumed inside await\_suspend\<close>

text \<open>
  The consumer finds nothing ready, then operation 0 completes before it suspends:
  \<^verbatim>\<open>await_suspend\<close> returns false, the consumer goes on, and its handle stays in
  \<^verbatim>\<open>_r\<close>.
\<close>

definition raced_sys :: "nat \<Rightarrow> each_sys" where
  "raced_sys c =
     \<lparr>we = \<lparr>we_finished = [2, 0], we_free = 1, we_nx = 1, we_cnt = 2, we_r = prepared_of (Coro c)\<rparr>,
      sl = (\<lambda>_. Slot_pending)(0 := Slot_done 0), co = C_running, got = [0], evs = []\<rparr>"

lemma raced_reachable: "reachable (each_init 2) (each_step False c) (raced_sys c)"
proof -
  let ?s1 = "start_sys\<lparr>co := C_tested\<rparr>"
  let ?s2 = "?s1\<lparr>we := (we ?s1)\<lparr>we_free := 1\<rparr>, sl := (sl ?s1)(0 := Slot_claimed 0)\<rparr>"
  let ?s3 = "?s2\<lparr>we := (we ?s2)\<lparr>we_finished := [2, 0]\<rparr>, sl := (sl ?s1)(0 := Slot_done 0)\<rparr>"
  let ?w = "(we ?s3)\<lparr>we_r := prepared_of (Coro c)\<rparr>"
  note d = start_sys_def new_two
  have 1: "each_step False c ?s1 ?s2"
    by (rule each_step.claim) (simp_all add: d each_claim_def)
  have 2: "each_step False c ?s2 ?s3"
    using each_step.store [of ?s2 0 0 False prepared_empty "(we ?s2)\<lparr>we_finished := [2, 0]\<rparr>" c]
    by (simp add: d each_store_def prepared_simps)
  have 3: "each_step False c ?s3 (raced_sys c)"
    using each_step.no_suspend [of ?s3 c ?w ?w 0 "we (raced_sys c)" False]
    by (simp add: d raced_sys_def each_set_r_def each_enter_def each_await_resume_def prepared_simps)
  show ?thesis
    using reachable.next_step [OF reachable.next_step [OF reachable.next_step
          [OF tested_reachable, OF 1], OF 2], OF 3] .
qed

text \<open>
  C15: a completion between the consumer's \<^verbatim>\<open>await_ready\<close> and its
  \<^verbatim>\<open>await_suspend\<close> leaves a trap.  \<^verbatim>\<open>await_suspend\<close> returns false and the consumer
  goes on running, but its handle stays in \<^verbatim>\<open>_r\<close>.  The next \<^verbatim>\<open>await_suspend\<close>
  overwrites \<^verbatim>\<open>_r\<close>, and the destructor of the old \<^verbatim>\<open>prepared_coro\<close> resumes the
  consumer inside this very call, with nothing complete: \<^verbatim>\<open>await_resume\<close> reads 0, returns
  the index \<open>2 ^ 32 - 2\<close> and steps on.  Of two operations the consumer has then got the
  first and an index that does not exist; the object reports that none is left, and the
  second one is still pending, so that the destructor does not wait for it either.
\<close>

theorem when_each_loses_operation:
  "\<exists>s. reachable (each_init 2) (each_step False c) s \<and> evs s = [Resume c]
     \<and> got s = [0, 4294967294] \<and> \<not> each_bool (we s) \<and> sl s 1 = Slot_pending"
proof -
  let ?s = "(raced_sys c)\<lparr>co := C_tested\<rparr>"
  let ?t = "?s\<lparr>we := (we ?s)\<lparr>we_nx := 2\<rparr>, co := C_astray, got := [0, 4294967294], evs := [Resume c]\<rparr>"
  have "each_step False c (raced_sys c) ?s"
    by (rule each_step.not_ready) (simp_all add: raced_sys_def each_await_ready_def word_le_nat_alt)
  with raced_reachable have r: "reachable (each_init 2) (each_step False c) ?s" by (rule reachable.next_step)
  have "each_step False c ?s ?t"
    using each_step.self_resumed [of ?s c "we ?s" 4294967294 "(we ?s)\<lparr>we_nx := 2\<rparr>" False]
    by (simp add: raced_sys_def each_set_r_def each_await_resume_def prepared_simps word_le_nat_alt)
  with r have "reachable (each_init 2) (each_step False c) ?t" by (rule reachable.next_step)
  then show ?thesis by (intro exI [of _ ?t]) (simp add: raced_sys_def each_bool_def)
qed

end
