(* ===== verification/Sync_Await.thy ===== *)
theory Sync_Await
  imports Await_Facts When_Each
begin

text \<open>
  \<^verbatim>\<open>coro_frame\<close>, the objects that mimic a coroutine, with the two frames that turn a
  resumption into a signal: \<^verbatim>\<open>sync_frame\<close> behind \<^verbatim>\<open>sync_await\<close> and
  \<^verbatim>\<open>awaitable::wait\<close> (\<^verbatim>\<open>coroutine.h\<close>), and \<^verbatim>\<open>stop_source_coro_frame\<close> behind
  \<^verbatim>\<open>scheduler::await\<close> (\<^verbatim>\<open>coro_scheduler.h\<close>).
\<close>

section \<open>coro\_frame\<close>

text \<open>
  A frame is known by its address.  Its \<^verbatim>\<open>resume\<close> pointer is null after
  \<^verbatim>\<open>set_done\<close>; its \<^verbatim>\<open>destroy\<close> pointer never is.  The members \<open>do_resume\<close> and
  \<open>do_destroy\<close> are those of the inheriting class, whose fields extend the record.
\<close>

record coro_frame =
  cf_address :: nat
  cf_resume :: bool

definition get_handle :: "'f coro_frame_scheme \<Rightarrow> coro_handle" where
  "get_handle f = Coro (cf_address f)"

definition set_done :: "'f coro_frame_scheme \<Rightarrow> 'f coro_frame_scheme" where
  "set_done f = f\<lparr>cf_resume := False\<rparr>"

definition frame_resume ::
    "('f coro_frame_scheme \<Rightarrow> 'f coro_frame_scheme) \<Rightarrow> 'f coro_frame_scheme
     \<Rightarrow> cpp_error + 'f coro_frame_scheme" where
  "frame_resume do_resume f = (if cf_resume f then Inr (do_resume f) else Inl Null_dereference)"

definition frame_destroy ::
    "bool \<Rightarrow> ('f coro_frame_scheme \<Rightarrow> 'f coro_frame_scheme) \<Rightarrow> ('f coro_frame_scheme \<Rightarrow> 'f coro_frame_scheme)
     \<Rightarrow> 'f coro_frame_scheme \<Rightarrow> 'f coro_frame_scheme" where
  "frame_destroy destroy_is_invalid do_resume do_destroy f =
     (if destroy_is_invalid then do_resume f else do_destroy f)"

text \<open>What the events of a trace do to a frame whose \<^verbatim>\<open>destroy\<close> is invalid.\<close>

fun frame_events ::
    "('f coro_frame_scheme \<Rightarrow> 'f coro_frame_scheme) \<Rightarrow> 'f coro_frame_scheme \<Rightarrow> coro_event list
     \<Rightarrow> cpp_error + 'f coro_frame_scheme" where
  "frame_events do_resume f [] = Inr f"
| "frame_events do_resume f (ev # es) =
     (if uses (cf_address f) ev then
        (case ev of
           Destroy _ \<Rightarrow> frame_events do_resume (frame_destroy True do_resume do_resume f) es
         | _ \<Rightarrow> (case frame_resume do_resume f of Inl e \<Rightarrow> Inl e | Inr f' \<Rightarrow> frame_events do_resume f' es))
      else frame_events do_resume f es)"

section \<open>sync\_frame, wait and sync\_await\<close>

record sync_frame = coro_frame +
  sf_signal :: bool

definition sync_frame_new :: "nat \<Rightarrow> sync_frame" where
  "sync_frame_new a = \<lparr>cf_address = a, cf_resume = True, sf_signal = False\<rparr>"

definition sync_do_resume :: "sync_frame \<Rightarrow> sync_frame" where
  "sync_do_resume f = f\<lparr>sf_signal := True\<rparr>"

definition sync_reset :: "sync_frame \<Rightarrow> sync_frame" where
  "sync_reset f = f\<lparr>sf_signal := False\<rparr>"

text \<open>\<^verbatim>\<open>wait()\<close> returns as soon as the signal is set.\<close>

definition sync_wait_returns :: "sync_frame \<Rightarrow> bool" where
  "sync_wait_returns f = sf_signal f"

text \<open>
  \<^verbatim>\<open>awaitable::wait\<close> up to the blocking call; no frame is returned when it does not block.
  The frame at \<open>a\<close> is on the stack of the waiting thread.
\<close>

definition awt_wait ::
    "'v callbacks \<Rightarrow> awt_ptr \<Rightarrow> nat \<Rightarrow> 'v store \<Rightarrow> cpp_error + (sync_frame option \<times> 'v store)" where
  "awt_wait call p a s =
     (if \<not> await_ready p s then
        (case await_suspend call p (get_handle (sync_frame_new a)) s of
           Inl e \<Rightarrow> Inl e
         | Inr (h, s1) \<Rightarrow> Inr (Some (sync_frame_new a), emit (handle_resume h) s1))
      else Inr (None, s))"

text \<open>\<^verbatim>\<open>await()\<close> and the conversion to the value, once \<^verbatim>\<open>wait\<close> has returned.\<close>

definition awt_await :: "awt_ptr \<Rightarrow> 'v store \<Rightarrow> exn + 'v" where
  "awt_await p s = await_resume p s"

text \<open>\<^verbatim>\<open>coroutine::await\<close> moves the coroutine into a local awaitable at \<open>p\<close> and waits on it.\<close>

definition coroutine_await ::
    "'v callbacks \<Rightarrow> awt_ptr \<Rightarrow> nat \<Rightarrow> nat option \<Rightarrow> 'v store
     \<Rightarrow> nat option \<times> (cpp_error + (sync_frame option \<times> 'v store))" where
  "coroutine_await call p a c s =
     (let (c', left) = coroutine_move c in (left, awt_wait call p a (construct p (Coroutine c') s)))"

text \<open>The call of \<^verbatim>\<open>await_suspend\<close> in \<^verbatim>\<open>sync_await\<close>, by its return type.\<close>

fun sync_suspend :: "'s await_suspend_fn \<Rightarrow> sync_frame \<Rightarrow> 's \<Rightarrow> (cpp_error + sync_frame) \<times> 's" where
  "sync_suspend (Suspend_void f) fr s = (Inr fr, f (get_handle fr) s)"
| "sync_suspend (Suspend_bool f) fr s =
     (let (b, s') = f (get_handle fr) s in (Inr (if \<not> b then set_done fr else fr), s'))"
| "sync_suspend (Suspend_handle f) fr s =
     (let (r, s') = f (get_handle fr) s
      in (frame_events sync_do_resume fr (handle_resume r), s'))"

datatype 'v sync_phase = Sy_start | Sy_tested | Sy_waits | Sy_returned "exn + 'v" | Sy_crashed cpp_error

record ('s, 'v) sync_sys =
  sy_awt :: 's
  sy_frame :: sync_frame
  sy_phase :: "'v sync_phase"

text \<open>
  A thread in \<^verbatim>\<open>sync_await\<close>, whose awaiter is shared with other threads: they change its
  state (\<open>env\<close>) and resume the frame, or destroy it, which runs \<^verbatim>\<open>do_resume\<close> as well.
  The handle of a frame that is marked as done was refused, so no operation holds it to destroy
  it; that a thread resumes it all the same is a step, a call of a null pointer.
\<close>

inductive sync_step ::
    "('s \<Rightarrow> bool) \<Rightarrow> 's await_suspend_fn \<Rightarrow> ('s \<Rightarrow> (exn + 'v) \<times> 's) \<Rightarrow> ('s \<Rightarrow> 's \<Rightarrow> bool)
     \<Rightarrow> ('s, 'v) sync_sys \<Rightarrow> ('s, 'v) sync_sys \<Rightarrow> bool"
  for ready :: "'s \<Rightarrow> bool" and awt :: "'s await_suspend_fn" and resume :: "'s \<Rightarrow> (exn + 'v) \<times> 's"
    and env :: "'s \<Rightarrow> 's \<Rightarrow> bool" where
  is_ready:
    "sy_phase s = Sy_start \<Longrightarrow> ready (sy_awt s) \<Longrightarrow> resume (sy_awt s) = (v, w) \<Longrightarrow>
     sync_step ready awt resume env s (s\<lparr>sy_awt := w, sy_phase := Sy_returned v\<rparr>)"
| not_ready:
    "sy_phase s = Sy_start \<Longrightarrow> \<not> ready (sy_awt s) \<Longrightarrow>
     sync_step ready awt resume env s (s\<lparr>sy_phase := Sy_tested\<rparr>)"
| suspends:
    "sy_phase s = Sy_tested \<Longrightarrow> sync_suspend awt (sy_frame s) (sy_awt s) = (Inr fr, w) \<Longrightarrow>
     sync_step ready awt resume env s (s\<lparr>sy_awt := w, sy_frame := fr, sy_phase := Sy_waits\<rparr>)"
| suspend_crashes:
    "sy_phase s = Sy_tested \<Longrightarrow> sync_suspend awt (sy_frame s) (sy_awt s) = (Inl e, w) \<Longrightarrow>
     sync_step ready awt resume env s (s\<lparr>sy_awt := w, sy_phase := Sy_crashed e\<rparr>)"
| others:
    "env (sy_awt s) w \<Longrightarrow> sync_step ready awt resume env s (s\<lparr>sy_awt := w\<rparr>)"
| resumed:
    "sy_phase s = Sy_waits \<Longrightarrow> frame_resume sync_do_resume (sy_frame s) = Inr fr \<Longrightarrow>
     sync_step ready awt resume env s (s\<lparr>sy_frame := fr\<rparr>)"
| destroyed:
    "sy_phase s = Sy_waits \<Longrightarrow> cf_resume (sy_frame s) \<Longrightarrow>
     frame_destroy True sync_do_resume sync_do_resume (sy_frame s) = fr \<Longrightarrow>
     sync_step ready awt resume env s (s\<lparr>sy_frame := fr\<rparr>)"
| crashes:
    "sy_phase s = Sy_waits \<Longrightarrow> frame_resume sync_do_resume (sy_frame s) = Inl e \<Longrightarrow>
     sync_step ready awt resume env s (s\<lparr>sy_phase := Sy_crashed e\<rparr>)"
| wakes:
    "sy_phase s = Sy_waits \<Longrightarrow> sync_wait_returns (sy_frame s) \<Longrightarrow> resume (sy_awt s) = (v, w) \<Longrightarrow>
     sync_step ready awt resume env s (s\<lparr>sy_awt := w, sy_phase := Sy_returned v\<rparr>)"


section \<open>stop\_source\_coro\_frame and scheduler::await\<close>

record stop_source_coro_frame = coro_frame +
  stop_requested :: bool

definition stop_do_resume :: "stop_source_coro_frame \<Rightarrow> stop_source_coro_frame" where
  "stop_do_resume f = f\<lparr>stop_requested := True\<rparr>"

definition stop_frame_new :: "nat \<Rightarrow> stop_source_coro_frame" where
  "stop_frame_new a = \<lparr>cf_address = a, cf_resume = True, stop_requested = False\<rparr>"

text \<open>
  \<^verbatim>\<open>scheduler::await\<close> up to \<^verbatim>\<open>run_thread\<close>: the prepared coroutine that
  \<^verbatim>\<open>call_await_suspend\<close> returns is dropped, which resumes it.  No frame is returned when
  the awaiter is ready.
\<close>

definition scheduler_await ::
    "('s \<Rightarrow> bool) \<Rightarrow> 's await_suspend_fn \<Rightarrow> nat \<Rightarrow> 's
     \<Rightarrow> (stop_source_coro_frame \<times> coro_event list) option \<times> 's" where
  "scheduler_await ready awt a s =
     (if \<not> ready s then
        let f = stop_frame_new a; (pc, s') = call_await_suspend awt (get_handle f) s
        in (Some (f, prepared_dtor pc), s')
      else (None, s))"

section \<open>Properties\<close>

lemma frame_events_other:
  "\<forall>ev \<in> set es. \<not> uses (cf_address f) ev \<Longrightarrow> frame_events do_resume f (es @ es') = frame_events do_resume f es'"
  by (induction es) auto

lemma sync_resume_once:
  "cf_resume f \<Longrightarrow> frame_events sync_do_resume f [Resume (cf_address f)] = Inr (f\<lparr>sf_signal := True\<rparr>)"
  by (simp add: frame_resume_def sync_do_resume_def)

text \<open>
  C29: a thread that waits on an awaitable whose operation keeps the result object for later
  is not released before the result object is used or destroyed; whatever is then done with
  the result object releases it, its frame being resumed exactly once, and \<^verbatim>\<open>await()\<close> gives
  the value or the exception that was set, or the cancellation.
\<close>

theorem wait_gets_result:
  assumes "state_of s p = Callback cb"
    and "call cb (Some p) (set_owner p (Coro a) s) = (prepared_empty, set_owner p (Coro a) s)"
  shows "\<exists>f s1. awt_wait call p a s = Inr (Some f, s1) \<and> \<not> sync_wait_returns f \<and> trace s1 = trace s
     \<and> (let s2 = result_life (Some p) xs s1
        in trace s2 = trace s @ [Resume a]
         \<and> (\<exists>f'. frame_events sync_do_resume f [Resume a] = Inr f' \<and> sync_wait_returns f')
         \<and> awt_await p s2 = read_state (life_state (cur_exn s) xs))"
proof -
  let ?f = "sync_frame_new a" and ?s = "set_owner p (Coro a) s"
  have wait: "awt_wait call p a s = Inr (Some ?f, ?s)"
    using assms
    by (simp add: awt_wait_def await_ready_def await_suspend_def get_handle_def sync_frame_new_def prepared_simps)
  have life: "result_life (Some p) xs ?s = emit [Resume a] (resolved p (life_state (cur_exn s) xs) ?s)"
    using result_life_resolves [of ?s p xs] assms(1) by simp
  have "frame_events sync_do_resume ?f [Resume a] = Inr (?f\<lparr>sf_signal := True\<rparr>)"
    using sync_resume_once [of ?f] by (simp add: sync_frame_new_def)
  then show ?thesis
    by (intro exI [of _ ?f] exI [of _ ?s])
       (simp add: wait life awt_await_def await_resume_eq sync_wait_returns_def sync_frame_new_def
          del: frame_events.simps)
qed

theorem wait_gets_result_witness:
  "\<exists>f s1. awt_wait (\<lambda>_ _ s. (prepared_empty, s)) 1 9 pending_store = Inr (Some f, s1)
     \<and> awt_await 1 (result_life (Some 1) [R_call (Inr 42)] s1) = Inr 42"
  using wait_gets_result [of pending_store 1 0 "\<lambda>_ _ s. (prepared_empty, s)" 9 "[R_call (Inr 42)]"]
  by (auto simp: pending_store_def life_state_def Let_def)









text \<open>\<^verbatim>\<open>scheduler::await\<close> drops the prepared coroutine instead, which ends its loop.\<close>

lemma scheduler_await_refused_stops:
  assumes "\<not> ready s" and "f (Coro a) s = (False, s')"
  shows "\<exists>es. scheduler_await ready (Suspend_bool f) a s = (Some (stop_frame_new a, es), s')
     \<and> (\<exists>f'. frame_events stop_do_resume (stop_frame_new a) es = Inr f' \<and> stop_requested f')"
  using assms
  by (simp add: scheduler_await_def get_handle_def stop_frame_new_def prepared_simps frame_resume_def
      stop_do_resume_def Let_def)

end
