(* ===== verification/When_All.thy ===== *)
theory When_All
  imports Prepared_Coro
begin

text \<open>
  \<^verbatim>\<open>when_all\<close> of \<^verbatim>\<open>coroutine.h\<close>: an atomic counter that the awaited operations
  count down, and the coroutine that the last one resumes.  The operations, and the system of
  an owner and concurrent completions.
\<close>

section \<open>Operations\<close>

text \<open>The struct \<^verbatim>\<open>counter\<close>; a fresh object counts its owner.\<close>

record when_all =
  wa_count :: uint32
  wa_r :: prepared_coro

definition when_all_new :: when_all where
  "when_all_new = \<lparr>wa_count = 1, wa_r = prepared_empty\<rparr>"

text \<open>\<^verbatim>\<open>counter::do_resume\<close>: the atomic decrement reads the old value.\<close>

definition counter_do_resume :: "when_all \<Rightarrow> prepared_coro \<times> when_all" where
  "counter_do_resume w =
     (let old = wa_count w; w1 = w\<lparr>wa_count := old - 1\<rparr> in
      if old = 1 then (wa_r w1, w1\<lparr>wa_r := prepared_empty\<rparr>) else (prepared_empty, w1))"

text \<open>
  \<^verbatim>\<open>add(awt)\<close>, for an awaiter with the answer \<open>ready\<close> and the function \<open>sus\<close>; \<open>h\<close>
  is the handle of the counter.
\<close>

definition when_all_add ::
    "bool \<Rightarrow> 's await_suspend_fn \<Rightarrow> coro_handle \<Rightarrow> 's \<Rightarrow> when_all \<Rightarrow> prepared_coro \<times> 's \<times> when_all" where
  "when_all_add ready sus h s w =
     (if \<not> ready then
        let w1 = w\<lparr>wa_count := wa_count w + 1\<rparr>; (pc, s') = call_await_suspend sus h s
        in (pc, s', w1)
      else (prepared_empty, s, w))"

definition when_all_await_ready :: "when_all \<Rightarrow> bool" where
  "when_all_await_ready w \<longleftrightarrow> wa_count w \<le> 1"

text \<open>The events are those of the assignment to the member \<^verbatim>\<open>r\<close>.\<close>

definition when_all_await_suspend :: "coro_handle \<Rightarrow> when_all \<Rightarrow> coro_handle \<times> coro_event list \<times> when_all" where
  "when_all_await_suspend me w =
     (let (r, ev) = prepared_assign (wa_r w) (prepared_of me);
          (pc, w1) = counter_do_resume (w\<lparr>wa_r := r\<rparr>)
      in (fst (symmetric_transfer pc), ev, w1))"

definition when_all_reset :: "when_all \<Rightarrow> bool \<times> when_all" where
  "when_all_reset w = (if wa_count w = 0 then (True, w\<lparr>wa_count := 1\<rparr>) else (False, w))"

section \<open>An owner and the operations it waits for\<close>

text \<open>
  \<open>pend\<close> counts the added operations that are not complete; \<open>sus\<close> tells that the owner
  called \<^verbatim>\<open>await_suspend\<close>; \<open>out\<close> is the list of handles that came out for resumption.
\<close>

record all_sys =
  wa :: when_all
  pend :: nat
  sus :: bool
  out :: "coro_handle list"

text \<open>
  The owner adds operations and suspends at most once; completions come at any time from any
  thread.  The bound on the number of operations keeps the 32-bit counter from wrapping.
\<close>

inductive all_step :: "coro_handle \<Rightarrow> all_sys \<Rightarrow> all_sys \<Rightarrow> bool" for me :: coro_handle where
  add:
    "\<not> sus s \<Longrightarrow> pend s < 2 ^ 32 - 2 \<Longrightarrow>
     when_all_add False (awt :: unit await_suspend_fn) h () (wa s) = (pc, u, w') \<Longrightarrow>
     all_step me s (s\<lparr>wa := w', pend := Suc (pend s)\<rparr>)"
| complete:
    "pend s = Suc n \<Longrightarrow> counter_do_resume (wa s) = (pc, w') \<Longrightarrow>
     all_step me s (s\<lparr>wa := w', pend := n, out := (if prepared_bool pc then out s @ [pc_coro pc] else out s)\<rparr>)"
| suspend:
    "\<not> sus s \<Longrightarrow> when_all_await_suspend me (wa s) = (h, ev, w') \<Longrightarrow>
     all_step me s (s\<lparr>wa := w', sus := True, out := (if h \<noteq> Noop_coroutine then out s @ [h] else out s)\<rparr>)"

definition all_init :: "all_sys \<Rightarrow> bool" where
  "all_init s \<longleftrightarrow> s = \<lparr>wa = when_all_new, pend = 0, sus = False, out = []\<rparr>"

definition all_inv :: "coro_handle \<Rightarrow> all_sys \<Rightarrow> bool" where
  "all_inv me s \<longleftrightarrow>
     unat (wa_count (wa s)) = pend s + (if sus s then 0 else 1) \<and> pend s < 2 ^ 32 - 1
     \<and> wa_r (wa s) = (if sus s \<and> 0 < pend s then prepared_of me else prepared_empty)
     \<and> out s = (if sus s \<and> pend s = 0 then [me] else [])"

lemma unat_minus_word: "unat (w :: uint32) = Suc n \<Longrightarrow> unat (w - 1) = n"
  by (metis diff_Suc_1 unat_0 unat_minus_one nat.simps(3))

lemma unat_plus_word: "unat (w :: uint32) = n \<Longrightarrow> Suc n < 2 ^ 32 \<Longrightarrow> unat (w + 1) = Suc n"
  by (simp add: unat_word_ariths)

lemma counter_do_resume_unat:
  assumes "unat (wa_count w) = Suc n"
  shows "counter_do_resume w =
     (if n = 0 then wa_r w else prepared_empty,
      w\<lparr>wa_count := wa_count w - 1, wa_r := (if n = 0 then prepared_empty else wa_r w)\<rparr>)"
proof -
  have "wa_count w = 1 \<longleftrightarrow> n = 0" using assms by (simp add: word_unat_eq_iff)
  then show ?thesis by (cases w) (simp add: counter_do_resume_def Let_def)
qed

lemma all_step_inv:
  assumes "all_step (Coro c) s t" and "all_inv (Coro c) s"
  shows "all_inv (Coro c) t"
  using assms
proof (induction rule: all_step.induct)
  case (add s awt h pc u w')
  then have "w' = (wa s)\<lparr>wa_count := wa_count (wa s) + 1\<rparr>"
    by (auto simp: when_all_add_def Let_def split: prod.splits)
  with add show ?case using unat_plus_word [of "wa_count (wa s)"] by (auto simp: all_inv_def)
next
  case (complete s n pc w')
  then obtain k where "unat (wa_count (wa s)) = Suc k" and k: "k = n + (if sus s then 0 else 1)"
    by (auto simp: all_inv_def)
  from counter_do_resume_unat [OF this(1)] unat_minus_word [OF this(1)] k complete show ?case
    by (auto simp: all_inv_def prepared_simps)
next
  case (suspend s h ev w')
  then have u: "unat (wa_count ((wa s)\<lparr>wa_r := prepared_of (Coro c)\<rparr>)) = Suc (pend s)"
    by (simp add: all_inv_def)
  from counter_do_resume_unat [OF u] unat_minus_word [of "wa_count (wa s)" "pend s"] suspend show ?case
    by (auto simp: all_inv_def when_all_await_suspend_def prepared_simps split: if_splits)
qed

interpretation all: step_invariant all_init "all_step (Coro c)" "all_inv (Coro c)" for c
proof
  show "all_init s \<Longrightarrow> all_inv (Coro c) s" for s
    by (simp add: all_init_def all_inv_def when_all_new_def)
  show "all_inv (Coro c) s \<Longrightarrow> all_step (Coro c) s t \<Longrightarrow> all_inv (Coro c) t" for s t
    by (rule all_step_inv)
qed

text \<open>
  C16: \<^verbatim>\<open>when_all\<close> resumes its owner exactly once.  For any number of operations, added
  before the owner suspends, whose completions interleave in any way with the additions and
  with the suspension: the owner's handle comes out when, and only when, the owner has
  suspended and the last operation is complete, and nothing else ever comes out.  While the
  owner has not suspended, \<^verbatim>\<open>await_ready\<close> tells exactly whether all are complete.
\<close>

theorem when_all_resumes_once:
  assumes "reachable all_init (all_step (Coro c)) s"
  shows "out s = (if sus s \<and> pend s = 0 then [Coro c] else [])
       \<and> (\<not> sus s \<longrightarrow> (when_all_await_ready (wa s) \<longleftrightarrow> pend s = 0))
       \<and> (sus s \<and> pend s = 0 \<longrightarrow> when_all_reset (wa s) = (True, when_all_new))"
proof -
  have i: "all_inv (Coro c) s" using all.reachable_inv assms by blast
  then have "wa_count (wa s) = 0" "wa_r (wa s) = prepared_empty" if "sus s" "pend s = 0"
    using that by (auto simp: all_inv_def unat_eq_0)
  then have "when_all_reset (wa s) = (True, when_all_new)" if "sus s" "pend s = 0"
    using that by (cases "wa s") (auto simp: when_all_reset_def when_all_new_def)
  with i show ?thesis
    by (auto simp: all_inv_def when_all_await_ready_def word_le_nat_alt)
qed

theorem when_all_resumes_once_witness:
  "\<exists>s. reachable all_init (all_step (Coro 5)) s \<and> sus s \<and> pend s = 0 \<and> out s = [Coro 5]"
proof -
  let ?s0 = "\<lparr>wa = when_all_new, pend = 0, sus = False, out = []\<rparr>"
  let ?s1 = "?s0\<lparr>wa := \<lparr>wa_count = 2, wa_r = prepared_empty\<rparr>, pend := 1\<rparr>"
  let ?s2 = "?s1\<lparr>wa := \<lparr>wa_count = 1, wa_r = prepared_of (Coro 5)\<rparr>, sus := True\<rparr>"
  let ?s3 = "?s2\<lparr>wa := \<lparr>wa_count = 0, wa_r = prepared_empty\<rparr>, pend := 0, out := [Coro 5]\<rparr>"
  have "reachable all_init (all_step (Coro 5)) ?s0" by (rule reachable.start) (simp add: all_init_def)
  moreover have "all_step (Coro 5) ?s0 ?s1"
    using all_step.add [of ?s0 "Suspend_void (\<lambda>_ x. x)" Null_handle prepared_empty "()" _ "Coro 5"]
    by (simp add: when_all_add_def when_all_new_def)
  moreover have "all_step (Coro 5) ?s1 ?s2"
    using all_step.suspend [of ?s1 "Coro 5"]
    by (simp add: when_all_await_suspend_def counter_do_resume_def prepared_simps)
  moreover have "all_step (Coro 5) ?s2 ?s3"
    using all_step.complete [of ?s2 0 _ _ "Coro 5"]
    by (simp add: counter_do_resume_def prepared_simps)
  ultimately have "reachable all_init (all_step (Coro 5)) ?s3" by (meson reachable.next_step)
  from when_all_resumes_once [OF this] this show ?thesis by (intro exI [of _ ?s3]) simp
qed

end
