(* ===== verification/When_Join.thy ===== *)
theory When_Join
  imports Sync_Await When_All
begin

text \<open>
  The constructors and destructors of \<^verbatim>\<open>when_all\<close> and \<^verbatim>\<open>when_each\<close>
  (\<^verbatim>\<open>coroutine.h\<close>): the awaiters are registered one after the other, while they and the
  coroutines that a registration starts may already complete some of them, and the destructor
  joins those that were not collected.
\<close>

section \<open>Operations\<close>

text \<open>
  An awaiter as the constructors see it; \<open>'s\<close> is the state the awaiters share.  A call of
  \<^verbatim>\<open>await_suspend\<close> appends to the list in its state the addresses of the frames it
  resumes before it returns (a closure that sets its result at once), in their order.
\<close>

record 's awaiter =
  aw_ready :: "'s \<Rightarrow> bool"
  aw_suspend :: "(nat list \<times> 's) await_suspend_fn"

text \<open>
  The coroutines outside of the object: what the one at an address does when it is resumed, with
  the addresses of the frames it resumes in turn (a coroutine that runs to its end).
\<close>

type_synonym 's outside = "nat \<Rightarrow> 's \<Rightarrow> nat list \<times> 's"

text \<open>
  The frames that are resumed when the result of \<^verbatim>\<open>add\<close> is dropped: it holds one of the
  object's own frames, or a coroutine of the outside, which runs before the constructor goes on.
\<close>

definition dropped :: "(nat \<Rightarrow> bool) \<Rightarrow> 's outside \<Rightarrow> prepared_coro \<Rightarrow> 's \<Rightarrow> nat list \<times> 's" where
  "dropped own ext pc s =
     (case pc_coro pc of
        Coro a \<Rightarrow> if own a then ([a], s) else ext a s
      | _ \<Rightarrow> ([], s))"

subsection \<open>when\_each\<close>

text \<open>
  The array \<^verbatim>\<open>_slots\<close> starts at \<open>base\<close>; \<^verbatim>\<open>resumed\<close> gets the index of a slot from
  its address.
\<close>

definition slot_handle :: "nat \<Rightarrow> nat \<Rightarrow> coro_handle" where
  "slot_handle base i = Coro (base + i)"

definition is_slot :: "nat \<Rightarrow> nat \<Rightarrow> nat \<Rightarrow> bool" where
  "is_slot base cap a \<longleftrightarrow> base \<le> a \<and> a < base + cap"

definition slot_do_resume :: "nat \<Rightarrow> nat \<Rightarrow> when_each \<Rightarrow> prepared_coro \<times> when_each" where
  "slot_do_resume base a w = each_resumed (of_nat (a - base)) w"

text \<open>
  Frames that are resumed one after the other; those that are no slots do not concern the object.
  What a slot's \<^verbatim>\<open>do_resume\<close> returns is dropped by \<^verbatim>\<open>coro_frame\<close>; the events are
  what that resumes.
\<close>

fun slots_run :: "nat \<Rightarrow> nat \<Rightarrow> nat list \<Rightarrow> when_each \<Rightarrow> coro_event list \<times> when_each" where
  "slots_run base cap [] w = ([], w)"
| "slots_run base cap (a # as) w =
     (if is_slot base cap a then
        let (pc, w1) = slot_do_resume base a w; (es, w2) = slots_run base cap as w1
        in (prepared_dtor pc @ es, w2)
      else slots_run base cap as w)"

text \<open>One \<^verbatim>\<open>add(x, idx)\<close> of a constructor, whose result is dropped.\<close>

definition each_register ::
    "'s outside \<Rightarrow> nat \<Rightarrow> nat \<Rightarrow> nat \<Rightarrow> 's awaiter \<Rightarrow> 's \<Rightarrow> when_each \<Rightarrow> coro_event list \<times> 's \<times> when_each" where
  "each_register ext base cap i a s w =
     (let (pc, ev, (rs, s1), w1) = each_add (aw_ready a s) (aw_suspend a) (slot_handle base i) (of_nat i) ([], s) w;
          (ev1, w2) = slots_run base cap rs w1;
          (ds, s2) = dropped (is_slot base cap) ext pc s1;
          (ev2, w3) = slots_run base cap ds w2
      in (ev @ ev1 @ ev2, s2, w3))"

text \<open>The constructors from an array and from a list of arguments.\<close>

fun each_register_all ::
    "'s outside \<Rightarrow> nat \<Rightarrow> nat \<Rightarrow> nat \<Rightarrow> 's awaiter list \<Rightarrow> 's \<Rightarrow> when_each
     \<Rightarrow> coro_event list \<times> 's \<times> when_each" where
  "each_register_all ext base cap i [] s w = ([], s, w)"
| "each_register_all ext base cap i (a # as) s w =
     (let (ev, s1, w1) = each_register ext base cap i a s w;
          (es, s2, w2) = each_register_all ext base cap (i + 1) as s1 w1
      in (ev @ es, s2, w2))"

definition each_construct ::
    "'s outside \<Rightarrow> nat \<Rightarrow> nat \<Rightarrow> 's awaiter list \<Rightarrow> 's \<Rightarrow> coro_event list \<times> 's \<times> when_each" where
  "each_construct ext base cap as s = each_register_all ext base cap 0 as s (when_each_new cap (length as))"

text \<open>
  The constructor from a container: \<^verbatim>\<open>_cnt\<close> is 0 until the loop has ended, which it does
  at the last place.
\<close>

fun each_range_loop ::
    "'s outside \<Rightarrow> nat \<Rightarrow> nat \<Rightarrow> nat \<Rightarrow> 's awaiter list \<Rightarrow> 's \<Rightarrow> when_each
     \<Rightarrow> nat \<times> coro_event list \<times> 's \<times> when_each" where
  "each_range_loop ext base cap idx [] s w = (idx, [], s, w)"
| "each_range_loop ext base cap idx (a # as) s w =
     (let (ev, s1, w1) = each_register ext base cap idx a s w in
      if idx + 1 = cap then (idx + 1, ev, s1, w1)
      else let (n, es, s2, w2) = each_range_loop ext base cap (idx + 1) as s1 w1 in (n, ev @ es, s2, w2))"

definition each_construct_range ::
    "'s outside \<Rightarrow> nat \<Rightarrow> nat \<Rightarrow> 's awaiter list \<Rightarrow> 's \<Rightarrow> coro_event list \<times> 's \<times> when_each" where
  "each_construct_range ext base cap as s =
     (let (n, es, s', w) = each_range_loop ext base cap 0 as s (when_each_new cap 0)
      in (es, s', w\<lparr>we_cnt := of_nat n\<rparr>))"

text \<open>
  \<^verbatim>\<open>wait()\<close> while no other thread interferes: the value, or, where it blocks, the state
  with the frame at \<open>a\<close> registered and the events of that registration.
\<close>

definition each_wait ::
    "nat \<Rightarrow> when_each \<Rightarrow> (coro_event list \<times> when_each) + (uint32 \<times> when_each)" where
  "each_wait a w =
     (if each_await_ready w then Inr (each_await_resume w)
      else Inl (snd (each_await_suspend (get_handle (sync_frame_new a)) w)))"

lemma each_wait_nx:
  "we_nx w < we_cnt w \<Longrightarrow> each_wait a w = Inr (v, w') \<Longrightarrow>
   v = place w (we_nx w) - 2 \<and> w' = w\<lparr>we_nx := we_nx w + 1\<rparr> \<and> place w (we_nx w) \<noteq> 0"
  by (auto simp: each_wait_def each_await_resume_def each_await_ready_def not_le split: if_splits)

text \<open>The destructor's loop, and the destructor of \<^verbatim>\<open>_r\<close> after it.\<close>

function each_join ::
    "nat \<Rightarrow> when_each \<Rightarrow> (coro_event list \<times> when_each) + (uint32 list \<times> when_each)" where
  "each_join a w =
     (if each_bool w then
        (case each_wait a w of
           Inl b \<Rightarrow> Inl b
         | Inr (v, w1) \<Rightarrow>
             (case each_join a w1 of Inl b \<Rightarrow> Inl b | Inr (vs, w2) \<Rightarrow> Inr (v # vs, w2)))
      else Inr ([], w))"
  by pat_completeness auto
termination
proof (relation "measure (\<lambda>(a, w). unat (we_cnt w) - unat (we_nx w))")
  fix a w r v w1
  assume "each_bool w" "each_wait a w = Inr r" "(v, w1) = r"
  moreover from this have "we_nx w < we_cnt w" by (simp add: each_bool_def)
  ultimately show "((a, w1), (a, w)) \<in> measure (\<lambda>(a, w). unat (we_cnt w) - unat (we_nx w))"
    using each_wait_nx [of w a v w1] unat_next [of "we_nx w" "we_cnt w"] by (auto simp: word_less_nat_alt)
qed simp

declare each_join.simps [simp del]

definition each_dtor ::
    "nat \<Rightarrow> when_each \<Rightarrow> (coro_event list \<times> when_each) + (coro_event list)" where
  "each_dtor a w = (case each_join a w of Inl b \<Rightarrow> Inl b | Inr (vs, w') \<Rightarrow> Inr (prepared_dtor (we_r w')))"

subsection \<open>when\_all\<close>

text \<open>
  The counter is one frame at \<open>base\<close>.  Resuming it counts down; what the countdown returns is
  dropped.
\<close>

fun counter_run :: "nat \<Rightarrow> nat list \<Rightarrow> when_all \<Rightarrow> coro_event list \<times> when_all" where
  "counter_run base [] w = ([], w)"
| "counter_run base (a # as) w =
     (if a = base then
        let (pc, w1) = counter_do_resume w; (es, w2) = counter_run base as w1
        in (prepared_dtor pc @ es, w2)
      else counter_run base as w)"

text \<open>The constructors call \<^verbatim>\<open>add\<close> for each awaiter and drop its result.\<close>

definition all_register ::
    "'s outside \<Rightarrow> nat \<Rightarrow> 's awaiter \<Rightarrow> 's \<Rightarrow> when_all \<Rightarrow> coro_event list \<times> 's \<times> when_all" where
  "all_register ext base a s w =
     (let (pc, (rs, s1), w1) = when_all_add (aw_ready a s) (aw_suspend a) (Coro base) ([], s) w;
          (ev1, w2) = counter_run base rs w1;
          (ds, s2) = dropped (\<lambda>x. x = base) ext pc s1;
          (ev2, w3) = counter_run base ds w2
      in (ev1 @ ev2, s2, w3))"

fun all_register_all ::
    "'s outside \<Rightarrow> nat \<Rightarrow> 's awaiter list \<Rightarrow> 's \<Rightarrow> when_all \<Rightarrow> coro_event list \<times> 's \<times> when_all" where
  "all_register_all ext base [] s w = ([], s, w)"
| "all_register_all ext base (a # as) s w =
     (let (ev, s1, w1) = all_register ext base a s w;
          (es, s2, w2) = all_register_all ext base as s1 w1
      in (ev @ es, s2, w2))"

definition all_construct ::
    "'s outside \<Rightarrow> nat \<Rightarrow> 's awaiter list \<Rightarrow> 's \<Rightarrow> coro_event list \<times> 's \<times> when_all" where
  "all_construct ext base as s = all_register_all ext base as s when_all_new"

text \<open>
  \<^verbatim>\<open>wait()\<close>: the sync frame at \<open>a\<close> suspends on the counter; the result tells whether the
  call blocks.  The destructor waits.
\<close>

definition all_wait :: "nat \<Rightarrow> when_all \<Rightarrow> bool \<times> coro_event list \<times> when_all" where
  "all_wait a w =
     (if when_all_await_ready w then (False, [], w)
      else let (h, ev, w1) = when_all_await_suspend (get_handle (sync_frame_new a)) w
           in (case frame_events sync_do_resume (sync_frame_new a) (handle_resume h) of
                 Inr f \<Rightarrow> (\<not> sync_wait_returns f, ev, w1)
               | Inl e \<Rightarrow> (True, ev, w1)))"

definition all_dtor :: "nat \<Rightarrow> when_all \<Rightarrow> bool \<times> coro_event list \<times> when_all" where
  "all_dtor a w = all_wait a w"

section \<open>Joining\<close>

lemma each_join_there:
  "\<forall>k \<in> {unat (we_nx w)..<unat (we_cnt w)}. we_finished w ! k \<noteq> 0 \<Longrightarrow> we_nx w \<le> we_cnt w \<Longrightarrow>
   each_join a w = Inr (map (\<lambda>k. we_finished w ! k - 2) [unat (we_nx w)..<unat (we_cnt w)], w\<lparr>we_nx := we_cnt w\<rparr>)"
proof (induction a w rule: each_join.induct)
  case (1 a w)
  show ?case
  proof (cases "we_nx w < we_cnt w")
    case True
    let ?w = "w\<lparr>we_nx := we_nx w + 1\<rparr>"
    have less: "unat (we_nx w) < unat (we_cnt w)" using True by (simp add: word_less_nat_alt)
    note suc = unat_next [OF True]
    have wait: "each_wait a w = Inr (place w (we_nx w) - 2, ?w)"
      using True less 1(2) by (auto simp: each_wait_def each_await_ready_def each_await_resume_def not_le)
    have "each_join a ?w = Inr (map (\<lambda>k. we_finished w ! k - 2) [unat (we_nx w) + 1..<unat (we_cnt w)], w\<lparr>we_nx := we_cnt w\<rparr>)"
      using 1(1) [OF _ wait refl] 1(2) True inc_le [OF True] suc by (simp add: each_bool_def)
    with True wait show ?thesis
      by (subst each_join.simps) (simp add: each_bool_def upt_conv_Cons [OF less])
  next
    case False
    with 1(3) have "we_nx w = we_cnt w" by simp
    then show ?thesis by (subst each_join.simps) (simp add: each_bool_def)
  qed
qed

text \<open>When every operation is complete, every place is filled.\<close>

lemma all_places_filled:
  assumes ok: "each_ok calm c s" and dn: "\<forall>i < we_cnt (we s). \<exists>k. sl s i = Slot_done k"
    and "k < we_cnt (we s)"
  shows "\<exists>i < we_cnt (we s). sl s i = Slot_done k \<and> place (we s) k = i + 2"
proof -
  note p = each_okD(2) [OF ok]
  let ?n = "we_cnt (we s)" and ?place = "\<lambda>i. the (taken (sl s i))"
  have tk: "taken (sl s i) = Some (?place i)" if "i < ?n" for i using dn that by fastforce
  have "inj_on ?place {i. i < ?n}"
  proof (rule inj_onI)
    fix i j assume "i \<in> {i. i < ?n}" "j \<in> {i. i < ?n}" "?place i = ?place j"
    then show "i = j" using placesD(5) [OF p, of i j] tk [of i] tk [of j] by simp
  qed
  moreover have "?place i < ?n" if "i < ?n" for i
    using placesD(4) [OF p that tk [OF that]] free_le [OF p] by (rule less_le_trans)
  then have "?place ` {i. i < ?n} \<subseteq> {i. i < ?n}" by blast
  ultimately have "?place ` {i. i < ?n} = {i. i < ?n}" by (intro endo_inj_surj [OF finite])
  with assms(3) have "k \<in> ?place ` {i. i < ?n}" by blast
  then obtain i where i: "i < ?n" "k = ?place i" by blast
  with dn have "sl s i = Slot_done k" by fastforce
  with i(1) arrayD(1) [OF each_okD(3) [OF ok] i(1) this] show ?thesis by blast
qed

lemma of_nat_less_words:
  "k < unat (n :: uint32) \<Longrightarrow> unat (of_nat k :: uint32) = k" "k < unat n \<Longrightarrow> of_nat k < n"
proof -
  assume k: "k < unat n"
  then show u: "unat (of_nat k :: uint32) = k"
    using unat_less [of n] by (simp add: unat_of_nat take_bit_nat_eq_self)
  show "of_nat k < n" using k unfolding word_less_nat_alt u .
qed

text \<open>Each word below a bound comes once.\<close>

lemma words_below:
  "distinct (map of_nat [0..<unat (n :: uint32)] :: uint32 list)"
  "set (map of_nat [0..<unat n]) = {i. i < n}"
proof -
  have "inj_on (of_nat :: nat \<Rightarrow> uint32) {0..<unat n}"
  proof (rule inj_onI)
    fix j k assume "j \<in> {0..<unat n}" "k \<in> {0..<unat n}" "(of_nat j :: uint32) = of_nat k"
    then show "j = k" using of_nat_less_words(1) [of j n] of_nat_less_words(1) [of k n] by (metis atLeastLessThan_iff)
  qed
  then show d: "distinct (map of_nat [0..<unat n] :: uint32 list)" by (simp add: distinct_map)
  have "set (map of_nat [0..<unat n]) \<subseteq> {i. i < n}" using of_nat_less_words(2) [of _ n] by auto
  moreover have "card (set (map of_nat [0..<unat n] :: uint32 list)) = card {i. i < n}"
    unfolding card_less_word distinct_card [OF d] by simp
  ultimately show "set (map of_nat [0..<unat n]) = {i. i < n}" by (intro card_subset_eq [OF finite])
qed

text \<open>
  C14: the destructor of \<^verbatim>\<open>when_each\<close> ends.  Once every awaited operation is complete and the
  consumer runs (it was not resumed inside its own \<^verbatim>\<open>await_suspend\<close>), in
  whatever order the completions and the consumer's own awaits were interleaved before, the
  joining loop returns without blocking; the consumer and the loop together have then got every
  index exactly once.  In a calm schedule, one in which nothing completes between
  \<^verbatim>\<open>await_ready\<close> and \<^verbatim>\<open>await_suspend\<close>, the destruction resumes nobody.
\<close>

theorem when_each_join_ends:
  assumes "reachable (each_init n) (each_step calm c) s" and "co s = C_running"
    and "\<forall>i < we_cnt (we s). \<exists>k. sl s i = Slot_done k"
  shows "\<exists>vs w. each_join a (we s) = Inr (vs, w) \<and> \<not> each_bool w
       \<and> mset (got s @ vs) = mset (map of_nat [0..<unat (we_cnt (we s))])
       \<and> (calm \<longrightarrow> each_dtor a (we s) = Inr [])"
proof -
  have ok: "each_ok calm c s" using each_reachable_ok [OF assms(1)] assms(2) by simp
  note con = each_okD(4) [OF ok]
  let ?n = "we_cnt (we s)" and ?nx = "unat (we_nx (we s))" and ?v = "\<lambda>k. we_finished (we s) ! k - 2"
  have nx: "?nx \<le> unat ?n" using consumerD(1) [OF con] by (simp add: word_le_nat_alt)
  have filled: "\<exists>i < ?n. sl s i = Slot_done (of_nat k) \<and> ?v k = i \<and> we_finished (we s) ! k \<noteq> 0"
    if k: "k < unat ?n" for k
  proof -
    obtain i where i: "i < ?n" "sl s i = Slot_done (of_nat k)" "place (we s) (of_nat k) = i + 2"
      using all_places_filled [OF ok assms(3) of_nat_less_words(2) [OF k]] by blast
    with mark_less(2) [OF each_okD(2) [OF ok] i(1)] show ?thesis
      unfolding of_nat_less_words(1) [OF k] by (intro exI [of _ i]) simp
  qed
  have join: "each_join a (we s) = Inr (map ?v [?nx..<unat ?n], (we s)\<lparr>we_nx := ?n\<rparr>)"
    by (rule each_join_there [OF _ consumerD(1) [OF con]]) (use filled in auto)
  have all: "got s @ map ?v [?nx..<unat ?n] = map ?v [0..<unat ?n]"
    unfolding consumerD(3) [OF con] map_append [symmetric]
    using upt_add_eq_append [of 0 ?nx "unat ?n - ?nx"] nx by simp
  have "inj_on ?v {0..<unat ?n}"
  proof (rule inj_onI)
    fix j k assume jk: "j \<in> {0..<unat ?n}" "k \<in> {0..<unat ?n}" "?v j = ?v k"
    then obtain i i' where "sl s i = Slot_done (of_nat j)" "?v j = i" "sl s i' = Slot_done (of_nat k)" "?v k = i'"
      using filled [of j] filled [of k] by (metis atLeastLessThan_iff)
    with jk(3) have "(of_nat j :: uint32) = of_nat k" by simp
    then show "j = k" using jk of_nat_less_words(1) [of j ?n] of_nat_less_words(1) [of k ?n] by (metis atLeastLessThan_iff)
  qed
  then have d: "distinct (map ?v [0..<unat ?n])" by (simp add: distinct_map)
  have "?v k < ?n" if "k < unat ?n" for k using filled [OF that] by blast
  then have "set (map ?v [0..<unat ?n]) \<subseteq> {i. i < ?n}" by auto
  moreover have "card (set (map ?v [0..<unat ?n])) = card {i. i < ?n}"
    unfolding card_less_word distinct_card [OF d] by simp
  ultimately have "set (map ?v [0..<unat ?n]) = {i. i < ?n}" by (intro card_subset_eq [OF finite])
  then have "mset (map ?v [0..<unat ?n]) = mset (map of_nat [0..<unat ?n])"
    using set_eq_iff_mset_eq_distinct [OF d words_below(1) [of ?n]] words_below(2) [of ?n] by simp
  then have "mset (got s @ map ?v [?nx..<unat ?n]) = mset (map of_nat [0..<unat ?n])" unfolding all .
  moreover have "calm \<longrightarrow> each_dtor a (we s) = Inr []"
    using consumerD(8) [OF con] assms(2) by (simp add: each_dtor_def join prepared_simps)
  moreover have "\<not> each_bool ((we s)\<lparr>we_nx := ?n\<rparr>)" by (simp add: each_bool_def)
  ultimately show ?thesis using join by blast
qed


section \<open>Constructing\<close>

text \<open>
  What a constructor promises, without the object: the slots that are resumed at the
  registration of an awaiter are the awaiter's own if it is ready; otherwise those its
  \<^verbatim>\<open>await_suspend\<close> resumes, then those that are resumed when the prepared coroutine it
  hands back is dropped (its own slot when it refuses to suspend).
\<close>

definition resumed_slots :: "nat \<Rightarrow> nat \<Rightarrow> nat list \<Rightarrow> nat list" where
  "resumed_slots base cap rs = map (\<lambda>a. a - base) (filter (is_slot base cap) rs)"

definition register_slots ::
    "'s outside \<Rightarrow> nat \<Rightarrow> nat \<Rightarrow> nat \<Rightarrow> 's awaiter \<Rightarrow> 's \<Rightarrow> nat list \<times> 's" where
  "register_slots ext base cap i a s =
     (if aw_ready a s then ([i], s)
      else let (pc, rs, s1) = call_await_suspend (aw_suspend a) (slot_handle base i) ([], s);
               (ds, s2) = dropped (is_slot base cap) ext pc s1
           in (resumed_slots base cap (rs @ ds), s2))"

fun construct_slots ::
    "'s outside \<Rightarrow> nat \<Rightarrow> nat \<Rightarrow> nat \<Rightarrow> 's awaiter list \<Rightarrow> 's \<Rightarrow> nat list" where
  "construct_slots ext base cap i [] s = []"
| "construct_slots ext base cap i (a # as) s =
     (let (js, s1) = register_slots ext base cap i a s in js @ construct_slots ext base cap (i + 1) as s1)"

text \<open>
  A state of the concurrent system in which the operations \<open>js\<close> are complete, in this order,
  the others are pending, and nothing was collected.
\<close>

definition built :: "nat \<Rightarrow> nat \<Rightarrow> bool \<Rightarrow> nat \<Rightarrow> nat list \<Rightarrow> each_sys \<Rightarrow> bool" where
  "built n cap calm c js st \<longleftrightarrow>
     reachable (each_init n) (each_step calm c) st \<and> co st = C_running \<and> got st = []
     \<and> we_cnt (we st) = of_nat n \<and> we_free (we st) = of_nat (length js)
     \<and> we_finished (we st) = map (\<lambda>i. of_nat i + 2) js @ replicate (cap - length js) 0
     \<and> (\<forall>p < length js. sl st (of_nat (js ! p)) = Slot_done (of_nat p))
     \<and> (\<forall>i. i \<notin> of_nat ` set js \<longrightarrow> sl st i = Slot_pending)"

lemma builtD:
  assumes "built n cap calm c js st"
  shows "reachable (each_init n) (each_step calm c) st" "co st = C_running" "got st = []"
    "we_cnt (we st) = of_nat n" "we_free (we st) = of_nat (length js)"
    "we_finished (we st) = map (\<lambda>i. of_nat i + 2) js @ replicate (cap - length js) 0"
    "p < length js \<Longrightarrow> sl st (of_nat (js ! p)) = Slot_done (of_nat p)"
    "i \<notin> of_nat ` set js \<Longrightarrow> sl st i = Slot_pending"
  using assms unfolding built_def by blast+

lemma built_new:
  assumes "n \<le> cap" and "cap + 2 \<le> 2 ^ 32"
  shows "\<exists>st. built n cap calm c [] st \<and> we st = when_each_new cap n"
proof -
  let ?st = "\<lparr>we = when_each_new cap n, sl = (\<lambda>_. Slot_pending), co = C_running, got = [], evs = []\<rparr>"
  have "reachable (each_init n) (each_step calm c) ?st"
    using assms by (intro reachable.start) (auto simp: each_init_def)
  then show ?thesis by (intro exI [of _ ?st]) (simp add: built_def when_each_new_def)
qed

text \<open>The lists of slots that a construction can resume: each at most once, and only slots in use.\<close>

definition once :: "nat \<Rightarrow> nat list \<Rightarrow> bool" where
  "once n js \<longleftrightarrow> distinct js \<and> set js \<subseteq> {..<n}"

lemma once_take: "once n (js @ ks) \<Longrightarrow> once n js"
  by (simp add: once_def)

lemma once_snoc:
  assumes "once n (js @ [i])"
  shows "i \<notin> set js" "i < n" "length js < n"
  using assms card_mono [of "{..<n}" "set (js @ [i])"] distinct_card [of "js @ [i]"] by (auto simp: once_def)

lemma of_nat_below:
  "n + 2 \<le> 2 ^ 32 \<Longrightarrow> k < n \<Longrightarrow> unat (of_nat k :: uint32) = k"
  "n + 2 \<le> 2 ^ 32 \<Longrightarrow> k < n \<Longrightarrow> (of_nat k :: uint32) < of_nat n"
  "n + 2 \<le> 2 ^ 32 \<Longrightarrow> k < n \<Longrightarrow> j < n \<Longrightarrow> (of_nat k :: uint32) = of_nat j \<longleftrightarrow> k = j"
proof -
  have u: "unat (of_nat k :: uint32) = k" if "k < 2 ^ 32" for k
    using that by (simp add: unat_of_nat take_bit_nat_eq_self)
  show "n + 2 \<le> 2 ^ 32 \<Longrightarrow> k < n \<Longrightarrow> unat (of_nat k :: uint32) = k" by (rule u) simp
  show "n + 2 \<le> 2 ^ 32 \<Longrightarrow> k < n \<Longrightarrow> (of_nat k :: uint32) < of_nat n"
    using u [of k] u [of n] by (simp add: word_less_nat_alt)
  assume "n + 2 \<le> 2 ^ 32" "k < n" "j < n"
  then have "unat (of_nat k :: uint32) = k" "unat (of_nat j :: uint32) = j" by (simp_all add: u)
  then show "(of_nat k :: uint32) = of_nat j \<longleftrightarrow> k = j" by metis
qed

lemma built_resumed:
  assumes "built n cap calm c js st" and "once n (js @ [i])" and "n \<le> cap" and "cap + 2 \<le> 2 ^ 32"
    and "each_resumed (of_nat i) (we st) = (pc, w')"
  shows "pc = prepared_empty \<and> (\<exists>st'. built n cap calm c (js @ [i]) st' \<and> we st' = w')"
proof -
  note b = builtD [OF assms(1)] and o = once_snoc [OF assms(2)]
  have n: "n + 2 \<le> 2 ^ 32" using assms(3,4) by simp
  note nat = of_nat_below [OF n]
  let ?k = "we_free (we st)" and ?i = "of_nat i :: uint32"
  let ?w1 = "(we st)\<lparr>we_free := ?k + 1\<rparr>"
  have k: "unat ?k = length js" using nat(1) [OF o(3)] b(5) by simp
  have zero: "place (we st) ?k = 0" unfolding k b(6) using o(3) assms(3) by (simp add: nth_append)
  have new: "?i \<notin> of_nat ` set js"
    using o(1,2) assms(2) nat(3) [OF o(2)] by (auto simp: once_def)
  have w': "pc = prepared_empty" "w' = ?w1\<lparr>we_finished := (we_finished (we st))[length js := ?i + 2]\<rparr>"
    using assms(5) zero k by (simp_all add: each_resumed_def each_claim_def each_store_def Let_def)
  let ?s1 = "st\<lparr>we := ?w1, sl := (sl st)(?i := Slot_claimed ?k)\<rparr>"
  let ?s2 = "?s1\<lparr>we := w', sl := (sl ?s1)(?i := Slot_done ?k), co := (if prepared_bool pc then C_resumed else co ?s1)\<rparr>"
  have lt: "?i < we_cnt (we st)" using nat(2) [OF o(2)] b(4) by simp
  have "each_step calm c st ?s1"
    by (rule each_step.claim) (use b(2,8) new lt in \<open>simp_all add: each_claim_def\<close>)
  from reachable.next_step [OF b(1) this] have r1: "reachable (each_init n) (each_step calm c) ?s1" .
  have "each_step calm c ?s1 ?s2"
    by (rule each_step.store) (use b(2) lt assms(5) in \<open>simp_all add: each_resumed_def each_claim_def\<close>)
  with r1 have r2: "reachable (each_init n) (each_step calm c) ?s2" by (rule reachable.next_step)
  have "built n cap calm c (js @ [i]) ?s2"
    unfolding built_def
  proof (intro conjI allI impI r2)
    show "we_finished (we ?s2) = map (\<lambda>i. of_nat i + 2) (js @ [i]) @ replicate (cap - length (js @ [i])) 0"
      using o(3) assms(3) by (simp add: w' b(6) list_update_append Suc_diff_Suc [symmetric])
    fix p assume "p < length (js @ [i])"
    then consider "p = length js" | "p < length js" "(of_nat (js ! p) :: uint32) \<noteq> ?i"
      using new nth_mem [of p js] by (metis image_eqI length_append_singleton less_SucE)
    then show "sl ?s2 (of_nat ((js @ [i]) ! p)) = Slot_done (of_nat p)"
      by cases (use b(5) b(7) [of p] in \<open>simp_all add: nth_append\<close>)
  next
    fix j :: uint32 assume "j \<notin> of_nat ` set (js @ [i])"
    then show "sl ?s2 j = Slot_pending" using b(8) [of j] by auto
  qed (use b(2-5) w' in \<open>simp_all add: prepared_simps\<close>)
  moreover have "we ?s2 = w'" by simp
  ultimately show ?thesis using w'(1) by blast
qed

text \<open>Running frames is running the slots among them.\<close>

lemma slots_run_append:
  "slots_run base cap (as @ bs) w =
     (let (es, w1) = slots_run base cap as w; (fs, w2) = slots_run base cap bs w1 in (es @ fs, w2))"
  by (induction as arbitrary: w) (auto simp: Let_def split: prod.splits)

lemma built_slots_run:
  "built n cap calm c js st \<Longrightarrow> once n (js @ resumed_slots base cap as) \<Longrightarrow> n \<le> cap \<Longrightarrow> cap + 2 \<le> 2 ^ 32 \<Longrightarrow>
   slots_run base cap as (we st) = (ev, w') \<Longrightarrow>
   ev = [] \<and> (\<exists>st'. built n cap calm c (js @ resumed_slots base cap as) st' \<and> we st' = w')"
proof (induction as arbitrary: js st ev)
  case Nil
  then show ?case by (auto simp: resumed_slots_def)
next
  case (Cons a as)
  show ?case
  proof (cases "is_slot base cap a")
    case True
    obtain pc w1 es where r: "each_resumed (of_nat (a - base)) (we st) = (pc, w1)"
      "slots_run base cap as w1 = (es, w')" "ev = prepared_dtor pc @ es"
      using Cons.prems(5) True by (auto simp: slot_do_resume_def split: prod.splits)
    have rest: "js @ resumed_slots base cap (a # as) = (js @ [a - base]) @ resumed_slots base cap as"
      using True by (simp add: resumed_slots_def)
    from built_resumed [OF Cons.prems(1) once_take [OF Cons.prems(2) [unfolded rest]] Cons.prems(3,4) r(1)]
    obtain st1 where "pc = prepared_empty" "built n cap calm c (js @ [a - base]) st1" "we st1 = w1" by blast
    with Cons.IH [OF this(2) _ Cons.prems(3,4)] Cons.prems(2) r show ?thesis
      unfolding rest by (simp add: prepared_simps)
  next
    case False
    then have "resumed_slots base cap (a # as) = resumed_slots base cap as" by (simp add: resumed_slots_def)
    with Cons.IH [OF Cons.prems(1) _ Cons.prems(3,4)] Cons.prems(2,5) False show ?thesis by simp
  qed
qed

lemma built_register:
  assumes "built n cap calm c js st" and "register_slots ext base cap i a s = (ks, s1)"
    and "once n (js @ ks)" and "n \<le> cap" and "cap + 2 \<le> 2 ^ 32"
    and "each_register ext base cap i a s (we st) = (ev, s', w')"
  shows "ev = [] \<and> s' = s1 \<and> (\<exists>st'. built n cap calm c (js @ ks) st' \<and> we st' = w')"
proof (cases "aw_ready a s")
  case True
  with assms(2) have ks: "ks = [i]" "s1 = s" by (simp_all add: register_slots_def)
  obtain pc w1 where r: "each_resumed (of_nat i) (we st) = (pc, w1)" by fastforce
  with True assms(6) have e: "w1 = w'" "s' = s" "ev = prepared_dtor pc"
    by (auto simp: each_register_def each_add_def dropped_def prepared_empty_def)
  from built_resumed [OF assms(1) assms(3) [unfolded ks] assms(4,5) r] show ?thesis
    unfolding ks e by (auto simp: prepared_simps)
next
  case False
  obtain pc rs u where c: "call_await_suspend (aw_suspend a) (slot_handle base i) ([], s) = (pc, rs, u)"
    by (metis prod_cases3)
  obtain ds s2 where d: "dropped (is_slot base cap) ext pc u = (ds, s2)" by fastforce
  have ks: "ks = resumed_slots base cap (rs @ ds)" "s1 = s2"
    using assms(2) False c d by (auto simp: register_slots_def)
  have "slots_run base cap (rs @ ds) (we st) = (ev, w')" "s' = s2"
    using assms(6) False c d
    by (auto simp: each_register_def each_add_def slots_run_append split: prod.splits)
  with built_slots_run [OF assms(1) _ assms(4,5), of base "rs @ ds" ev w'] assms(3) ks show ?thesis by simp
qed

lemma built_register_all:
  "built n cap calm c js st \<Longrightarrow> once n (js @ construct_slots ext base cap i as s) \<Longrightarrow> n \<le> cap \<Longrightarrow>
   cap + 2 \<le> 2 ^ 32 \<Longrightarrow> each_register_all ext base cap i as s (we st) = (ev, s', w') \<Longrightarrow>
   ev = [] \<and> (\<exists>st'. built n cap calm c (js @ construct_slots ext base cap i as s) st' \<and> we st' = w')"
proof (induction as arbitrary: js st i s ev)
  case (Cons a as)
  obtain ks s1 where ks: "register_slots ext base cap i a s = (ks, s1)" by fastforce
  obtain ev1 s2 w1 es where r: "each_register ext base cap i a s (we st) = (ev1, s2, w1)"
    "each_register_all ext base cap (i + 1) as s2 w1 = (es, s', w')" "ev = ev1 @ es"
    using Cons.prems(5) by (auto split: prod.splits)
  have all: "js @ construct_slots ext base cap i (a # as) s = (js @ ks) @ construct_slots ext base cap (i + 1) as s1"
    using ks by simp
  from built_register [OF Cons.prems(1) ks once_take [OF Cons.prems(2) [unfolded all]] Cons.prems(3,4) r(1)]
  obtain st1 where st1: "built n cap calm c (js @ ks) st1" "we st1 = w1" and "ev1 = []" "s2 = s1" by blast
  with Cons.IH [OF st1(1) _ Cons.prems(3,4), of "i + 1" s1 es] Cons.prems(2) r(2,3) show ?case
    unfolding all by simp
qed auto

text \<open>Nothing in the loop looks at \<^verbatim>\<open>_cnt\<close>.\<close>

lemma each_resumed_cnt:
  "each_resumed i (w\<lparr>we_cnt := n\<rparr>) = (let (pc, w') = each_resumed i w in (pc, w'\<lparr>we_cnt := n\<rparr>))"
  by (simp add: each_resumed_def each_claim_def each_store_def Let_def)

lemma slots_run_cnt:
  "slots_run base cap rs (w\<lparr>we_cnt := n\<rparr>)
   = (let (es, w') = slots_run base cap rs w in (es, w'\<lparr>we_cnt := n\<rparr>))"
  by (induction rs arbitrary: w) (auto simp: slot_do_resume_def each_resumed_cnt Let_def split: prod.splits)

lemma each_register_cnt:
  "each_register ext base cap i a s (w\<lparr>we_cnt := n\<rparr>)
   = (let (ev, s', w') = each_register ext base cap i a s w in (ev, s', w'\<lparr>we_cnt := n\<rparr>))"
  by (simp add: each_register_def each_add_def each_resumed_cnt slots_run_cnt Let_def split: prod.splits)

lemma each_register_all_cnt:
  "each_register_all ext base cap i as s (w\<lparr>we_cnt := n\<rparr>)
   = (let (ev, s', w') = each_register_all ext base cap i as s w in (ev, s', w'\<lparr>we_cnt := n\<rparr>))"
  by (induction as arbitrary: i s w) (auto simp: each_register_cnt Let_def split: prod.splits)

lemma each_range_loop_eq:
  "idx < cap \<Longrightarrow>
   each_range_loop ext base cap idx as s w =
     (let (ev, s', w') = each_register_all ext base cap idx (take (cap - idx) as) s w
      in (idx + length (take (cap - idx) as), ev, s', w'))"
proof (induction as arbitrary: idx s w)
  case (Cons a as)
  show ?case
  proof (cases "idx + 1 = cap")
    case True
    then have "take (cap - idx) (a # as) = [a]" by auto
    with True show ?thesis by (simp add: split: prod.splits)
  next
    case False
    with Cons.prems have "Suc idx < cap" "cap - idx = Suc (cap - Suc idx)" by auto
    with False show ?thesis by (simp add: Cons.IH Let_def split: prod.splits)
  qed
qed simp

text \<open>
  The constructor from a container registers the first \<open>cap\<close> elements just as the
  constructor from an array of that many would, whatever else the container holds.
\<close>

lemma each_construct_range_eq:
  assumes "0 < cap"
  shows "each_construct_range ext base cap as s = each_construct ext base cap (take cap as) s"
proof -
  have "when_each_new cap (min cap (length as)) = (when_each_new cap 0)\<lparr>we_cnt := of_nat (min cap (length as))\<rparr>"
    by (simp add: when_each_new_def)
  then show ?thesis
    using assms by (simp add: each_construct_range_def each_construct_def each_range_loop_eq
        each_register_all_cnt Let_def min.commute split: prod.splits)
qed

text \<open>
  C23: the constructors refine the concurrent system.  A \<^verbatim>\<open>when_each\<close> built from a container
  is the object of a state the system can reach with as many operations as were registered (the
  elements beyond the size of the object are not).  Complete are exactly the operations whose
  slots were resumed by then, in the order in which they were: those that were ready, that
  refused to suspend, that their \<^verbatim>\<open>await_suspend\<close> completed at once, or that a
  coroutine completed which the registration started; provided that every slot is resumed at
  most once.  The others are pending, nothing has been collected, and nobody was resumed.
  So what holds of every run holds of the object from its construction on.
\<close>

theorem each_construct_refines:
  assumes "0 < cap" and "cap + 2 \<le> 2 ^ 32"
    and "js = construct_slots ext base cap 0 (take cap as) s"
    and "distinct js" and "set js \<subseteq> {..<min cap (length as)}"
    and "each_construct_range ext base cap as s = (ev, s', w)"
  shows "ev = [] \<and> we_finished w = map (\<lambda>i. of_nat i + 2) js @ replicate (cap - length js) 0
       \<and> (\<exists>st. reachable (each_init (min cap (length as))) (each_step calm c) st \<and> we st = w
            \<and> co st = C_running \<and> got st = []
            \<and> (\<forall>p < length js. sl st (of_nat (js ! p)) = Slot_done (of_nat p))
            \<and> (\<forall>i. i \<notin> of_nat ` set js \<longrightarrow> sl st i = Slot_pending))"
proof -
  let ?n = "min cap (length as)"
  have c: "each_register_all ext base cap 0 (take cap as) s (when_each_new cap ?n) = (ev, s', w)"
    using assms(1,6) by (simp add: each_construct_range_eq each_construct_def min.commute)
  obtain st0 where st0: "built ?n cap calm c [] st0" "we st0 = when_each_new cap ?n"
    using built_new [of ?n cap calm c] assms(2) by auto
  have o: "once ?n ([] @ construct_slots ext base cap 0 (take cap as) s)"
    using assms(3-5) by (simp add: once_def)
  obtain st where "ev = []" "built ?n cap calm c js st" "we st = w"
    using built_register_all [OF st0(1) o _ assms(2), of ev s' w] c st0(2) assms(3) by auto
  with builtD [of ?n cap calm c js st] show ?thesis by blast
qed

text \<open>
  A ready awaiter, one that suspends, one that refuses, one whose operation completes inside
  \<^verbatim>\<open>await_suspend\<close>, one that hands back a coroutine that completes it when it runs, and
  one too many.
\<close>

definition sample_awaiters :: "unit awaiter list" where
  "sample_awaiters =
     [\<lparr>aw_ready = (\<lambda>_. True), aw_suspend = Suspend_void (\<lambda>_ s. s)\<rparr>,
      \<lparr>aw_ready = (\<lambda>_. False), aw_suspend = Suspend_bool (\<lambda>_ s. (True, s))\<rparr>,
      \<lparr>aw_ready = (\<lambda>_. False), aw_suspend = Suspend_bool (\<lambda>_ s. (False, s))\<rparr>,
      \<lparr>aw_ready = (\<lambda>_. False), aw_suspend = Suspend_bool (\<lambda>_ (rs, s). (True, rs @ [103], s))\<rparr>,
      \<lparr>aw_ready = (\<lambda>_. False), aw_suspend = Suspend_handle (\<lambda>_ s. (Coro 7, s))\<rparr>,
      \<lparr>aw_ready = (\<lambda>_. True), aw_suspend = Suspend_void (\<lambda>_ s. s)\<rparr>]"

definition sample_outside :: "unit outside" where
  "sample_outside a s = (if a = 7 then [104] else [], s)"

lemma sample_constructed:
  "each_construct_range sample_outside 100 5 sample_awaiters () =
     ([], (), \<lparr>we_finished = [2, 4, 5, 6, 0], we_free = 4, we_nx = 0, we_cnt = 5, we_r = prepared_empty\<rparr>)"
  "construct_slots sample_outside 100 5 0 (take 5 sample_awaiters) () = [0, 2, 3, 4]"
  by code_simp+

theorem each_construct_refines_witness:
  "\<exists>st. reachable (each_init 5) (each_step True 5) st \<and> we_finished (we st) = [2, 4, 5, 6, 0]
     \<and> sl st 1 = Slot_pending \<and> sl st 3 = Slot_done 2"
proof -
  have len: "length sample_awaiters = 6" by (simp add: sample_awaiters_def)
  obtain st where st: "reachable (each_init 5) (each_step True 5) st" "we_finished (we st) = [2, 4, 5, 6, 0]"
    "\<forall>p < 4. sl st (of_nat ([0, 2, 3, 4] ! p)) = Slot_done (of_nat p)"
    "\<forall>i. i \<notin> of_nat ` set [0, 2, 3, 4] \<longrightarrow> sl st i = Slot_pending"
    using each_construct_refines [OF _ _ sample_constructed(2) [symmetric] _ _ sample_constructed(1), of True 5]
    by (auto simp: len)
  have "sl st (of_nat ([0, 2, 3, 4] ! 2)) = Slot_done (of_nat 2)" using st(3) by (rule allE [of _ 2]) simp
  moreover have "sl st 1 = Slot_pending" using st(4) by (rule allE [of _ 1]) simp
  ultimately show ?thesis using st(1,2) by (intro exI [of _ st]) simp
qed

text \<open>Two operations that are complete when the object is built.\<close>

lemma joined_reachable:
  "\<exists>st. reachable (each_init 2) (each_step True 5) st \<and> co st = C_running \<and> got st = []
     \<and> we st = \<lparr>we_finished = [2, 3], we_free = 2, we_nx = 0, we_cnt = 2, we_r = prepared_empty\<rparr>
     \<and> (\<forall>i < 2. \<exists>k. sl st i = Slot_done k)"
proof -
  let ?w = "\<lparr>we_finished = [2, 3], we_free = 2, we_nx = 0, we_cnt = 2, we_r = prepared_empty\<rparr>"
  let ?as = "replicate 2 (hd sample_awaiters)"
  have c: "each_register_all sample_outside 100 2 0 ?as () (when_each_new 2 2) = ([], (), ?w)"
    "construct_slots sample_outside 100 2 0 ?as () = [0, 1]" by code_simp+
  obtain st0 where st0: "built 2 2 True 5 [] st0" "we st0 = when_each_new 2 2"
    using built_new [of 2 2 True 5] by auto
  have "once 2 ([] @ construct_slots sample_outside 100 2 0 ?as ())" unfolding c(2) by (simp add: once_def)
  from built_register_all [OF st0(1) this _ _ c(1) [folded st0(2)]]
  obtain st where st: "built 2 2 True 5 [0, 1] st" "we st = ?w" unfolding c(2) by auto
  have "\<exists>k. sl st i = Slot_done k" if "i < 2" for i
  proof -
    have "i = 0 \<or> i = 1" using that above_one [of i] by (auto simp: word_less_nat_alt)
    then show ?thesis using builtD(7) [OF st(1), of 0] builtD(7) [OF st(1), of 1] by auto
  qed
  with builtD(1-3) [OF st(1)] st(2) show ?thesis by blast
qed

theorem when_each_join_ends_witness:
  "\<exists>vs w. each_join 9 \<lparr>we_finished = [2, 3], we_free = 2, we_nx = 0, we_cnt = 2, we_r = prepared_empty\<rparr>
            = Inr (vs, w) \<and> mset vs = mset [0, 1]"
proof -
  obtain st where st: "reachable (each_init 2) (each_step True 5) st" "co st = C_running" "got st = []"
    "we st = \<lparr>we_finished = [2, 3], we_free = 2, we_nx = 0, we_cnt = 2, we_r = prepared_empty\<rparr>"
    "\<forall>i < 2. \<exists>k. sl st i = Slot_done k" using joined_reachable by blast
  then show ?thesis using when_each_join_ends [OF st(1,2), of 9] by (auto simp: upt_rec)
qed

section \<open>when\_all from construction to destruction\<close>

text \<open>
  The number of operations pending after the constructor, unless the counter would have been
  resumed more often than there were operations.
\<close>

definition all_pending_after ::
    "'s outside \<Rightarrow> nat \<Rightarrow> 's awaiter \<Rightarrow> 's \<Rightarrow> nat \<Rightarrow> nat option \<times> 's" where
  "all_pending_after ext base a s k =
     (if aw_ready a s then (Some k, s)
      else let (pc, rs, s1) = call_await_suspend (aw_suspend a) (Coro base) ([], s);
               (ds, s2) = dropped (\<lambda>x. x = base) ext pc s1;
               m = length (filter (\<lambda>x. x = base) (rs @ ds))
           in (if m \<le> k + 1 then Some (k + 1 - m) else None, s2))"

fun all_pending :: "'s outside \<Rightarrow> nat \<Rightarrow> 's awaiter list \<Rightarrow> 's \<Rightarrow> nat \<Rightarrow> nat option" where
  "all_pending ext base [] s k = Some k"
| "all_pending ext base (a # as) s k =
     (case all_pending_after ext base a s k of
        (Some k', s') \<Rightarrow> all_pending ext base as s' k'
      | (None, _) \<Rightarrow> None)"

text \<open>A state of the concurrent system before the owner suspends.\<close>

definition all_built :: "nat \<Rightarrow> nat \<Rightarrow> when_all \<Rightarrow> bool" where
  "all_built c k w \<longleftrightarrow> (\<exists>st. reachable all_init (all_step (Coro c)) st \<and> wa st = w \<and> \<not> sus st \<and> pend st = k)"

lemma all_built_new: "all_built c 0 when_all_new"
  unfolding all_built_def
  by (rule exI [of _ "\<lparr>wa = when_all_new, pend = 0, sus = False, out = []\<rparr>"])
     (simp add: reachable.start all_init_def)

lemma all_built_add:
  assumes "all_built c k w" and "k < 2 ^ 32 - 2"
  shows "all_built c (Suc k) (w\<lparr>wa_count := wa_count w + 1\<rparr>)"
proof -
  obtain st where st: "reachable all_init (all_step (Coro c)) st" "wa st = w" "\<not> sus st" "pend st = k"
    using assms(1) unfolding all_built_def by blast
  let ?w = "w\<lparr>wa_count := wa_count w + 1\<rparr>"
  have "when_all_add False (Suspend_void (\<lambda>_ u. u)) (Coro c) () (wa st) = (prepared_empty, (), ?w)"
    using st(2) by (simp add: when_all_add_def)
  then have "all_step (Coro c) st (st\<lparr>wa := ?w, pend := Suc (pend st)\<rparr>)"
    using st(3,4) assms(2) by (intro all_step.add) simp_all
  with st show ?thesis
    unfolding all_built_def by (intro exI [of _ "st\<lparr>wa := ?w, pend := Suc (pend st)\<rparr>"]) (simp add: reachable.next_step)
qed

lemma all_built_countdown:
  assumes "all_built c (Suc k) w" and "counter_do_resume w = (pc, w')"
  shows "pc = prepared_empty \<and> all_built c k w'"
proof -
  obtain st where st: "reachable all_init (all_step (Coro c)) st" "wa st = w" "\<not> sus st" "pend st = Suc k"
    using assms(1) unfolding all_built_def by blast
  have inv: "all_inv (Coro c) st" using all.reachable_inv [OF st(1)] .
  then have "unat (wa_count w) = Suc (Suc k)" using st(2-4) by (simp add: all_inv_def)
  then have pc: "pc = prepared_empty" using assms(2) by (simp add: counter_do_resume_unat)
  let ?t = "st\<lparr>wa := w', pend := k, out := (if prepared_bool pc then out st @ [pc_coro pc] else out st)\<rparr>"
  have "reachable all_init (all_step (Coro c)) ?t"
    by (rule reachable.next_step [OF st(1)], rule all_step.complete [OF st(4)]) (use st(2) assms(2) in simp)
  with pc st(3) show ?thesis by (auto simp: all_built_def intro!: exI [of _ ?t])
qed

lemma all_built_run:
  "all_built c k w \<Longrightarrow> length (filter (\<lambda>x. x = base) rs) \<le> k \<Longrightarrow> counter_run base rs w = (ev, w') \<Longrightarrow>
   ev = [] \<and> all_built c (k - length (filter (\<lambda>x. x = base) rs)) w'"
proof (induction rs arbitrary: k w ev)
  case (Cons a rs)
  show ?case
  proof (cases "a = base")
    case True
    then obtain n where n: "k = Suc n" using Cons.prems(2) by (cases k) simp_all
    obtain pc w1 es where r: "counter_do_resume w = (pc, w1)" "counter_run base rs w1 = (es, w')"
      "ev = prepared_dtor pc @ es"
      using Cons.prems(3) True by (auto split: prod.splits)
    from all_built_countdown [OF Cons.prems(1) [unfolded n] r(1)]
    have "pc = prepared_empty" "all_built c n w1" by blast+
    with Cons.IH [OF this(2) _ r(2)] Cons.prems(2) True n r(3) show ?thesis by (simp add: prepared_simps)
  qed (use Cons in simp)
qed simp

lemma counter_run_append:
  "counter_run base (as @ bs) w =
     (let (es, w1) = counter_run base as w; (fs, w2) = counter_run base bs w1 in (es @ fs, w2))"
  by (induction as arbitrary: w) (auto simp: Let_def split: prod.splits)

lemma all_built_register:
  assumes "all_built c k w" and "k < 2 ^ 32 - 2" and "all_pending_after ext base a s k = (Some k', s1)"
    and "all_register ext base a s w = (ev, s', w')"
  shows "ev = [] \<and> s' = s1 \<and> all_built c k' w' \<and> k' \<le> Suc k"
proof (cases "aw_ready a s")
  case True
  with assms show ?thesis
    by (auto simp: all_pending_after_def all_register_def when_all_add_def dropped_def prepared_empty_def)
next
  case False
  obtain pc rs u where c: "call_await_suspend (aw_suspend a) (Coro base) ([], s) = (pc, rs, u)"
    by (metis prod_cases3)
  obtain ds s2 where d: "dropped (\<lambda>x. x = base) ext pc u = (ds, s2)" by fastforce
  let ?m = "length (filter (\<lambda>x. x = base) (rs @ ds))"
  have k': "?m \<le> Suc k" "k' = Suc k - ?m" "s1 = s2"
    using assms(3) False c d by (auto simp: all_pending_after_def Let_def split: if_splits)
  have "counter_run base (rs @ ds) (w\<lparr>wa_count := wa_count w + 1\<rparr>) = (ev, w')" "s' = s2"
    using assms(4) False c d
    by (auto simp: all_register_def when_all_add_def counter_run_append Let_def split: prod.splits)
  with all_built_run [OF all_built_add [OF assms(1,2)] k'(1)] k' show ?thesis by simp
qed

lemma all_built_register_all:
  "all_built c k w \<Longrightarrow> k + length as \<le> 2 ^ 32 - 2 \<Longrightarrow> all_pending ext base as s k = Some m \<Longrightarrow>
   all_register_all ext base as s w = (ev, s', w') \<Longrightarrow> ev = [] \<and> all_built c m w'"
proof (induction as arbitrary: k s w ev)
  case (Cons a as)
  obtain k1 s1 where k1: "all_pending_after ext base a s k = (Some k1, s1)" "all_pending ext base as s1 k1 = Some m"
    using Cons.prems(3) by (auto split: prod.splits option.splits)
  obtain ev1 s2 w1 es where r: "all_register ext base a s w = (ev1, s2, w1)"
    "all_register_all ext base as s2 w1 = (es, s', w')" "ev = ev1 @ es"
    using Cons.prems(4) by (auto split: prod.splits)
  have "ev1 = []" "s2 = s1" "all_built c k1 w1" "k1 \<le> Suc k"
    using all_built_register [OF Cons.prems(1) _ k1(1) r(1)] Cons.prems(2) by simp_all
  with Cons.IH [OF this(3) _ k1(2)] Cons.prems(2) r(2,3) show ?case by simp
qed simp

text \<open>
  C24: \<^verbatim>\<open>when_all\<close> from its constructor to its destructor.  An object built from fewer than
  \<open>2 ^ 32 - 1\<close> awaiters, none of which is completed more than once, is in a state of the
  concurrent system, and exactly the operations that were not completed meanwhile are pending.
  Its destructor returns at once when none is pending; otherwise it blocks,
  in a state that the suspension of the waiting thread's frame leads to, so that the last
  completion, and only that, resumes it.
\<close>

theorem when_all_construct_join:
  assumes "length as \<le> 2 ^ 32 - 2" and "all_pending ext base as s 0 = Some m"
    and "all_construct ext base as s = (ev, s', w)"
  shows "ev = [] \<and> (\<exists>st. reachable all_init (all_step (Coro a)) st \<and> wa st = w \<and> \<not> sus st \<and> pend st = m
       \<and> (case all_dtor a w of (blocks, ev', w') \<Rightarrow>
            (blocks \<longleftrightarrow> 0 < m) \<and> ev' = []
            \<and> (if blocks then all_step (Coro a) st (st\<lparr>wa := w', sus := True\<rparr>) else w' = w)))"
proof -
  have b: "ev = []" "all_built a m w"
    using all_built_register_all [OF all_built_new _ assms(2), of ev s' w a] assms(1,3) by (simp_all add: all_construct_def)
  then obtain st where st: "reachable all_init (all_step (Coro a)) st" "wa st = w" "\<not> sus st" "pend st = m"
    unfolding all_built_def by blast
  have inv: "all_inv (Coro a) st" using all.reachable_inv [OF st(1)] .
  have count: "unat (wa_count w) = Suc m" and r: "wa_r w = prepared_empty"
    using inv st(2-4) by (auto simp: all_inv_def)
  have "when_all_await_ready w \<longleftrightarrow> m = 0"
    using count by (simp add: when_all_await_ready_def word_le_nat_alt)
  moreover have "all_step (Coro a) st (st\<lparr>wa := w\<lparr>wa_r := prepared_of (Coro a), wa_count := wa_count w - 1\<rparr>, sus := True\<rparr>)
      \<and> all_wait a w = (True, [], w\<lparr>wa_r := prepared_of (Coro a), wa_count := wa_count w - 1\<rparr>)"
    if "m \<noteq> 0"
  proof -
    let ?w = "w\<lparr>wa_r := prepared_of (Coro a), wa_count := wa_count w - 1\<rparr>"
    have "when_all_await_suspend (Coro a) w = (Noop_coroutine, [], ?w)"
      using that counter_do_resume_unat [of "w\<lparr>wa_r := prepared_of (Coro a)\<rparr>" m] count r
      by (cases w) (simp add: when_all_await_suspend_def prepared_simps)
    then show ?thesis
      using all_step.suspend [of st "Coro a" Noop_coroutine "[]" ?w] st(2,3) calculation that
      by (simp add: all_wait_def get_handle_def sync_frame_new_def sync_wait_returns_def)
  qed
  ultimately show ?thesis
    using st b(1) by (intro conjI exI [of _ st]) (auto simp: all_wait_def all_dtor_def)
qed

text \<open>The first awaiter is ready, the second stays pending, the third refuses.\<close>

theorem when_all_construct_join_witness:
  "\<exists>st. reachable all_init (all_step (Coro 9)) st \<and> wa_count (wa st) = 2 \<and> pend st = 1"
proof -
  let ?w = "\<lparr>wa_count = 2, wa_r = prepared_empty\<rparr>" and ?as = "take 3 sample_awaiters"
  have "all_construct sample_outside 100 ?as () = ([], (), ?w)" "all_pending sample_outside 100 ?as () 0 = Some 1"
    by code_simp+
  moreover have "length ?as \<le> 2 ^ 32 - 2" by (simp add: sample_awaiters_def)
  ultimately show ?thesis
    using when_all_construct_join [of ?as sample_outside 100 "()" 1 "[]" "()" ?w 9] by auto
qed

end
