(* ===== verification/Async_Generator.thy ===== *)
theory Async_Generator
  imports Await_Facts
begin

text \<open>
  \<^verbatim>\<open>async_generator<T, Param>\<close> (\<^verbatim>\<open>async_generator.h\<close>): the promise with its yield
  awaiter, calling and starting a generator, its iterators and its destruction.  The body of a
  generator is the client's; it enters as the function that gives, at each resumption, what the
  body does next.
\<close>

section \<open>The promise\<close>

text \<open>
  The promise and what the frame adds to it: whether it stands at its final suspension and
  where the body is.  \<^verbatim>\<open>_prom\<close> is only its target.
\<close>

record ('p, 'b) gen_promise =
  gp_target :: "awt_ptr option"
  gp_param :: "'p option"
  gp_started :: bool
  gp_done :: bool
  gp_body :: 'b

definition gen_new :: "'b \<Rightarrow> ('p, 'b) gen_promise" where
  "gen_new b = \<lparr>gp_target = None, gp_param = None, gp_started = False, gp_done = False, gp_body = b\<rparr>"

definition gen_yield_value ::
    "exn + 'v \<Rightarrow> ('p, 'b) gen_promise \<Rightarrow> 'v store \<Rightarrow> ('p, 'b) gen_promise \<times> 'v store" where
  "gen_yield_value mk g s =
     (g\<lparr>gp_started := True\<rparr>, case gp_target g of Some t \<Rightarrow> set_value t mk s | None \<Rightarrow> s)"

definition gen_yield_exception ::
    "exn \<Rightarrow> ('p, 'b) gen_promise \<Rightarrow> 'v store \<Rightarrow> ('p, 'b) gen_promise \<times> 'v store" where
  "gen_yield_exception e g s =
     (g\<lparr>gp_started := True\<rparr>, case gp_target g of Some t \<Rightarrow> set_exception t e s | None \<Rightarrow> s)"

definition gen_unhandled_exception :: "exn \<Rightarrow> ('p, 'b) gen_promise \<Rightarrow> 'v store \<Rightarrow> 'v store" where
  "gen_unhandled_exception e g s = (case gp_target g of Some t \<Rightarrow> set_exception t e s | None \<Rightarrow> s)"

text \<open>\<^verbatim>\<open>yield_awaiter::await_suspend\<close>, which also ends the generator.\<close>

definition yield_await_suspend ::
    "('p, 'b) gen_promise \<Rightarrow> 'v store \<Rightarrow> coro_handle \<times> ('p, 'b) gen_promise \<times> 'v store" where
  "yield_await_suspend g s =
     (let (r, s1) = (case gp_target g of Some t \<Rightarrow> wakeup t s | None \<Rightarrow> (prepared_empty, s))
      in (fst (symmetric_transfer r), g\<lparr>gp_target := None\<rparr>, s1))"

text \<open>\<^verbatim>\<open>yield_awaiter::await_resume\<close>: the parameter that \<^verbatim>\<open>co_yield\<close> returns.\<close>

definition yield_await_resume :: "('p, 'b) gen_promise \<Rightarrow> 'p option" where
  "yield_await_resume g = gp_param g"

definition gen_set_param :: "'p \<Rightarrow> ('p, 'b) gen_promise \<Rightarrow> ('p, 'b) gen_promise" where
  "gen_set_param x g = g\<lparr>gp_param := Some x\<rparr>"

text \<open>\<^verbatim>\<open>next\<close>, for the frame at the address \<open>a\<close>; the result parameter is destructed on return.\<close>

definition gen_next ::
    "nat \<Rightarrow> awaitable_result \<Rightarrow> ('p, 'b) gen_promise \<Rightarrow> 'v store
     \<Rightarrow> prepared_coro \<times> ('p, 'b) gen_promise \<times> 'v store" where
  "gen_next a r g s =
     (if gp_done g then (prepared_empty, g, result_dtor r s)
      else let (t, r') = result_release r
           in (prepared_of (Coro a), g\<lparr>gp_target := t\<rparr>, result_dtor r' s))"

definition did_started :: "('p, 'b) gen_promise \<Rightarrow> bool" where
  "did_started g = gp_started g"

section \<open>The body\<close>

text \<open>
  What a resumed body does next: it yields a value (or fails to construct it), yields an
  exception, returns, or lets an exception escape.  The first resumption starts the body, each
  later one continues at a \<^verbatim>\<open>co_yield\<close>, which returns the parameter.  A body that awaits
  something else before it gets there does so between the resumption and the action.
\<close>

datatype 'v gen_action = G_yield "exn + 'v" | G_yield_exception exn | G_return | G_throw exn

type_synonym ('v, 'p, 'b) gen_body = "'b \<Rightarrow> 'p option \<Rightarrow> 'v gen_action \<times> 'b"

text \<open>
  The body reaches its next suspension: the promise is told, then the yield awaiter, or the
  same awaiter as the final one, wakes the target up and transfers to it.
\<close>

definition gen_resume ::
    "('v, 'p, 'b) gen_body \<Rightarrow> ('p, 'b) gen_promise \<Rightarrow> 'v store
     \<Rightarrow> coro_handle \<times> ('p, 'b) gen_promise \<times> 'v store" where
  "gen_resume body g s =
     (let (act, b) = body (gp_body g) (if gp_started g then yield_await_resume g else None);
          g1 = g\<lparr>gp_body := b\<rparr>
      in case act of
           G_yield mk \<Rightarrow> let (g2, s2) = gen_yield_value mk g1 s in yield_await_suspend g2 s2
         | G_yield_exception e \<Rightarrow> let (g2, s2) = gen_yield_exception e g1 s in yield_await_suspend g2 s2
         | G_return \<Rightarrow> yield_await_suspend (g1\<lparr>gp_done := True\<rparr>) s
         | G_throw e \<Rightarrow> yield_await_suspend (g1\<lparr>gp_done := True\<rparr>) (gen_unhandled_exception e g1 s))"

section \<open>The generator object\<close>

text \<open>
  The closure that \<^verbatim>\<open>operator()\<close> and \<^verbatim>\<open>start\<close> put into the awaitable, as the
  effect on the store and the promise.
\<close>

definition gen_closure ::
    "nat \<Rightarrow> awaitable_result \<Rightarrow> ('p, 'b) gen_promise \<Rightarrow> 'v store
     \<Rightarrow> prepared_coro \<times> ('p, 'b) gen_promise \<times> 'v store" where
  "gen_closure a r g s = (if \<not> result_bool r then (prepared_empty, g, s) else gen_next a r g s)"

text \<open>The member \<^verbatim>\<open>_g\<close> is null in an uninitialised generator; \<open>cb\<close> names the closure.\<close>

definition gen_call ::
    "nat \<Rightarrow> 'p \<Rightarrow> ('p, 'b) gen_promise option \<Rightarrow> 'v aw_state \<times> ('p, 'b) gen_promise option" where
  "gen_call cb x g =
     (case g of None \<Rightarrow> (No_value, None) | Some g \<Rightarrow> (Callback cb, Some (gen_set_param x g)))"

definition gen_start :: "nat \<Rightarrow> ('p, 'b) gen_promise option \<Rightarrow> 'v aw_state" where
  "gen_start cb g =
     (case g of
        None \<Rightarrow> No_value
      | Some g \<Rightarrow> if did_started g then No_value else Callback cb)"

text \<open>The deleter destroys the frame; the promise has no destructor of its own.\<close>

definition gen_dtor :: "nat \<Rightarrow> ('p, 'b) gen_promise option \<Rightarrow> 'v store \<Rightarrow> 'v store" where
  "gen_dtor a g s = (case g of None \<Rightarrow> s | Some g \<Rightarrow> emit [Destroy a] s)"

text \<open>
  The object that the coroutine returns, and the moves of the \<^verbatim>\<open>unique_ptr\<close> member: an
  assignment first destroys the generator that the object held, at the frame \<open>a\<close>.
\<close>

definition gen_get_return_object :: "('p, 'b) gen_promise \<Rightarrow> ('p, 'b) gen_promise option" where
  "gen_get_return_object g = Some g"

definition gen_move ::
    "('p, 'b) gen_promise option \<Rightarrow> ('p, 'b) gen_promise option \<times> ('p, 'b) gen_promise option" where
  "gen_move other = (other, None)"

definition gen_move_assign ::
    "nat \<Rightarrow> ('p, 'b) gen_promise option \<Rightarrow> ('p, 'b) gen_promise option \<Rightarrow> 'v store
     \<Rightarrow> ('p, 'b) gen_promise option \<times> ('p, 'b) gen_promise option \<times> 'v store" where
  "gen_move_assign a this other s = (other, None, gen_dtor a this s)"

text \<open>
  The closure refers to the generator object, not to the frame: it dereferences the member that
  the object has when the closure is called.
\<close>

definition gen_closure_this ::
    "nat \<Rightarrow> awaitable_result \<Rightarrow> ('p, 'b) gen_promise option \<Rightarrow> 'v store
     \<Rightarrow> cpp_error + (prepared_coro \<times> ('p, 'b) gen_promise option \<times> 'v store)" where
  "gen_closure_this a r this s =
     (if \<not> result_bool r then Inr (prepared_empty, this, s)
      else case this of
        None \<Rightarrow> Inl Null_dereference
      | Some g \<Rightarrow> let (pc, g', s') = gen_closure a r g s in Inr (pc, Some g', s'))"

text \<open>
  One invocation by an awaiting coroutine (or frame) with the handle \<open>h\<close>: the awaitable at \<open>p\<close>
  gets the closure and is awaited, which transfers to the generator, which transfers back.
\<close>

definition gen_pull ::
    "('v, 'p, 'b) gen_body \<Rightarrow> nat \<Rightarrow> nat \<Rightarrow> awt_ptr \<Rightarrow> coro_handle \<Rightarrow> 'p
     \<Rightarrow> ('p, 'b) gen_promise \<Rightarrow> 'v store \<Rightarrow> cpp_error + ('p, 'b) gen_promise \<times> 'v store" where
  "gen_pull body a cb p h x g s =
     (case gen_call cb x (Some g) of
        (_, None) \<Rightarrow> Inl Null_dereference
      | (st, Some g1) \<Rightarrow>
          let s1 = construct p st s;
              call = (\<lambda>_ r s. let (pc, _, s') = gen_closure a r g1 s in (pc, s'));
              (pc, g2, _) = gen_closure a (Some p) g1 s1
          in (case await_suspend call p h s1 of
                Inl e \<Rightarrow> Inl e
              | Inr (nxt, s2) \<Rightarrow>
                  if nxt = Coro a then
                    let (back, g3, s3) = gen_resume body g2 (emit (handle_transfer nxt) s2)
                    in Inr (g3, emit (handle_transfer back) s3)
                  else Inr (g2, emit (handle_transfer nxt) s2)))"

section \<open>Iterators\<close>

text \<open>
  An iterator is the state of its awaitable.  The end iterator has no value; the copy is made
  by \<^verbatim>\<open>copy_value\<close>; the comparison asks both for \<^verbatim>\<open>operator!\<close>.
\<close>

definition iter_end :: "'v aw_state" where
  "iter_end = No_value"

definition iter_copy :: "'v option \<Rightarrow> 'v aw_state \<Rightarrow> 'v aw_state" where
  "iter_copy dflt it = copy_value dflt it"

definition iter_eq :: "'v aw_state \<Rightarrow> 'v aw_state \<Rightarrow> bool" where
  "iter_eq x y \<longleftrightarrow> x = No_value \<and> y = No_value"

definition iter_deref :: "'v aw_state \<Rightarrow> exn + 'v" where
  "iter_deref it =
     (case it of Value v \<Rightarrow> Inr v | Exception e \<Rightarrow> Inl e | _ \<Rightarrow> Inl await_canceled_exception)"

text \<open>
  \<^verbatim>\<open>fetch\<close>: the old awaitable is resolved, so destroying it does nothing; \<open>sf\<close> is the frame
  the thread waits with.
\<close>

definition iter_fetch ::
    "('v, 'p, 'b) gen_body \<Rightarrow> nat \<Rightarrow> nat \<Rightarrow> awt_ptr \<Rightarrow> nat \<Rightarrow> 'p \<Rightarrow> ('p, 'b) gen_promise option \<Rightarrow> 'v store
     \<Rightarrow> cpp_error + ('v aw_state \<times> ('p, 'b) gen_promise option \<times> 'v store)" where
  "iter_fetch body a cb p sf x g s =
     (case g of
        None \<Rightarrow> Inr (No_value, None, construct p No_value s)
      | Some g \<Rightarrow>
          (case gen_pull body a cb p (Coro sf) x g s of
             Inl e \<Rightarrow> Inl e
           | Inr (g', s') \<Rightarrow> Inr (state_of s' p, Some g', s')))"

text \<open>\<^verbatim>\<open>begin()\<close>: the iterator's constructor fetches the first item.\<close>

definition iter_begin ::
    "('v, 'p, 'b) gen_body \<Rightarrow> nat \<Rightarrow> nat \<Rightarrow> awt_ptr \<Rightarrow> nat \<Rightarrow> 'p \<Rightarrow> ('p, 'b) gen_promise option \<Rightarrow> 'v store
     \<Rightarrow> cpp_error + ('v aw_state \<times> ('p, 'b) gen_promise option \<times> 'v store)" where
  "iter_begin body a cb p sf x g s = iter_fetch body a cb p sf x g s"

section \<open>What the consumer sees\<close>

text \<open>The specification: the states the awaitables of successive calls end in.\<close>

fun act_state :: "'v gen_action \<Rightarrow> 'v aw_state" where
  "act_state (G_yield mk) = outcome_state mk"
| "act_state (G_yield_exception e) = Exception e"
| "act_state G_return = No_value"
| "act_state (G_throw e) = Exception e"

fun act_ends :: "'v gen_action \<Rightarrow> bool" where
  "act_ends (G_yield mk) = False"
| "act_ends (G_yield_exception e) = False"
| "act_ends _ = True"

fun gen_spec :: "('v, 'p, 'b) gen_body \<Rightarrow> ('b \<times> bool) option \<Rightarrow> 'p list \<Rightarrow> 'v aw_state list" where
  "gen_spec body st [] = []"
| "gen_spec body None (x # xs) = No_value # gen_spec body None xs"
| "gen_spec body (Some (b, first)) (x # xs) =
     (let (act, b') = body b (if first then None else Some x)
      in act_state act # gen_spec body (if act_ends act then None else Some (b', False)) xs)"

fun gen_pulls ::
    "('v, 'p, 'b) gen_body \<Rightarrow> nat \<Rightarrow> nat \<Rightarrow> awt_ptr \<Rightarrow> coro_handle \<Rightarrow> 'p list
     \<Rightarrow> ('p, 'b) gen_promise \<Rightarrow> 'v store \<Rightarrow> cpp_error + ('v aw_state list \<times> 'v store)" where
  "gen_pulls body a cb p h [] g s = Inr ([], s)"
| "gen_pulls body a cb p h (x # xs) g s =
     (case gen_pull body a cb p h x g s of
        Inl e \<Rightarrow> Inl e
      | Inr (g', s') \<Rightarrow>
          (case gen_pulls body a cb p h xs g' s' of
             Inl e \<Rightarrow> Inl e
           | Inr (sts, s'') \<Rightarrow> Inr (state_of s' p # sts, s'')))"

fun gen_rel :: "('b \<times> bool) option \<Rightarrow> ('p, 'b) gen_promise \<Rightarrow> bool" where
  "gen_rel None g = gp_done g"
| "gen_rel (Some (b, first)) g = (\<not> gp_done g \<and> gp_body g = b \<and> first = (\<not> gp_started g))"

lemma wakeup_unready:
  "\<not> ready_state (state_of s p) \<Longrightarrow> dispatched (state_of s p) \<Longrightarrow>
   wakeup p s = (prepared_of (owner_of s p), resolved p No_value s)"
  by (simp add: wakeup_def is_ready_def await_ready_def drop_awt_def resolved_def)

lemma gen_resume_resolves:
  assumes "gp_target g = Some p" and "\<not> ready_state (state_of s p)" and "dispatched (state_of s p)"
    and "owner_of s p = Coro c"
    and "body (gp_body g) (if gp_started g then gp_param g else None) = (act, b)"
  shows "gen_resume body g s =
     (Coro c,
      g\<lparr>gp_target := None, gp_started := (gp_started g \<or> \<not> act_ends act),
        gp_done := (gp_done g \<or> act_ends act), gp_body := b\<rparr>,
      resolved p (act_state act) s)"
  unfolding gen_resume_def yield_await_resume_def assms(5) Let_def prod.case using assms(1-4)
  by (cases act)
     (simp_all add: yield_await_suspend_def gen_yield_value_def
        gen_yield_exception_def gen_unhandled_exception_def set_value_dispatched set_exception_def
        wakeup_ready wakeup_unready transfer_of resolved_def)

lemma gen_pull_live:
  assumes "\<not> gp_done g"
    and "body (gp_body g) (if gp_started g then Some x else None) = (act, b)"
  shows "gen_pull body a cb p (Coro c) x g s =
     Inr (g\<lparr>gp_target := None, gp_param := Some x, gp_started := (gp_started g \<or> \<not> act_ends act),
            gp_done := act_ends act, gp_body := b\<rparr>,
          emit [Transfer a, Transfer c] (resolved p (act_state act) (construct p (Callback cb) s)))"
proof -
  let ?g = "g\<lparr>gp_param := Some x, gp_target := Some p\<rparr>"
  let ?s = "emit [Transfer a] (set_owner p (Coro c) (construct p (Callback cb) s))"
  have "gen_resume body ?g ?s =
     (Coro c,
      ?g\<lparr>gp_target := None, gp_started := (gp_started ?g \<or> \<not> act_ends act),
        gp_done := (gp_done ?g \<or> act_ends act), gp_body := b\<rparr>,
      resolved p (act_state act) ?s)"
    by (rule gen_resume_resolves) (use assms in \<open>simp_all split: if_splits\<close>)
  moreover have "emit [Transfer c] (resolved p (act_state act) ?s)
      = emit [Transfer a, Transfer c] (resolved p (act_state act) (construct p (Callback cb) s))"
    by (simp add: resolved_def emit_def set_owner_def set_state_def construct_def)
  ultimately show ?thesis
    using assms(1)
    by (simp add: gen_pull_def gen_call_def gen_set_param_def gen_closure_def gen_next_def result_bool_def
        result_release_def result_dtor_def await_suspend_def transfer_of Let_def)
qed

lemma gen_pull_done:
  assumes "gp_done g" and "cur_exn s = None"
  shows "gen_pull body a cb p (Coro c) x g s =
     Inr (g\<lparr>gp_param := Some x\<rparr>, emit [Resume c] (resolved p No_value (construct p (Callback cb) s)))"
proof -
  let ?s = "set_owner p (Coro c) (construct p (Callback cb) s)"
  have "result_dtor (Some p) ?s = emit [Resume c] (resolved p No_value ?s)"
    using assms(2) by (simp add: result_dtor_resolves life_state_def)
  moreover have "resolved p No_value ?s = resolved p No_value (construct p (Callback cb) s)"
    by (simp add: resolved_def set_owner_def set_state_def construct_def)
  ultimately show ?thesis
    using assms(1)
    by (simp add: gen_pull_def gen_call_def gen_set_param_def gen_closure_def gen_next_def result_bool_def
        await_suspend_def prepared_simps Let_def)
qed

lemma gen_pulls_spec:
  assumes "gen_rel st g" and "cur_exn s = None" and "a \<noteq> c"
  shows "\<exists>s'. gen_pulls body a cb p (Coro c) xs g s = Inr (gen_spec body st xs, s')
              \<and> use_count c (trace s') = use_count c (trace s) + length xs"
  using assms
proof (induction xs arbitrary: st g s)
  case Nil
  then show ?case by simp
next
  case (Cons x xs)
  show ?case
  proof (cases st)
    case None
    with Cons.prems have done_: "gp_done g" by simp
    let ?s = "emit [Resume c] (resolved p No_value (construct p (Callback cb) s))"
    have "cur_exn ?s = None" using Cons.prems by simp
    from Cons.IH [of None "g\<lparr>gp_param := Some x\<rparr>", OF _ this Cons.prems(3)] done_ None
    show ?thesis by (auto simp: gen_pull_done [OF done_ Cons.prems(2)])
  next
    case (Some bf)
    then obtain b first where st: "st = Some (b, first)" by (cases bf) auto
    obtain act b' where act: "body b (if first then None else Some x) = (act, b')" by fastforce
    have live: "\<not> gp_done g" and b: "gp_body g = b" and first: "first = (\<not> gp_started g)"
      using Cons.prems(1) st by auto
    have act': "body (gp_body g) (if gp_started g then Some x else None) = (act, b')"
      using act unfolding b first by (cases "gp_started g") simp_all
    let ?g = "g\<lparr>gp_target := None, gp_param := Some x, gp_started := (gp_started g \<or> \<not> act_ends act),
            gp_done := act_ends act, gp_body := b'\<rparr>"
    let ?s = "emit [Transfer a, Transfer c] (resolved p (act_state act) (construct p (Callback cb) s))"
    let ?st = "if act_ends act then None else Some (b', False)"
    have rel: "gen_rel ?st ?g" by simp
    have "cur_exn ?s = None" using Cons.prems by simp
    from Cons.IH [OF rel this Cons.prems(3)] obtain s'
      where run: "gen_pulls body a cb p (Coro c) xs ?g ?s = Inr (gen_spec body ?st xs, s')"
        and count: "use_count c (trace s') = use_count c (trace ?s) + length xs" by blast
    have "gen_pulls body a cb p (Coro c) (x # xs) g s = Inr (act_state act # gen_spec body ?st xs, s')"
      unfolding gen_pulls.simps gen_pull_live [of g body x act b', OF live act'] sum.case prod.case run by simp
    moreover have "gen_spec body st (x # xs) = act_state act # gen_spec body ?st xs"
      by (simp only: st gen_spec.simps act Let_def prod.case)
    moreover have "use_count c (trace s') = use_count c (trace s) + length (x # xs)"
      using count Cons.prems(3) by simp
    ultimately show ?thesis by simp
  qed
qed

text \<open>
  A range-based \<^verbatim>\<open>for\<close> over the generator, for as many turns as there are elements in
  \<open>xs\<close>: fetch, compare with the end iterator, read.  The result is what the body of the loop
  was given and the exception that left the loop, if reading threw one.
\<close>

fun iter_loop ::
    "('v, 'p, 'b) gen_body \<Rightarrow> nat \<Rightarrow> nat \<Rightarrow> awt_ptr \<Rightarrow> nat \<Rightarrow> 'p list
     \<Rightarrow> ('p, 'b) gen_promise option \<Rightarrow> 'v store \<Rightarrow> cpp_error + ('v list \<times> exn option)" where
  "iter_loop body a cb p sf [] g s = Inr ([], None)"
| "iter_loop body a cb p sf (x # xs) g s =
     (case iter_fetch body a cb p sf x g s of
        Inl e \<Rightarrow> Inl e
      | Inr (it, g', s') \<Rightarrow>
          if iter_eq it iter_end then Inr ([], None)
          else (case iter_deref it of
                  Inl e \<Rightarrow> Inr ([], Some e)
                | Inr v \<Rightarrow>
                    (case iter_loop body a cb p sf xs g' s' of
                       Inl e \<Rightarrow> Inl e
                     | Inr (vs, x') \<Rightarrow> Inr (v # vs, x'))))"

text \<open>What a loop makes of a list of outcomes: values up to the end or the first exception.\<close>

fun for_reads :: "'v aw_state list \<Rightarrow> 'v list \<times> exn option" where
  "for_reads [] = ([], None)"
| "for_reads (Value v # xs) = (v # fst (for_reads xs), snd (for_reads xs))"
| "for_reads (Exception e # xs) = ([], Some e)"
| "for_reads (_ # xs) = ([], None)"

lemma act_state_range: "act_state act = No_value \<or> (\<exists>v. act_state act = Value v) \<or> (\<exists>e. act_state act = Exception e)"
proof (cases act)
  case (G_yield mk)
  then show ?thesis by (cases mk) simp_all
qed simp_all

lemma iter_loop_spec:
  assumes "gen_rel st g" and "cur_exn s = None"
  shows "iter_loop body a cb p sf xs (Some g) s
         = Inr (for_reads (gen_spec body st xs))"
  using assms
proof (induction xs arbitrary: st g s)
  case Nil
  then show ?case by simp
next
  case (Cons x xs)
  show ?case
  proof (cases st)
    case None
    with Cons.prems have "gp_done g" by simp
    from gen_pull_done [OF this Cons.prems(2)] None show ?thesis
      by (simp add: iter_fetch_def iter_eq_def iter_end_def)
  next
    case (Some bf)
    then obtain b first where st: "st = Some (b, first)" by (cases bf) auto
    obtain act b' where act: "body b (if first then None else Some x) = (act, b')" by fastforce
    have live: "\<not> gp_done g" and b: "gp_body g = b" and first: "first = (\<not> gp_started g)"
      using Cons.prems(1) st by auto
    have act': "body (gp_body g) (if gp_started g then Some x else None) = (act, b')"
      using act unfolding b first by (cases "gp_started g") simp_all
    let ?st = "if act_ends act then None else Some (b', False)"
    have spec: "gen_spec body st (x # xs) = act_state act # gen_spec body ?st xs"
      by (simp only: st gen_spec.simps act Let_def prod.case)
    note pull = gen_pull_live [of g body x act b', OF live act', of a cb p sf s]
    show ?thesis
      unfolding spec iter_loop.simps iter_fetch_def option.case pull sum.case prod.case
      by (subst Cons.IH [of ?st])
        (use Cons.prems(2) act_state_range [of act] in
         \<open>auto simp: iter_eq_def iter_end_def iter_deref_def split: prod.split\<close>)
  qed
qed

section \<open>Properties\<close>

text \<open>
  C11: a generator hands its consumer exactly what its body does, in order: the call number \<open>n\<close>
  is resolved by the action number \<open>n\<close> of the body (a yielded value, a yielded exception, the
  exception that ended the body), every call after the end is resolved with no value, the
  parameter of each call but the first is what \<^verbatim>\<open>co_yield\<close> returns, and the consumer is
  resumed exactly once for each call.  A range-based \<^verbatim>\<open>for\<close> reads the values up to the end,
  or up to the first exception, which leaves the loop.
\<close>

theorem generator_delivers_in_order:
  assumes "cur_exn s = None" and "a \<noteq> c"
  shows "(\<exists>s'. gen_pulls body a cb p (Coro c) xs (gen_new b) s = Inr (gen_spec body (Some (b, True)) xs, s')
              \<and> use_count c (trace s') = use_count c (trace s) + length xs)
       \<and> iter_loop body a cb p c xs (Some (gen_new b)) s
         = Inr (for_reads (gen_spec body (Some (b, True)) xs))"
proof
  have rel: "gen_rel (Some (b, True)) (gen_new b)" by (simp add: gen_new_def)
  show "\<exists>s'. gen_pulls body a cb p (Coro c) xs (gen_new b) s = Inr (gen_spec body (Some (b, True)) xs, s')
              \<and> use_count c (trace s') = use_count c (trace s) + length xs"
    using rel assms by (rule gen_pulls_spec)
  show "iter_loop body a cb p c xs (Some (gen_new b)) s
         = Inr (for_reads (gen_spec body (Some (b, True)) xs))"
    using rel assms(1) by (rule iter_loop_spec)
qed

text \<open>A generator that counts up to its bound and adds the parameter.\<close>

definition count_body :: "(nat, nat, nat) gen_body" where
  "count_body b x =
     (if b < 2 then (G_yield (Inr (b + (case x of None \<Rightarrow> 0 | Some k \<Rightarrow> k))), b + 1) else (G_return, b))"

theorem generator_delivers_in_order_witness:
  "\<exists>s'. gen_pulls count_body 1 0 9 (Coro 5) [10, 20, 30, 40] (gen_new 0) pending_store
        = Inr ([Value 0, Value 21, No_value, No_value], s')
        \<and> use_count 5 (trace s') = 4
        \<and> iter_loop count_body 1 0 9 5 [10, 20, 30, 40] (Some (gen_new 0)) pending_store = Inr ([0, 21], None)"
  using generator_delivers_in_order [of pending_store 1 5 count_body 0 9 "[10, 20, 30, 40]" 0]
  by (simp add: pending_store_def count_body_def numeral_eq_Suc iter_deref_def del: gen_pulls.simps iter_loop.simps)

text \<open>
  Destroying a generator does not resolve a call that is pending: when the body has been
  resumed and awaits something else, its awaitable stays unresolved and the consumer that awaits
  on it is not resumed.  (A destroyed \<^verbatim>\<open>coroutine<T>\<close> resolves its target with no value.)
\<close>

lemma destroyed_generator_forgets_consumer:
  assumes "\<not> gp_done g" and "gen_closure a (Some p) g (set_owner p (Coro c) (construct p (Callback cb) s)) = (pc, g', s')"
    and "a \<noteq> c"
  shows "pc = prepared_of (Coro a) \<and> gp_target g' = Some p
       \<and> state_of (gen_dtor a (Some g') s') p = Callback cb
       \<and> owner_of (gen_dtor a (Some g') s') p = Coro c
       \<and> use_count c (trace (gen_dtor a (Some g') s')) = use_count c (trace s)"
proof -
  from assms(1,2) have "pc = prepared_of (Coro a)" and g: "g' = g\<lparr>gp_target := Some p\<rparr>"
    and s: "s' = set_owner p (Coro c) (construct p (Callback cb) s)"
    by (simp_all add: gen_closure_def result_bool_def gen_next_def result_release_def result_dtor_def)
  then show ?thesis using assms(3) by (simp add: gen_dtor_def s)
qed

lemma destroyed_generator_forgets_consumer_at_input:
  "\<exists>g' s'. gen_closure 1 (Some 9) (gen_new 0 :: (nat, nat) gen_promise) (set_owner 9 (Coro 5) (construct 9 (Callback 0) pending_store))
             = (prepared_of (Coro 1), g', s')
         \<and> owner_of (gen_dtor 1 (Some g') s') 9 = Coro 5"
proof -
  obtain pc g' s' where cl: "gen_closure 1 (Some 9) (gen_new 0 :: (nat, nat) gen_promise)
      (set_owner 9 (Coro 5) (construct 9 (Callback 0) pending_store)) = (pc, g', s')" by (metis prod_cases3)
  from destroyed_generator_forgets_consumer [OF _ cl] cl show ?thesis
    by (simp add: gen_new_def)
qed

section \<open>Calls that outlive what they refer to\<close>

text \<open>
  The member is set by the promise only when the body yields.  So \<^verbatim>\<open>start()\<close> can be called
  again while the body that the first call has resumed has not yielded yet: it does not return
  an awaitable without value, and awaiting on it replaces the target of the first call, whose
  consumer is not resumed by the yield that follows.
\<close>

lemma start_again_forgets_consumer:
  assumes "\<not> gp_done g" and "\<not> gp_started g" and "p \<noteq> q" and "dispatched (state_of s q)"
  shows "\<exists>g1 g2 s1 s2. gen_closure a (Some p) g s = (prepared_of (Coro a), g1, s1)
       \<and> gen_start cb (Some g1) = Callback cb
       \<and> gen_closure a (Some q) g1 s1 = (prepared_of (Coro a), g2, s2)
       \<and> gp_target g2 = Some q
       \<and> awts (snd (snd (yield_await_suspend (fst (gen_yield_value (Inr v) g2 s2)) (snd (gen_yield_value (Inr v) g2 s2))))) p
         = awts s p"
proof -
  let ?g1 = "g\<lparr>gp_target := Some p\<rparr>" and ?g2 = "g\<lparr>gp_target := Some q\<rparr>"
  have "gen_closure a (Some p) g s = (prepared_of (Coro a), ?g1, s)"
    "gen_closure a (Some q) ?g1 s = (prepared_of (Coro a), ?g2, s)"
    using assms(1) by (simp_all add: gen_closure_def result_bool_def gen_next_def result_release_def result_dtor_def)
  moreover have "gen_start cb (Some ?g1) = Callback cb" using assms(2) by (simp add: gen_start_def did_started_def)
  moreover have "awts (snd (snd (yield_await_suspend (fst (gen_yield_value (Inr v) ?g2 s)) (snd (gen_yield_value (Inr v) ?g2 s))))) p
      = awts s p"
    using assms(3,4)
    by (simp add: gen_yield_value_def yield_await_suspend_def set_value_dispatched wakeup_ready
        set_owner_def set_state_def)
  ultimately show ?thesis by (intro exI [of _ ?g1] exI [of _ ?g2] exI [of _ s]) simp
qed

text \<open>A generator that is moved between the call and the await leaves the call without its frame.\<close>

lemma moved_generator_call:
  "gen_closure_this a (Some p) (snd (gen_move g)) s = Inl Null_dereference
   \<and> gen_closure_this a None (snd (gen_move g)) s = Inr (prepared_empty, None, s)"
  by (simp add: gen_closure_this_def gen_move_def result_bool_def)

end
