(* ===== verification/Coro_Queue.thy ===== *)
theory Coro_Queue
  imports Await_Ops
begin

text \<open>
  \<^verbatim>\<open>coro_queue.h\<close>: the ring buffer \<^verbatim>\<open>limited_queue\<close> with its two 32-bit
  counters, the intrusive list \<^verbatim>\<open>link_list_queue\<close>, and of \<^verbatim>\<open>coro_basic_queue\<close>
  the members that can be instantiated (\<^verbatim>\<open>pop2\<close>, \<^verbatim>\<open>set_closed\<close>).
\<close>

section \<open>limited\_queue\<close>

text \<open>
  The template parameter \<^verbatim>\<open>count\<close> is a field.  An item of the array is \<open>None\<close>
  when no object lives in it.
\<close>

record 'a limited_queue =
  lq_count :: uint32
  lq_items :: "'a option list"
  lq_front :: uint32
  lq_back :: uint32

definition limited_new :: "uint32 \<Rightarrow> 'a limited_queue" where
  "limited_new c = \<lparr>lq_count = c, lq_items = replicate (unat c) None, lq_front = 0, lq_back = 0\<rparr>"

definition limited_is_full :: "'a limited_queue \<Rightarrow> bool" where
  "limited_is_full q \<longleftrightarrow> lq_count q \<le> lq_front q - lq_back q"

definition limited_is_empty :: "'a limited_queue \<Rightarrow> bool" where
  "limited_is_empty q \<longleftrightarrow> lq_front q - lq_back q = 0"

definition limited_push :: "'a \<Rightarrow> 'a limited_queue \<Rightarrow> 'a limited_queue" where
  "limited_push x q =
     q\<lparr>lq_items := (lq_items q)[unat (lq_front q mod lq_count q) := Some x],
       lq_front := lq_front q + 1\<rparr>"

definition limited_pop :: "'a limited_queue \<Rightarrow> 'a option \<times> 'a limited_queue" where
  "limited_pop q =
     (let i = unat (lq_back q mod lq_count q) in
      (lq_items q ! i, q\<lparr>lq_items := (lq_items q)[i := None], lq_back := lq_back q + 1\<rparr>))"

subsection \<open>The contract of a bounded queue\<close>

datatype 'a buf_op = Buf_push 'a | Buf_pop

datatype 'a buf_out = Pushed | Was_full | Got "'a option" | Was_empty

text \<open>A client that asks before it pushes or pops, as the comments of the class require.\<close>

fun buf_run ::
    "('q \<Rightarrow> bool) \<Rightarrow> ('q \<Rightarrow> bool) \<Rightarrow> ('a \<Rightarrow> 'q \<Rightarrow> 'q) \<Rightarrow> ('q \<Rightarrow> 'a option \<times> 'q)
     \<Rightarrow> 'a buf_op list \<Rightarrow> 'q \<Rightarrow> 'a buf_out list \<times> 'q" where
  "buf_run full vacant push pop [] q = ([], q)"
| "buf_run full vacant push pop (Buf_push x # ops) q =
     (if full q then apfst (Cons Was_full) (buf_run full vacant push pop ops q)
      else apfst (Cons Pushed) (buf_run full vacant push pop ops (push x q)))"
| "buf_run full vacant push pop (Buf_pop # ops) q =
     (if vacant q then apfst (Cons Was_empty) (buf_run full vacant push pop ops q)
      else apfst (Cons (Got (fst (pop q)))) (buf_run full vacant push pop ops (snd (pop q))))"

text \<open>The specification: a list of at most \<open>n\<close> elements.\<close>

definition list_run :: "nat \<Rightarrow> 'a buf_op list \<Rightarrow> 'a list \<Rightarrow> 'a buf_out list \<times> 'a list" where
  "list_run n =
     buf_run (\<lambda>xs. n \<le> length xs) (\<lambda>xs. xs = []) (\<lambda>x xs. xs @ [x]) (\<lambda>xs. (Some (hd xs), tl xs))"

locale bounded_queue =
  fixes full vacant :: "'q \<Rightarrow> bool" and push :: "'a \<Rightarrow> 'q \<Rightarrow> 'q" and pop :: "'q \<Rightarrow> 'a option \<times> 'q"
    and ok :: "'q \<Rightarrow> bool" and contents :: "'q \<Rightarrow> 'a list" and capacity :: "'q \<Rightarrow> nat"
  assumes full_iff: "ok q \<Longrightarrow> full q \<longleftrightarrow> capacity q \<le> length (contents q)"
    and empty_iff: "ok q \<Longrightarrow> vacant q \<longleftrightarrow> contents q = []"
    and push_law: "ok q \<Longrightarrow> \<not> full q \<Longrightarrow>
      ok (push x q) \<and> contents (push x q) = contents q @ [x] \<and> capacity (push x q) = capacity q"
    and pop_law: "ok q \<Longrightarrow> \<not> vacant q \<Longrightarrow>
      fst (pop q) = Some (hd (contents q)) \<and> ok (snd (pop q))
      \<and> contents (snd (pop q)) = tl (contents q) \<and> capacity (snd (pop q)) = capacity q"
begin

lemma run_refines:
  "ok q \<Longrightarrow> buf_run full vacant push pop ops q = (out, q') \<Longrightarrow>
   list_run (capacity q) ops (contents q) = (out, contents q') \<and> ok q'"
proof (induction ops arbitrary: q out)
  case Nil
  then show ?case by (simp add: list_run_def)
next
  case (Cons op ops)
  note IH = Cons.IH [unfolded list_run_def]
  show ?case
  proof (cases op)
    case (Buf_push x)
    show ?thesis
    proof (cases "full q")
      case True
      obtain o1 where "buf_run full vacant push pop ops q = (o1, q')" "out = Was_full # o1"
        using Cons.prems(2) Buf_push True by (cases "buf_run full vacant push pop ops q") auto
      with IH [OF Cons.prems(1)] True Buf_push full_iff [OF Cons.prems(1)] show ?thesis
        by (simp add: list_run_def)
    next
      case False
      obtain o1 where "buf_run full vacant push pop ops (push x q) = (o1, q')" "out = Pushed # o1"
        using Cons.prems(2) Buf_push False by (cases "buf_run full vacant push pop ops (push x q)") auto
      with IH [of "push x q"] push_law [OF Cons.prems(1) False, of x] False Buf_push
        full_iff [OF Cons.prems(1)] show ?thesis
        by (simp add: list_run_def)
    qed
  next
    case Buf_pop
    show ?thesis
    proof (cases "vacant q")
      case True
      obtain o1 where "buf_run full vacant push pop ops q = (o1, q')" "out = Was_empty # o1"
        using Cons.prems(2) Buf_pop True by (cases "buf_run full vacant push pop ops q") auto
      with IH [OF Cons.prems(1)] True Buf_pop empty_iff [OF Cons.prems(1)] show ?thesis
        by (simp add: list_run_def)
    next
      case False
      obtain o1 where "buf_run full vacant push pop ops (snd (pop q)) = (o1, q')"
        "out = Got (fst (pop q)) # o1"
        using Cons.prems(2) Buf_pop False by (cases "buf_run full vacant push pop ops (snd (pop q))") auto
      with IH [of "snd (pop q)"] pop_law [OF Cons.prems(1) False] False Buf_pop
        empty_iff [OF Cons.prems(1)] show ?thesis
        by (simp add: list_run_def)
    qed
  qed
qed

end

subsection \<open>The ring buffer implements it\<close>

definition lq_len :: "'a limited_queue \<Rightarrow> nat" where
  "lq_len q = unat (lq_front q - lq_back q)"

definition lq_pos :: "'a limited_queue \<Rightarrow> nat \<Rightarrow> nat" where
  "lq_pos q i = (unat (lq_back q) + i) mod unat (lq_count q)"

definition lq_contents :: "'a limited_queue \<Rightarrow> 'a list" where
  "lq_contents q = map (\<lambda>i. the (lq_items q ! lq_pos q i)) [0..<lq_len q]"

text \<open>
  The capacity divides the range of the counters, and the objects that live in the array are
  exactly those between the counters.
\<close>

definition lq_ok :: "'a limited_queue \<Rightarrow> bool" where
  "lq_ok q \<longleftrightarrow>
     0 < unat (lq_count q) \<and> unat (lq_count q) dvd 2 ^ 32
     \<and> length (lq_items q) = unat (lq_count q) \<and> lq_len q \<le> unat (lq_count q)
     \<and> (\<forall>j < unat (lq_count q). lq_items q ! j \<noteq> None \<longleftrightarrow> j \<in> lq_pos q ` {..<lq_len q})"

lemma mod_add_inj:
  assumes "(b + i) mod c = (b + j) mod c" and "i < c" and "j < (c :: nat)"
  shows "i = j"
proof -
  have "i mod c = j mod c" using assms(1) by (simp add: mod_add_cong nat_mod_eq_iff)
  with assms(2,3) show ?thesis by simp
qed

lemma lq_okD:
  assumes "lq_ok q"
  shows "0 < unat (lq_count q)" "unat (lq_count q) dvd 2 ^ 32"
    "length (lq_items q) = unat (lq_count q)" "lq_len q \<le> unat (lq_count q)"
    "j < unat (lq_count q) \<Longrightarrow> lq_items q ! j \<noteq> None \<longleftrightarrow> j \<in> lq_pos q ` {..<lq_len q}"
  using assms unfolding lq_ok_def by blast+

lemma lq_pos_less: "lq_ok q \<Longrightarrow> lq_pos q i < unat (lq_count q)"
  unfolding lq_pos_def by (rule mod_less_divisor [OF lq_okD(1)])

lemma lq_pos_inj:
  "lq_pos q i = lq_pos q j \<Longrightarrow> i < unat (lq_count q) \<Longrightarrow> j < unat (lq_count q) \<Longrightarrow> i = j"
  unfolding lq_pos_def by (rule mod_add_inj)

lemma lq_front_pos:
  assumes "lq_ok q"
  shows "unat (lq_front q mod lq_count q) = lq_pos q (lq_len q)"
proof -
  have "lq_front q = lq_back q + (lq_front q - lq_back q)" by simp
  then have "unat (lq_front q) = (unat (lq_back q) + lq_len q) mod 2 ^ 32"
    unfolding lq_len_def using unat_word_ariths(1) [of "lq_back q" "lq_front q - lq_back q"] by simp
  then show ?thesis using lq_okD(2) [OF assms]
    by (simp add: unat_mod lq_pos_def mod_mod_cancel)
qed

lemma lq_back_pos: "unat (lq_back q mod lq_count q) = lq_pos q 0"
  by (simp add: unat_mod lq_pos_def)

lemma lq_full_iff: "lq_ok q \<Longrightarrow> limited_is_full q \<longleftrightarrow> unat (lq_count q) \<le> length (lq_contents q)"
  by (simp add: limited_is_full_def word_le_nat_alt lq_contents_def lq_len_def)

lemma lq_empty_iff: "limited_is_empty q \<longleftrightarrow> lq_contents q = []"
  by (simp add: limited_is_empty_def lq_contents_def lq_len_def unat_eq_0)

lemma lq_len_push:
  assumes "\<not> limited_is_full q"
  shows "lq_len (limited_push x q) = Suc (lq_len q)"
proof -
  have "lq_front q - lq_back q < lq_count q" using assms by (simp add: limited_is_full_def)
  then have "lq_front q - lq_back q \<noteq> -1" by (metis word_order.extremum_strict)
  then show ?thesis
    using unat_Suc_word [of "lq_front q - lq_back q"]
    by (simp add: limited_push_def lq_len_def algebra_simps)
qed

lemma lq_pos_push [simp]: "lq_pos (limited_push x q) i = lq_pos q i" "lq_count (limited_push x q) = lq_count q"
  by (simp_all add: limited_push_def lq_pos_def)

lemma lq_push_law:
  assumes "lq_ok q" and "\<not> limited_is_full q"
  shows "lq_ok (limited_push x q) \<and> lq_contents (limited_push x q) = lq_contents q @ [x]"
proof
  note D = lq_okD [OF assms(1)] and len = lq_len_push [OF assms(2), of x]
  let ?n = "lq_len q"
  have n: "?n < unat (lq_count q)" using assms(2) by (simp add: limited_is_full_def word_le_nat_alt lq_len_def)
  have items: "lq_items (limited_push x q) = (lq_items q)[lq_pos q ?n := Some x]"
    by (simp add: limited_push_def lq_front_pos [OF assms(1)])
  have lt: "lq_pos q i < length (lq_items q)" for i using lq_pos_less [OF assms(1)] D(3) by simp
  have "lq_items (limited_push x q) ! j \<noteq> None \<longleftrightarrow> j \<in> lq_pos q ` {..<Suc ?n}"
    if "j < unat (lq_count q)" for j
    using D(5) [OF that] lt [of ?n] by (simp add: items nth_list_update lessThan_Suc)
  with D(1-3) n show "lq_ok (limited_push x q)"
    unfolding lq_ok_def by (simp add: items len)
  have "lq_items (limited_push x q) ! lq_pos q i = lq_items q ! lq_pos q i" if "i < ?n" for i
  proof -
    have "lq_pos q ?n \<noteq> lq_pos q i" using lq_pos_inj [of q ?n i] n that by auto
    then show ?thesis by (simp add: items)
  qed
  then show "lq_contents (limited_push x q) = lq_contents q @ [x]"
    using lt [of ?n] by (simp add: lq_contents_def len items)
qed

lemma limited_pop_fields [simp]:
  "lq_back (snd (limited_pop q)) = lq_back q + 1" "lq_front (snd (limited_pop q)) = lq_front q"
  "lq_count (snd (limited_pop q)) = lq_count q"
  "lq_items (snd (limited_pop q)) = (lq_items q)[lq_pos q 0 := None]"
  "fst (limited_pop q) = lq_items q ! lq_pos q 0"
  by (simp_all add: limited_pop_def Let_def lq_back_pos)

lemma lq_pos_pop:
  assumes "lq_ok q"
  shows "lq_pos (snd (limited_pop q)) i = lq_pos q (Suc i)"
proof -
  have "unat (lq_back q + 1) = (unat (lq_back q) + 1) mod 2 ^ 32" by (simp add: unat_word_ariths)
  then have "lq_pos (snd (limited_pop q)) i
      = ((unat (lq_back q) + 1) mod 2 ^ 32 mod unat (lq_count q) + i) mod unat (lq_count q)"
    by (simp only: limited_pop_fields lq_pos_def mod_add_left_eq)
  then show ?thesis using lq_okD(2) [OF assms]
    by (simp only: lq_pos_def mod_mod_cancel mod_add_left_eq) simp
qed

lemma lq_len_pop:
  assumes "\<not> limited_is_empty q"
  shows "lq_len q = Suc (lq_len (snd (limited_pop q)))"
proof -
  have e: "lq_front q - (lq_back q + 1) = (lq_front q - lq_back q) - 1" by simp
  have "lq_front q - lq_back q \<noteq> 0" using assms by (simp add: limited_is_empty_def)
  then have "unat (lq_front q - lq_back q) = Suc (unat (lq_front q - lq_back q - 1))"
    using unat_minus_one [of "lq_front q - lq_back q"] unat_eq_0 [of "lq_front q - lq_back q"] by linarith
  then show ?thesis
    by (simp only: limited_pop_fields lq_len_def e)
qed

lemma lq_pop_law:
  assumes "lq_ok q" and "\<not> limited_is_empty q"
  shows "fst (limited_pop q) = Some (hd (lq_contents q)) \<and> lq_ok (snd (limited_pop q))
       \<and> lq_contents (snd (limited_pop q)) = tl (lq_contents q)
       \<and> lq_count (snd (limited_pop q)) = lq_count q"
proof -
  let ?q = "snd (limited_pop q)" and ?n = "lq_len (snd (limited_pop q))"
  note D = lq_okD [OF assms(1)] and len = lq_len_pop [OF assms(2)] and pos = lq_pos_pop [OF assms(1)]
  have lt: "lq_pos q i < length (lq_items q)" for i using lq_pos_less [OF assms(1)] D(3) by simp
  have ne: "lq_pos q (Suc i) \<noteq> lq_pos q 0" if "i < ?n" for i
    using lq_pos_inj [of q "Suc i" 0] that len D(4) by auto
  have up: "[0..<lq_len q] = 0 # map Suc [0..<?n]" unfolding len by (simp add: map_Suc_upt upt_conv_Cons del: upt_Suc)
  have "lq_items q ! lq_pos q 0 \<noteq> None" using D(5) [OF lq_pos_less [OF assms(1)], of 0] len by auto
  moreover have "lq_items ?q ! lq_pos q (Suc i) = lq_items q ! lq_pos q (Suc i)" if "i < ?n" for i
    using ne [OF that] by simp
  then have "lq_contents ?q = tl (lq_contents q)"
    by (simp add: lq_contents_def up pos comp_def del: limited_pop_fields(4))
  moreover have live: "{..<lq_len q} = insert 0 (Suc ` {..<?n})" using len by (simp add: lessThan_Suc_eq_insert_0)
  have "lq_items ?q ! j \<noteq> None \<longleftrightarrow> j \<in> (\<lambda>i. lq_pos q (Suc i)) ` {..<?n}"
    if "j < unat (lq_count q)" for j
  proof (cases "j = lq_pos q 0")
    case True
    with lt [of 0] ne show ?thesis by fastforce
  next
    case False
    with D(5) [OF that] show ?thesis by (simp add: live image_image)
  qed
  then have "lq_ok ?q" using D(1-4) len unfolding lq_ok_def by (simp add: pos)
  ultimately show ?thesis by (auto simp: lq_contents_def up)
qed

interpretation ring: bounded_queue limited_is_full limited_is_empty limited_push limited_pop
  lq_ok lq_contents "\<lambda>q. unat (lq_count q)"
proof
  fix q :: "'a limited_queue" and x
  show "lq_ok q \<Longrightarrow> limited_is_full q \<longleftrightarrow> unat (lq_count q) \<le> length (lq_contents q)"
    by (rule lq_full_iff)
  show "limited_is_empty q \<longleftrightarrow> lq_contents q = []" by (rule lq_empty_iff)
  show "lq_ok q \<Longrightarrow> \<not> limited_is_full q \<Longrightarrow>
      lq_ok (limited_push x q) \<and> lq_contents (limited_push x q) = lq_contents q @ [x]
      \<and> unat (lq_count (limited_push x q)) = unat (lq_count q)"
    using lq_push_law [of q x] by simp
  show "lq_ok q \<Longrightarrow> \<not> limited_is_empty q \<Longrightarrow>
      fst (limited_pop q) = Some (hd (lq_contents q)) \<and> lq_ok (snd (limited_pop q))
      \<and> lq_contents (snd (limited_pop q)) = tl (lq_contents q)
      \<and> unat (lq_count (snd (limited_pop q))) = unat (lq_count q)"
    using lq_pop_law [of q] by simp
qed

abbreviation limited_run :: "'a buf_op list \<Rightarrow> 'a limited_queue \<Rightarrow> 'a buf_out list \<times> 'a limited_queue" where
  "limited_run \<equiv> buf_run limited_is_full limited_is_empty limited_push limited_pop"

lemma limited_new_ok: "0 < c \<Longrightarrow> unat c dvd 2 ^ 32 \<Longrightarrow> lq_ok (limited_new c) \<and> lq_contents (limited_new c) = []"
  by (simp add: limited_new_def lq_ok_def lq_contents_def lq_len_def word_greater_zero_iff unat_gt_0)

text \<open>
  C12: a \<^verbatim>\<open>limited_queue\<close> whose capacity divides the range of its 32-bit counters (a power
  of two) is a bounded first-in first-out queue, for ever: whatever sequence of pushes and
  pops a client makes, asking \<^verbatim>\<open>is_full\<close> and \<^verbatim>\<open>is_empty\<close> first, every answer is
  that of a list with that bound, also after the counters wrapped around any number of times.
\<close>

theorem limited_queue_is_fifo:
  assumes "0 < c" and "unat c dvd 2 ^ 32"
  shows "fst (buf_run limited_is_full limited_is_empty limited_push limited_pop ops (limited_new c))
         = fst (list_run (unat c) ops [])"
proof -
  obtain out q where r: "limited_run ops (limited_new c) = (out, q)" by fastforce
  have "lq_count (limited_new c) = c" by (simp add: limited_new_def)
  with ring.run_refines [OF conjunct1 [OF limited_new_ok [OF assms]] r]
    conjunct2 [OF limited_new_ok [OF assms]]
  have "list_run (unat c) ops [] = (out, lq_contents q)" by metis
  with r show ?thesis by simp
qed

theorem limited_queue_is_fifo_witness:
  "fst (buf_run limited_is_full limited_is_empty limited_push limited_pop
          [Buf_push 4, Buf_push 5, Buf_push 6, Buf_pop, Buf_pop, Buf_pop] (limited_new 2))
   = [Pushed, Pushed, Was_full, Got (Some (4::nat)), Got (Some 5), Was_empty]"
  using limited_queue_is_fifo [of 2 "[Buf_push 4, Buf_push 5, Buf_push 6, Buf_pop, Buf_pop, Buf_pop]"]
  by (simp add: list_run_def)

subsection \<open>Other capacities\<close>

lemma buf_run_append:
  "buf_run full vacant push pop (xs @ ys) q =
     (let (o1, q1) = buf_run full vacant push pop xs q;
          (o2, q2) = buf_run full vacant push pop ys q1
      in (o1 @ o2, q2))"
  by (induction full vacant push pop xs q rule: buf_run.induct)
     (auto simp: Let_def split: prod.splits)

definition turns :: "nat \<Rightarrow> nat buf_op list" where
  "turns n = concat (replicate n [Buf_push 0, Buf_pop])"

lemma turns_ring:
  "snd (limited_run (turns n) (limited_new 3))
   = \<lparr>lq_count = 3, lq_items = [None, None, None], lq_front = of_nat n, lq_back = of_nat n\<rparr>"
proof (induction n)
  case 0
  have "replicate 3 None = [None, None, None :: nat option]" by (simp add: numeral_3_eq_3)
  then show ?case by (simp add: turns_def limited_new_def)
next
  case (Suc n)
  let ?i = "unat (of_nat n mod 3 :: uint32)"
  have e: "turns (Suc n) = turns n @ [Buf_push 0, Buf_pop]"
    by (simp only: turns_def replicate_Suc replicate_append_same [symmetric] concat_append) simp
  have "?i < 3" by (simp add: unat_mod)
  then have i: "[None, None, None][?i := Some 0, ?i := None] = [None, None, None :: nat option]"
    by (auto simp: numeral_3_eq_3 less_Suc_eq)
  let ?q = "\<lparr>lq_count = 3, lq_items = [None, None, None :: nat option], lq_front = of_nat n, lq_back = of_nat n\<rparr>"
  have "\<not> limited_is_full ?q" unfolding limited_is_full_def word_le_nat_alt by simp
  moreover have "\<not> limited_is_empty (limited_push 0 ?q)"
    by (simp add: limited_is_empty_def limited_push_def)
  moreover have "snd (limited_pop (limited_push 0 ?q))
      = \<lparr>lq_count = 3, lq_items = [None, None, None], lq_front = of_nat (Suc n), lq_back = of_nat (Suc n)\<rparr>"
    using i by (simp add: limited_push_def limited_pop_def Let_def add.commute del: list_update.simps)
  ultimately have "snd (limited_run [Buf_push 0, Buf_pop] ?q)
      = \<lparr>lq_count = 3, lq_items = [None, None, None], lq_front = of_nat (Suc n), lq_back = of_nat (Suc n)\<rparr>"
    by simp
  with Suc show ?case by (simp add: e buf_run_append case_prod_beta Let_def del: buf_run.simps)
qed

lemma turns_list: "snd (list_run 3 (turns n) []) = []"
  by (induction n) (auto simp: turns_def list_run_def split: prod.splits)

text \<open>
  C36: other capacities break at the wrap-around.  A \<^verbatim>\<open>limited_queue\<close> of capacity 3,
  after \<open>2^32 - 1\<close> pushes and pops, is empty with its counters at the end of their range;
  of two items pushed then, both get the same place of the array: the first pop gives the
  second item, and the first is lost (overwritten without destruction).
\<close>

theorem limited_queue_wraps:
  "\<exists>ops. last (fst (buf_run limited_is_full limited_is_empty limited_push limited_pop ops (limited_new 3)))
           = Got (Some (2::nat))
       \<and> last (fst (list_run 3 ops [])) = Got (Some 1)"
proof -
  let ?ops = "turns (2 ^ 32 - 1) @ [Buf_push 1, Buf_push 2, Buf_pop]"
  obtain o1 where "limited_run (turns (2 ^ 32 - 1)) (limited_new 3)
      = (o1, \<lparr>lq_count = 3, lq_items = [None, None, None], lq_front = - 1, lq_back = - 1\<rparr>)"
    using turns_ring [of "2 ^ 32 - 1"] by (cases "limited_run (turns (2 ^ 32 - 1)) (limited_new 3)") simp
  moreover have "unat (-1 mod 3 :: uint32) = 0" by (simp add: unat_mod)
  moreover have "\<not> (3 :: uint32) \<le> 1" by (simp add: word_le_nat_alt)
  ultimately have "last (fst (limited_run ?ops (limited_new 3))) = Got (Some 2)"
    by (simp add: buf_run_append limited_is_full_def limited_is_empty_def limited_push_def
        limited_pop_def Let_def)
  moreover obtain o2 where "list_run 3 (turns (2 ^ 32 - 1)) [] = (o2, [])"
    using turns_list [of "2 ^ 32 - 1"] by (cases "list_run 3 (turns (2 ^ 32 - 1)) []") simp
  then have "last (fst (list_run 3 ?ops [])) = Got (Some 1)"
    by (simp add: list_run_def buf_run_append)
  ultimately show ?thesis by blast
qed

section \<open>link\_list\_queue\<close>

text \<open>The slots live in the temporary states of the waiting awaitables, by address.\<close>

record 'p list_slot =
  ls_payload :: 'p
  ls_next :: "nat option"

record link_list_queue =
  ll_first :: "nat option"
  ll_last :: "nat option"

definition ll_empty :: link_list_queue where
  "ll_empty = \<lparr>ll_first = None, ll_last = None\<rparr>"

definition ll_push ::
    "nat \<Rightarrow> link_list_queue \<times> (nat \<Rightarrow> 'p list_slot) \<Rightarrow> link_list_queue \<times> (nat \<Rightarrow> 'p list_slot)" where
  "ll_push s = (\<lambda>(q, h).
     case ll_last q of
       Some l \<Rightarrow> (q\<lparr>ll_last := Some s\<rparr>, h(l := (h l)\<lparr>ls_next := Some s\<rparr>))
     | None \<Rightarrow> (\<lparr>ll_first = Some s, ll_last = Some s\<rparr>, h))"

definition ll_pop ::
    "link_list_queue \<Rightarrow> (nat \<Rightarrow> 'p list_slot) \<Rightarrow> cpp_error + (nat option \<times> link_list_queue)" where
  "ll_pop q h =
     (let r = ll_first q in
      if r = ll_last q then Inr (r, ll_empty)
      else case r of
        None \<Rightarrow> Inl Null_dereference
      | Some a \<Rightarrow> Inr (r, q\<lparr>ll_first := ls_next (h a)\<rparr>))"

text \<open>The slots of the queue in their order.\<close>

fun ll_path :: "(nat \<Rightarrow> 'p list_slot) \<Rightarrow> nat \<Rightarrow> nat list \<Rightarrow> nat \<Rightarrow> bool" where
  "ll_path h a [] l = (a = l)"
| "ll_path h a (b # bs) l = (ls_next (h a) = Some b \<and> ll_path h b bs l)"

definition ll_list :: "link_list_queue \<Rightarrow> (nat \<Rightarrow> 'p list_slot) \<Rightarrow> nat list \<Rightarrow> bool" where
  "ll_list q h xs \<longleftrightarrow>
     distinct xs \<and>
     (case xs of
        [] \<Rightarrow> ll_first q = None \<and> ll_last q = None
      | a # as \<Rightarrow> \<exists>l. ll_first q = Some a \<and> ll_last q = Some l \<and> ll_path h a as l)"

lemma ll_path_last: "ll_path h a as l \<Longrightarrow> l = last (a # as)"
  by (induction as arbitrary: a) auto

lemma ll_path_push:
  "ll_path h a as l \<Longrightarrow> distinct (a # as) \<Longrightarrow>
   ll_path (h(l := (h l)\<lparr>ls_next := Some s\<rparr>)) a (as @ [s]) s"
proof (induction as arbitrary: a)
  case (Cons b bs)
  then have "l \<noteq> a" using ll_path_last [of h b bs l] by auto
  with Cons show ?case by auto
qed simp

lemma ll_push_list:
  assumes "ll_list q h xs" and "s \<notin> set xs" and "ll_push s (q, h) = (q', h')"
  shows "ll_list q' h' (xs @ [s]) \<and> (\<forall>a. ls_payload (h' a) = ls_payload (h a))"
proof (cases xs)
  case Nil
  with assms show ?thesis by (auto simp: ll_list_def ll_push_def)
next
  case (Cons a as)
  with assms(1) obtain l where "ll_first q = Some a" "ll_last q = Some l" "ll_path h a as l"
    by (auto simp: ll_list_def)
  with assms Cons ll_path_push [of h a as l s] show ?thesis by (auto simp: ll_list_def ll_push_def)
qed

lemma ll_pop_list:
  assumes "ll_list q h xs"
  shows "case xs of
           [] \<Rightarrow> ll_pop q h = Inr (None, q)
         | a # as \<Rightarrow> \<exists>q'. ll_pop q h = Inr (Some a, q') \<and> ll_list q' h as"
proof (cases xs)
  case Nil
  with assms show ?thesis by (cases q) (auto simp: ll_list_def ll_pop_def ll_empty_def)
next
  case (Cons a as)
  with assms obtain l where q: "ll_first q = Some a" "ll_last q = Some l" "ll_path h a as l"
    by (auto simp: ll_list_def)
  show ?thesis
  proof (cases as)
    case Nil
    with q Cons show ?thesis by (auto simp: ll_list_def ll_pop_def ll_empty_def)
  next
    case (Cons b bs)
    with q \<open>xs = a # as\<close> assms have "a \<noteq> l" using ll_path_last [OF q(3)] by (auto simp: ll_list_def)
    with q Cons \<open>xs = a # as\<close> assms show ?thesis by (auto simp: ll_list_def ll_pop_def)
  qed
qed

end
