(* ===== verification/Queue_Ops.thy ===== *)
theory Queue_Ops
  imports Coro_Queue
begin

text \<open>
  \<^verbatim>\<open>coro_basic_queue\<close> over a \<^verbatim>\<open>limited_queue\<close>: its state and the members
  \<^verbatim>\<open>pop2\<close> and \<^verbatim>\<open>set_closed\<close>.  (\<^verbatim>\<open>push\<close>, \<^verbatim>\<open>pop\<close> and
  \<^verbatim>\<open>clear\<close> cannot be instantiated: their closures use a pointer to a slot as the slot.)
\<close>

section \<open>State and operations\<close>

text \<open>\<open>vs\<close> holds the awaitables of the consumers, \<open>us\<close> those of the producers.\<close>

record 'a queue_state =
  qs_queue :: "'a limited_queue"
  qs_pop :: link_list_queue
  qs_pop_slots :: "nat \<Rightarrow> awaitable_result list_slot"
  qs_push :: link_list_queue
  qs_push_slots :: "nat \<Rightarrow> ('a \<times> awaitable_result) list_slot"
  qs_closed :: "exn option"
  vs :: "'a store"
  us :: "unit store"

text \<open>The popped item, and the prepared coroutine \<^verbatim>\<open>resm\<close>.\<close>

definition pop2 :: "'a queue_state \<Rightarrow> cpp_error + ('a option \<times> prepared_coro \<times> 'a queue_state)" where
  "pop2 w =
     (let (r, q1) = limited_pop (qs_queue w) in
      case ll_pop (qs_push w) (qs_push_slots w) of
        Inl e \<Rightarrow> Inl e
      | Inr (None, pq) \<Rightarrow> Inr (r, prepared_empty, w\<lparr>qs_queue := q1, qs_push := pq\<rparr>)
      | Inr (Some s, pq) \<Rightarrow>
          let (val, res) = ls_payload (qs_push_slots w s);
              (pc, res', u') = result_call res (Inr ()) (us w)
          in Inr (r, pc, w\<lparr>qs_queue := limited_push val q1, qs_push := pq, us := u',
               qs_push_slots := (qs_push_slots w)(s := (qs_push_slots w s)\<lparr>ls_payload := (val, res')\<rparr>)\<rparr>))"

text \<open>
  The loop at the end of \<^verbatim>\<open>set_closed\<close>: each consumer's result is assigned the
  exception, its prepared coroutine is dropped.
\<close>

partial_function (option) close_slots ::
    "nat option \<Rightarrow> exn \<Rightarrow> (nat \<Rightarrow> awaitable_result list_slot) \<Rightarrow> 'a store
     \<Rightarrow> ((nat \<Rightarrow> awaitable_result list_slot) \<times> 'a store) option" where
  "close_slots sl e h s =
     (case sl of
        None \<Rightarrow> Some (h, s)
      | Some a \<Rightarrow>
          let (pc, r, s1) = result_assign_exception (ls_payload (h a)) e s
          in close_slots (ls_next (h a)) e (h(a := (h a)\<lparr>ls_payload := r\<rparr>)) (emit (prepared_dtor pc) s1))"

text \<open>
  \<^verbatim>\<open>_closed = std::move(e)\<close> leaves \<^verbatim>\<open>e\<close> in a state that the standard does not
  fix; the next line tests it.  \<open>moved\<close> is what the standard library makes of it: some leave a
  null pointer, others copy.
\<close>

definition set_closed ::
    "(exn option \<Rightarrow> exn option) \<Rightarrow> exn option \<Rightarrow> 'a queue_state \<Rightarrow> 'a queue_state option" where
  "set_closed moved e w =
     (let w1 = w\<lparr>qs_closed := e\<rparr>; e1 = moved e in
      case e1 of
        None \<Rightarrow> Some w1
      | Some _ \<Rightarrow>
          let sl = ll_first (qs_pop w1);
              w2 = w1\<lparr>qs_pop := (qs_pop w1)\<lparr>ll_first := ll_last (qs_pop w1)\<rparr>\<rparr>
          in map_option (\<lambda>(h, s). w2\<lparr>qs_pop_slots := h, vs := s\<rparr>)
               (close_slots sl (the (qs_closed w2)) (qs_pop_slots w2) (vs w2)))"

section \<open>A pop lets a waiting producer in\<close>

lemma ll_list_payload: "ll_list q (h(s := (h s)\<lparr>ls_payload := x\<rparr>)) xs = ll_list q h xs"
proof -
  have "ll_path (h(s := (h s)\<lparr>ls_payload := x\<rparr>)) a as l = ll_path h a as l" for a as l
    by (induction as arbitrary: a) auto
  then show ?thesis by (simp add: ll_list_def split: list.split)
qed

text \<open>
  \<^verbatim>\<open>pop2\<close> takes the oldest item; when producers wait for room, the value of the one
  that came first goes to the end of the queue, its awaitable is resolved, its coroutine comes
  out to be resumed, and the other producers still wait in their order; otherwise nobody is
  resumed.
\<close>

lemma pop_admits_producer:
  assumes "lq_ok (qs_queue w)" and "lq_contents (qs_queue w) = x # xs"
    and "ll_list (qs_push w) (qs_push_slots w) ss"
    and "\<forall>s \<in> set ss. ls_payload (qs_push_slots w s) = (val s, Some (res s))"
    and "\<forall>s \<in> set ss. dispatched (state_of (us w) (res s))"
  shows "\<exists>w'. pop2 w = Inr (Some x, (case ss of [] \<Rightarrow> prepared_empty
                                     | s # _ \<Rightarrow> prepared_of (owner_of (us w) (res s))), w')
       \<and> lq_ok (qs_queue w') \<and> lq_contents (qs_queue w') = xs @ map val (take 1 ss)
       \<and> ll_list (qs_push w') (qs_push_slots w') (tl ss)
       \<and> us w' = (case ss of [] \<Rightarrow> us w | s # _ \<Rightarrow> resolved (res s) (Value ()) (us w))"
proof -
  have ne: "\<not> limited_is_empty (qs_queue w)" using assms(2) by (simp add: lq_empty_iff)
  note pop = lq_pop_law [OF assms(1) ne]
  obtain q1 where q1: "limited_pop (qs_queue w) = (Some x, q1)" "lq_ok q1" "lq_contents q1 = xs"
    using pop assms(2) by (cases "limited_pop (qs_queue w)") simp
  show ?thesis
  proof (cases ss)
    case Nil
    with ll_pop_list [OF assms(3)] assms(3) q1 show ?thesis by (simp add: pop2_def)
  next
    case (Cons s ss')
    with ll_pop_list [OF assms(3)] obtain pq where
      pq: "ll_pop (qs_push w) (qs_push_slots w) = Inr (Some s, pq)" "ll_list pq (qs_push_slots w) ss'"
      by auto
    have "\<not> limited_is_full q1"
      using lq_full_iff [OF q1(2)] lq_okD(4) [OF assms(1)] pop q1 assms(2)
      by (simp add: lq_contents_def) (metis length_Cons length_map length_upt minus_nat.diff_0 not_less_eq_eq)
    then have "lq_ok (limited_push (val s) q1)" "lq_contents (limited_push (val s) q1) = xs @ [val s]"
      using lq_push_law [OF q1(2), of "val s"] q1(3) by simp_all
    moreover have "result_call (Some (res s)) (Inr ()) (us w)
        = (prepared_of (owner_of (us w) (res s)), None, resolved (res s) (Value ()) (us w))"
      using result_step_resolves [of "us w" "res s" "R_call (Inr ())"] assms(5) Cons by simp
    ultimately show ?thesis
      using q1 pq assms(4) Cons by (simp add: pop2_def ll_list_payload)
  qed
qed

definition full_queue :: "nat queue_state" where
  "full_queue =
     \<lparr>qs_queue = limited_push 7 (limited_new 1), qs_pop = ll_empty,
      qs_pop_slots = (\<lambda>_. \<lparr>ls_payload = None, ls_next = None\<rparr>),
      qs_push = \<lparr>ll_first = Some 3, ll_last = Some 3\<rparr>,
      qs_push_slots = (\<lambda>a. \<lparr>ls_payload = (8, Some a), ls_next = None\<rparr>), qs_closed = None,
      vs = \<lparr>awts = (\<lambda>_. \<lparr>a_state = No_value, a_owner = Null_handle\<rparr>), frames = [], cur_exn = None, trace = []\<rparr>,
      us = \<lparr>awts = (\<lambda>_. \<lparr>a_state = No_value, a_owner = Coro 9\<rparr>), frames = [], cur_exn = None, trace = []\<rparr>\<rparr>"

lemma pop_admits_producer_at_input:
  "\<exists>w'. pop2 full_queue = Inr (Some 7, prepared_of (Coro 9), w') \<and> lq_contents (qs_queue w') = [8]
      \<and> us w' = resolved 3 (Value ()) (us full_queue)"
proof -
  have "lq_ok (qs_queue full_queue) \<and> lq_contents (qs_queue full_queue) = [7]"
    using lq_push_law [of "limited_new 1" "7::nat"] conjunct1 [OF limited_new_ok [of 1]]
      conjunct2 [OF limited_new_ok [of 1]]
    by (simp add: full_queue_def limited_is_full_def) (simp add: limited_new_def lq_contents_def lq_len_def)
  moreover have "ll_list (qs_push full_queue) (qs_push_slots full_queue) [3]"
    by (simp add: full_queue_def ll_list_def)
  ultimately show ?thesis
    using pop_admits_producer [of full_queue 7 "[]" "[3]" "\<lambda>_. 8" "\<lambda>a. a"]
    by (auto simp: full_queue_def)
qed

section \<open>Closing\<close>

lemma close_slots_path:
  assumes "ll_path h a as l" and "distinct (a # as)" and "ls_next (h l) = None"
    and "\<forall>x \<in> set (a # as). ls_payload (h x) = Some (res x) \<and> dispatched (state_of s (res x))"
    and "inj_on res (set (a # as))"
  shows "\<exists>h' s'. close_slots (Some a) e h s = Some (h', s')
       \<and> (\<forall>x \<in> set (a # as). state_of s' (res x) = Exception e)
       \<and> (\<forall>p. p \<notin> res ` set (a # as) \<longrightarrow> awts s' p = awts s p)"
  using assms
proof (induction as arbitrary: a h s)
  case Nil
  have r: "result_assign_exception (Some (res a)) e s
      = (prepared_of (owner_of s (res a)), None, resolved (res a) (Exception e) s)"
    using result_step_resolves [of s "res a" "R_assign_exception e"] Nil.prems(4) by simp
  with Nil.prems show ?case
    by (subst close_slots.simps, subst close_slots.simps)
      (simp add: resolved_def set_owner_def set_state_def)
next
  case (Cons b bs)
  have r: "result_assign_exception (Some (res a)) e s
      = (prepared_of (owner_of s (res a)), None, resolved (res a) (Exception e) s)"
    using result_step_resolves [of s "res a" "R_assign_exception e"] Cons.prems(4) by simp
  let ?h = "h(a := (h a)\<lparr>ls_payload := None\<rparr>)"
    and ?s = "emit (prepared_dtor (prepared_of (owner_of s (res a)))) (resolved (res a) (Exception e) s)"
  have awts: "p \<noteq> res a \<Longrightarrow> awts ?s p = awts s p" for p
    by (simp add: resolved_def set_owner_def set_state_def)
  have ne: "res x \<noteq> res a" if "x \<in> set (b # bs)" for x
    using Cons.prems(2,5) that by (auto simp: inj_on_def)
  have path: "ll_path ?h b bs l" using Cons.prems(1,2)
  proof -
    have "ll_path ?h c cs l = ll_path h c cs l" for c cs by (induction cs arbitrary: c) auto
    with Cons.prems(1) show ?thesis by simp
  qed
  have pay: "\<forall>x \<in> set (b # bs). ls_payload (?h x) = Some (res x) \<and> dispatched (state_of ?s (res x))"
    using Cons.prems(2,4) ne awts by auto
  have nl: "ls_next (?h l) = None" using Cons.prems(3) by auto
  have "distinct (b # bs)" "inj_on res (set (b # bs))"
    using Cons.prems(2,5) by (auto simp: inj_on_def)
  from Cons.IH [OF path this(1) nl pay this(2)] obtain h' s' where
    IH: "close_slots (Some b) e ?h ?s = Some (h', s')"
    "\<forall>x \<in> set (b # bs). state_of s' (res x) = Exception e"
    "\<forall>p. p \<notin> res ` set (b # bs) \<longrightarrow> awts s' p = awts ?s p" by blast
  have "res a \<notin> res ` set (b # bs)" using ne by (metis imageE)
  then have "awts s' (res a) = awts ?s (res a)" using IH(3) by blast
  then have "state_of s' (res a) = Exception e" by (simp add: resolved_def)
  moreover have "close_slots (Some a) e h s = Some (h', s')"
    using IH(1) r Cons.prems(1,4) by (subst close_slots.simps) simp
  ultimately show ?case using IH(2,3) awts by auto
qed

text \<open>
  \<^verbatim>\<open>set_closed(e)\<close> depends on the standard library.  Where a moved-from exception pointer is
  null, it records the exception and resolves nobody, although consumers may be in the list.
  Where moving copies, every one of them gets the exception.
\<close>

lemma set_closed_by_library:
  assumes "ll_list (qs_pop w) (qs_pop_slots w) (a # as)"
    and "ls_next (qs_pop_slots w (last (a # as))) = None"
    and "\<forall>x \<in> set (a # as). ls_payload (qs_pop_slots w x) = Some (res x) \<and> dispatched (state_of (vs w) (res x))"
    and "inj_on res (set (a # as))"
  shows "set_closed (\<lambda>_. None) (Some e) w = Some (w\<lparr>qs_closed := Some e\<rparr>)
       \<and> (\<exists>w'. set_closed (\<lambda>x. x) (Some e) w = Some w' \<and> qs_closed w' = Some e
             \<and> (\<forall>x \<in> set (a # as). state_of (vs w') (res x) = Exception e))"
proof
  show "set_closed (\<lambda>_. None) (Some e) w = Some (w\<lparr>qs_closed := Some e\<rparr>)"
    by (simp add: set_closed_def)
  obtain l where l: "ll_first (qs_pop w) = Some a" "ll_path (qs_pop_slots w) a as l" "distinct (a # as)"
    using assms(1) by (auto simp: ll_list_def)
  with ll_path_last [OF l(2)] assms(2) have "ls_next (qs_pop_slots w l) = None" by simp
  from close_slots_path [OF l(2,3) this assms(3,4), of e] obtain h s
    where "close_slots (Some a) e (qs_pop_slots w) (vs w) = Some (h, s)"
      "\<forall>x \<in> set (a # as). state_of s (res x) = Exception e" by blast
  with l(1) show "\<exists>w'. set_closed (\<lambda>x. x) (Some e) w = Some w' \<and> qs_closed w' = Some e
      \<and> (\<forall>x \<in> set (a # as). state_of (vs w') (res x) = Exception e)"
    by (simp add: set_closed_def)
qed

definition starving_queue :: "nat queue_state" where
  "starving_queue =
     full_queue\<lparr>qs_queue := limited_new 1, qs_push := ll_empty,
       qs_pop := \<lparr>ll_first = Some 3, ll_last = Some 5\<rparr>,
       qs_pop_slots := (\<lambda>a. \<lparr>ls_payload = Some a, ls_next = (if a = 3 then Some 5 else None)\<rparr>)\<rparr>"

lemma set_closed_by_library_at_input:
  "set_closed (\<lambda>_. None) (Some (user_exn 1)) starving_queue = Some (starving_queue\<lparr>qs_closed := Some (user_exn 1)\<rparr>)
   \<and> (\<exists>w'. set_closed (\<lambda>x. x) (Some (user_exn 1)) starving_queue = Some w'
        \<and> state_of (vs w') 5 = Exception (user_exn 1))"
  using set_closed_by_library [of starving_queue 3 "[5]" "\<lambda>a. a" "user_exn 1"]
  by (auto simp: starving_queue_def full_queue_def ll_list_def)

end
