(* ===== verification/Distributor.thy ===== *)
theory Distributor
  imports Await_Ops
begin

text \<open>
  \<^verbatim>\<open>coro_distributor.h\<close> and \<^verbatim>\<open>alert_flag.h\<close>: the broadcast of a value to all
  registered coroutines, their removal by an identity, and the alert flag that keeps a
  coroutine from registering.
\<close>

section \<open>alert\_flag\_type\<close>

type_synonym alert_flag = bool

definition alert_bool :: "alert_flag \<Rightarrow> bool" where
  "alert_bool a = a"

definition alert_set :: "alert_flag \<Rightarrow> alert_flag" where
  "alert_set a = True"

definition alert_test_and_reset :: "alert_flag \<Rightarrow> bool \<times> alert_flag" where
  "alert_test_and_reset a = (a, False)"

definition alert_reset :: "alert_flag \<Rightarrow> alert_flag" where
  "alert_reset a = False"

section \<open>distributor\<close>

text \<open>
  \<^verbatim>\<open>ident\<close> is an address; the address of an alert flag is one.  The listeners'
  awaitables and the flags live outside of the distributor.
\<close>

type_synonym ident = nat

record awaiting_info =
  ai_r :: awaitable_result
  ai_i :: ident

record 'v distributor =
  d_results :: "awaiting_info list"
  d_ready :: "prepared_coro list"
  d_flags :: "ident \<Rightarrow> alert_flag"
  d_st :: "'v store"

definition add_listener :: "awaitable_result \<Rightarrow> ident \<Rightarrow> 'v distributor \<Rightarrow> 'v distributor" where
  "add_listener r i d = d\<lparr>d_results := d_results d @ [\<lparr>ai_r = r, ai_i = i\<rparr>]\<rparr>"

text \<open>The parameter \<^verbatim>\<open>r\<close> is destroyed when the flag is set.\<close>

definition add_listener_alert :: "ident \<Rightarrow> awaitable_result \<Rightarrow> 'v distributor \<Rightarrow> 'v distributor" where
  "add_listener_alert a r d =
     (if alert_bool (d_flags d a) then d\<lparr>d_st := result_dtor r (d_st d)\<rparr>
      else d\<lparr>d_results := d_results d @ [\<lparr>ai_r = r, ai_i = a\<rparr>]\<rparr>)"

text \<open>
  The loop of \<^verbatim>\<open>broadcast\<close>; \<open>mk\<close> is the outcome of constructing the value.  The result
  objects are destroyed by \<^verbatim>\<open>_results.clear()\<close>.
\<close>

fun broadcast_loop ::
    "exn + 'v \<Rightarrow> awaiting_info list \<Rightarrow> 'v store \<Rightarrow> prepared_coro list \<times> awaitable_result list \<times> 'v store" where
  "broadcast_loop mk [] s = ([], [], s)"
| "broadcast_loop mk (x # xs) s =
     (let (pc, r, s1) = result_call (ai_r x) mk s;
          (pcs, rs, s2) = broadcast_loop mk xs s1
      in (pc # pcs, r # rs, s2))"

definition broadcast_buffer ::
    "prepared_coro list \<Rightarrow> exn + 'v \<Rightarrow> 'v distributor \<Rightarrow> prepared_coro list \<times> 'v distributor" where
  "broadcast_buffer buffer mk d =
     (let (pcs, rs, s) = broadcast_loop mk (d_results d) (d_st d)
      in (buffer @ pcs, d\<lparr>d_results := [], d_st := fold result_dtor rs s\<rparr>))"

text \<open>
  \<^verbatim>\<open>_ready_to_run.clear()\<close> destroys, hence resumes, in an order \<open>ord\<close> that the
  standard leaves open.
\<close>

definition any_order :: "('a list \<Rightarrow> 'a list) \<Rightarrow> bool" where
  "any_order ord \<longleftrightarrow> (\<forall>xs. mset (ord xs) = mset xs)"

definition broadcast ::
    "(prepared_coro list \<Rightarrow> prepared_coro list) \<Rightarrow> exn + 'v \<Rightarrow> 'v distributor \<Rightarrow> 'v distributor" where
  "broadcast ord mk d =
     (let (pcs, d1) = broadcast_buffer (d_ready d) mk d
      in d1\<lparr>d_ready := [], d_st := emit (concat (map prepared_dtor (ord pcs))) (d_st d1)\<rparr>)"

text \<open>\<^verbatim>\<open>std::find_if\<close> on the identity.\<close>

fun find_listener :: "ident \<Rightarrow> awaiting_info list \<Rightarrow> nat option" where
  "find_listener i [] = None"
| "find_listener i (x # xs) = (if ai_i x = i then Some 0 else map_option Suc (find_listener i xs))"

text \<open>The removal: swap with the last element, then \<^verbatim>\<open>pop_back\<close>.\<close>

definition swap_pop :: "nat \<Rightarrow> 'a list \<Rightarrow> 'a list" where
  "swap_pop k xs =
     (let l = length xs - 1 in butlast (if k \<noteq> l then xs[k := xs ! l, l := xs ! k] else xs))"

text \<open>
  \<^verbatim>\<open>kick_out(id, resolver)\<close>: the resolver takes the result object by value and gives the
  prepared coroutine (the empty one when it returns void).
\<close>

type_synonym 'v resolver = "awaitable_result \<Rightarrow> 'v store \<Rightarrow> prepared_coro \<times> 'v store"

definition kick_out :: "ident \<Rightarrow> 'v resolver \<Rightarrow> 'v distributor \<Rightarrow> prepared_coro \<times> 'v distributor" where
  "kick_out i resolver d =
     (case find_listener i (d_results d) of
        None \<Rightarrow> (prepared_empty, d)
      | Some k \<Rightarrow>
          let (out, s) = resolver (ai_r (d_results d ! k)) (d_st d);
              xs = (d_results d)[k := (d_results d ! k)\<lparr>ai_r := None\<rparr>]
          in (out, d\<lparr>d_results := swap_pop k xs, d_st := s\<rparr>))"

definition kick_out_exception ::
    "ident \<Rightarrow> exn \<Rightarrow> 'v distributor \<Rightarrow> prepared_coro \<times> 'v distributor" where
  "kick_out_exception i e =
     kick_out i (\<lambda>r s. let (pc, r', s') = result_set_exception r e s in (pc, result_dtor r' s'))"

definition kick_out_null :: "ident \<Rightarrow> 'v distributor \<Rightarrow> prepared_coro \<times> 'v distributor" where
  "kick_out_null i =
     kick_out i (\<lambda>r s. let (pc, r', s') = result_assign_nullopt r s in (pc, result_dtor r' s'))"

definition alert :: "ident \<Rightarrow> 'v distributor \<Rightarrow> prepared_coro \<times> 'v distributor" where
  "alert a d =
     (let d1 = d\<lparr>d_flags := (d_flags d)(a := alert_set (d_flags d a))\<rparr> in
      case find_listener a (d_results d1) of
        None \<Rightarrow> (prepared_empty, d1)
      | Some k \<Rightarrow>
          let (out, r, s) = result_assign_nullopt (ai_r (d_results d1 ! k)) (d_st d1);
              xs = (d_results d1)[k := (d_results d1 ! k)\<lparr>ai_r := r\<rparr>]
          in (out, d1\<lparr>d_results := swap_pop k xs, d_st := s\<rparr>))"

definition distributor_empty :: "'v distributor \<Rightarrow> bool" where
  "distributor_empty d \<longleftrightarrow> d_results d = []"

text \<open>The closures of the two \<^verbatim>\<open>operator()\<close>, called when the awaitable is awaited.\<close>

definition listen_callback :: "ident \<Rightarrow> awaitable_result \<Rightarrow> 'v distributor \<Rightarrow> prepared_coro \<times> 'v distributor" where
  "listen_callback i r d = (prepared_empty, add_listener r i d)"

definition listen_alert_callback ::
    "ident \<Rightarrow> awaitable_result \<Rightarrow> 'v distributor \<Rightarrow> prepared_coro \<times> 'v distributor" where
  "listen_alert_callback a r d = (prepared_empty, add_listener_alert a r d)"

section \<open>Lists of listeners\<close>

text \<open>Every registered result is unused and they belong to different, unresolved awaitables.\<close>

definition listeners_ok :: "'v distributor \<Rightarrow> bool" where
  "listeners_ok d \<longleftrightarrow>
     distinct (map ai_r (d_results d))
     \<and> (\<forall>x \<in> set (d_results d). \<exists>p. ai_r x = Some p \<and> dispatched (state_of (d_st d) p))"

lemma butlast_swap:
  "k < length xs \<Longrightarrow> swap_pop k xs = (if k = length xs - 1 then butlast xs else butlast (xs[k := last xs]))"
  by (cases xs rule: rev_cases)
     (auto simp: swap_pop_def Let_def list_update_append nth_append)

lemma mset_swap_pop:
  assumes "k < length xs"
  shows "add_mset (xs ! k) (mset (swap_pop k xs)) = mset xs"
proof (cases xs rule: rev_cases)
  case (snoc ys y)
  show ?thesis
  proof (cases "k = length ys")
    case False
    then have "k < length ys" using assms snoc by simp
    moreover have "swap_pop k xs = ys[k := y]" using assms snoc False \<open>k < length ys\<close>
      by (simp add: butlast_swap list_update_append)
    ultimately show ?thesis using snoc
      by (simp add: mset_update nth_append)
  qed (use snoc assms in \<open>simp add: butlast_swap nth_append\<close>)
qed (use assms in simp)

lemma find_listener_Some:
  "find_listener i xs = Some k \<Longrightarrow> k < length xs \<and> ai_i (xs ! k) = i"
  by (induction xs arbitrary: k) (auto split: if_splits)

lemma find_listener_None: "find_listener i xs = None \<longleftrightarrow> (\<forall>x \<in> set xs. ai_i x \<noteq> i)"
  by (induction xs) auto

lemma swap_pop_update: "k < length xs \<Longrightarrow> swap_pop k (xs[k := y]) = swap_pop k xs"
  by (cases xs rule: rev_cases) (auto simp: butlast_swap list_update_append nth_append)

abbreviation target :: "awaiting_info \<Rightarrow> awt_ptr" where
  "target x \<equiv> the (ai_r x)"

lemma resolved_other: "q \<noteq> p \<Longrightarrow> awts (resolved p st s) q = awts s q"
  by (simp add: resolved_def set_owner_def set_state_def)

lemma resolved_at: "awts (resolved p st s) p = \<lparr>a_state = st, a_owner = Null_handle\<rparr>"
  by (simp add: resolved_def set_owner_def set_state_def)

lemma broadcast_loop_resolves:
  assumes "distinct (map ai_r xs)" and "\<forall>x \<in> set xs. \<exists>p. ai_r x = Some p \<and> dispatched (state_of s p)"
  shows "broadcast_loop mk xs s =
     (map (\<lambda>x. prepared_of (owner_of s (target x))) xs, replicate (length xs) None,
      fold (\<lambda>x. resolved (target x) (outcome_state mk)) xs s)"
  using assms
proof (induction xs arbitrary: s)
  case (Cons x xs)
  then obtain p where p: "ai_r x = Some p" "dispatched (state_of s p)" by auto
  let ?s = "resolved p (outcome_state mk) s"
  have call: "result_call (Some p) mk s = (prepared_of (owner_of s p), None, ?s)"
    using result_step_resolves [OF p(2), of "R_call mk"] by simp
  have ne: "\<exists>q. ai_r y = Some q \<and> q \<noteq> p \<and> dispatched (state_of s q)" if "y \<in> set xs" for y
  proof -
    have "ai_r y \<noteq> Some p" using Cons.prems(1) p(1) that by force
    with Cons.prems(2) that show ?thesis by auto
  qed
  then have "\<forall>y \<in> set xs. \<exists>q. ai_r y = Some q \<and> dispatched (state_of ?s q)"
    by (metis resolved_other)
  with Cons.IH [of ?s] Cons.prems(1) have
    "broadcast_loop mk xs ?s = (map (\<lambda>x. prepared_of (owner_of ?s (target x))) xs,
       replicate (length xs) None, fold (\<lambda>x. resolved (target x) (outcome_state mk)) xs ?s)" by simp
  moreover have "owner_of ?s (target y) = owner_of s (target y)" if "y \<in> set xs" for y
    using ne [OF that] resolved_other by fastforce
  ultimately show ?case using call p(1) by simp
qed simp

lemma fold_resolved_other:
  "p \<notin> target ` set xs \<Longrightarrow> awts (fold (\<lambda>x. resolved (target x) st) xs s) p = awts s p"
  by (induction xs arbitrary: s) (auto simp: resolved_other)

lemma fold_resolved_trace: "trace (fold (\<lambda>x. resolved (target x) st) xs s) = trace s"
  by (induction xs arbitrary: s) auto

lemma fold_resolved_target:
  "p \<in> target ` set xs \<Longrightarrow>
   awts (fold (\<lambda>x. resolved (target x) st) xs s) p = \<lparr>a_state = st, a_owner = Null_handle\<rparr>"
proof (induction xs arbitrary: s)
  case (Cons y ys)
  then show ?case
    by (cases "p \<in> target ` set ys")
      (auto simp: fold_resolved_other resolved_at)
qed simp

lemma dtor_used: "(result_dtor None ^^ n) s = s"
  by (induction n) (simp_all add: result_dtor_def)

section \<open>Broadcast\<close>

lemma mset_concat_order: "any_order ord \<Longrightarrow> mset (concat (map f (ord xs))) = mset (concat (map f xs))"
  by (simp add: any_order_def mset_concat) (metis mset_map sum_mset_sum_list)

lemma broadcast_buffer_resolves:
  assumes "listeners_ok d"
  shows "broadcast_buffer buffer mk d =
     (buffer @ map (\<lambda>x. prepared_of (owner_of (d_st d) (target x))) (d_results d),
      d\<lparr>d_results := [], d_st := fold (\<lambda>x. resolved (target x) (outcome_state mk)) (d_results d) (d_st d)\<rparr>)"
  using assms broadcast_loop_resolves [of "d_results d" "d_st d" mk]
  by (simp add: broadcast_buffer_def listeners_ok_def dtor_used)

text \<open>
  C18: a broadcast reaches every registered coroutine exactly once: the awaitable of each
  listener is resolved with the value (or with the exception that its construction threw), each
  of their coroutines is resumed once (in whatever order the vector destroys its elements), no
  listener is left, and no other awaitable is touched.  A broadcast into a buffer hands out the
  same coroutines instead, in the order of the vector of listeners, and resumes none.
\<close>

theorem broadcast_reaches_all:
  assumes "listeners_ok d" and "d_ready d = []" and "any_order ord"
  shows "d_results (broadcast ord mk d) = [] \<and> d_ready (broadcast ord mk d) = []
       \<and> (\<exists>ev. trace (d_st (broadcast ord mk d)) = trace (d_st d) @ ev
            \<and> mset ev = mset (concat (map (\<lambda>x. handle_resume (owner_of (d_st d) (the (ai_r x)))) (d_results d))))
       \<and> (\<forall>x \<in> set (d_results d). awts (d_st (broadcast ord mk d)) (the (ai_r x))
            = \<lparr>a_state = outcome_state mk, a_owner = Null_handle\<rparr>)
       \<and> (\<forall>p. p \<notin> (\<lambda>x. the (ai_r x)) ` set (d_results d) \<longrightarrow>
            awts (d_st (broadcast ord mk d)) p = awts (d_st d) p)
       \<and> fst (broadcast_buffer buffer mk d)
         = buffer @ map (\<lambda>x. prepared_of (owner_of (d_st d) (the (ai_r x)))) (d_results d)
       \<and> trace (d_st (snd (broadcast_buffer buffer mk d))) = trace (d_st d)"
proof -
  let ?pcs = "map (\<lambda>x. prepared_of (owner_of (d_st d) (target x))) (d_results d)"
  let ?s = "fold (\<lambda>x. resolved (target x) (outcome_state mk)) (d_results d) (d_st d)"
  have b: "broadcast ord mk d = d\<lparr>d_results := [], d_ready := [],
      d_st := emit (concat (map prepared_dtor (ord ?pcs))) ?s\<rparr>"
    using assms(1,2) by (simp add: broadcast_def broadcast_buffer_resolves)
  have "mset (concat (map prepared_dtor (ord ?pcs)))
      = mset (concat (map (\<lambda>x. handle_resume (owner_of (d_st d) (target x))) (d_results d)))"
    unfolding mset_concat_order [OF assms(3)] by (simp add: comp_def)
  then show ?thesis
    using assms(1) by (simp add: b broadcast_buffer_resolves fold_resolved_trace fold_resolved_target fold_resolved_other)
qed

definition two_listeners :: "nat distributor" where
  "two_listeners =
     \<lparr>d_results = [\<lparr>ai_r = Some 4, ai_i = 0\<rparr>, \<lparr>ai_r = Some 2, ai_i = 9\<rparr>], d_ready = [],
      d_flags = (\<lambda>_. False),
      d_st = \<lparr>awts = (\<lambda>a. \<lparr>a_state = Callback 0, a_owner = Coro (10 + a)\<rparr>), frames = [],
              cur_exn = None, trace = []\<rparr>\<rparr>"

lemma two_listeners_ok: "listeners_ok two_listeners"
  by (simp add: two_listeners_def listeners_ok_def)

lemma rev_order: "any_order rev"
  by (simp add: any_order_def)

theorem broadcast_reaches_all_witness:
  "mset (trace (d_st (broadcast rev (Inr 5) two_listeners))) = {#Resume 14, Resume 12#}
   \<and> state_of (d_st (broadcast rev (Inr 5) two_listeners)) 2 = Value 5
   \<and> fst (broadcast_buffer [] (Inr 5) two_listeners) = [prepared_of (Coro 14), prepared_of (Coro 12)]"
  using broadcast_reaches_all [OF two_listeners_ok _ rev_order, of "Inr 5" "[]"]
  by (auto simp: two_listeners_def)

section \<open>Removal of a listener\<close>

text \<open>
  One listener with the identity is gone, its awaitable is resolved, its coroutine comes out;
  the rest of the distributor is as before (the listeners possibly in another order).
\<close>

definition removes_one ::
    "ident \<Rightarrow> 'v aw_state \<Rightarrow> 'v distributor \<Rightarrow> prepared_coro \<times> 'v distributor \<Rightarrow> bool" where
  "removes_one i st d r \<longleftrightarrow>
     (\<exists>x xs. x \<in> set (d_results d) \<and> ai_i x = i \<and> add_mset x (mset xs) = mset (d_results d)
        \<and> r = (prepared_of (owner_of (d_st d) (the (ai_r x))),
               d\<lparr>d_results := xs, d_st := resolved (the (ai_r x)) st (d_st d)\<rparr>))"

lemma kick_out_resolves:
  assumes "listeners_ok d"
    and "\<And>p s. dispatched (state_of s p) \<Longrightarrow> resolver (Some p) s = (prepared_of (owner_of s p), resolved p st s)"
  shows "if \<exists>x \<in> set (d_results d). ai_i x = i then removes_one i st d (kick_out i resolver d)
         else kick_out i resolver d = (prepared_empty, d)"
proof (cases "find_listener i (d_results d)")
  case None
  then show ?thesis using find_listener_None [of i "d_results d"] by (auto simp: kick_out_def)
next
  case (Some k)
  note k = find_listener_Some [OF Some]
  let ?x = "d_results d ! k"
  have mem: "?x \<in> set (d_results d)" using k by simp
  then obtain p where p: "ai_r ?x = Some p" "dispatched (state_of (d_st d) p)"
    using assms(1) unfolding listeners_ok_def by blast
  have "kick_out i resolver d = (prepared_of (owner_of (d_st d) (target ?x)),
      d\<lparr>d_results := swap_pop k (d_results d), d_st := resolved (target ?x) st (d_st d)\<rparr>)"
    using assms(2) [OF p(2)] p(1) Some k by (simp add: kick_out_def swap_pop_update)
  moreover have "add_mset ?x (mset (swap_pop k (d_results d))) = mset (d_results d)"
    using k by (simp add: mset_swap_pop)
  ultimately have "removes_one i st d (kick_out i resolver d)"
    unfolding removes_one_def using mem k by blast
  then show ?thesis using mem k by auto
qed

lemma exception_resolver:
  "dispatched (state_of s p) \<Longrightarrow>
   (let (pc, r', s') = result_set_exception (Some p) e s in (pc, result_dtor r' s'))
   = (prepared_of (owner_of s p), resolved p (Exception e) s)"
  using result_step_resolves [of s p "R_set_exception e"] by (simp add: result_dtor_def)

lemma nullopt_resolver:
  "dispatched (state_of s p) \<Longrightarrow>
   (let (pc, r', s') = result_assign_nullopt (Some p) s in (pc, result_dtor r' s'))
   = (prepared_of (owner_of s p), resolved p No_value s)"
  using result_step_resolves [of s p R_assign_nullopt] by (simp add: result_dtor_def)

text \<open>
  \<^verbatim>\<open>kick_out\<close> removes one listener with the identity, if there is one: its
  awaitable gets the exception (or no value), its coroutine is returned for resumption, every
  other listener stays registered exactly once and untouched.  Without such a listener nothing
  happens.
\<close>

lemma kick_out_exact:
  assumes "listeners_ok d"
  shows "if \<exists>x \<in> set (d_results d). ai_i x = i
         then removes_one i (Exception e) d (kick_out_exception i e d)
            \<and> removes_one i No_value d (kick_out_null i d)
         else kick_out_exception i e d = (prepared_empty, d) \<and> kick_out_null i d = (prepared_empty, d)"
  using kick_out_resolves [OF assms exception_resolver, of i e]
    kick_out_resolves [OF assms nullopt_resolver, of i]
  unfolding kick_out_exception_def kick_out_null_def by (auto split: if_splits)

lemma kick_out_exact_at_input:
  "removes_one 9 (Exception (user_exn 3)) two_listeners (kick_out_exception 9 (user_exn 3) two_listeners)
   \<and> kick_out_null 5 two_listeners = (prepared_empty, two_listeners)"
  using kick_out_exact [OF two_listeners_ok, of 9 "user_exn 3"]
    kick_out_exact [OF two_listeners_ok, of 5 "user_exn 3"]
  by (simp add: two_listeners_def)

section \<open>Alert\<close>

lemma alert_eq: "alert a d = kick_out_null a (d\<lparr>d_flags := (d_flags d)(a := True)\<rparr>)"
  by (auto simp: alert_def kick_out_null_def kick_out_def Let_def alert_set_def
      result_assign_nullopt_def result_dtor_def split: option.split prod.split)

lemma removes_one_ok:
  assumes "listeners_ok d" and "removes_one i st d (out, d')"
  shows "listeners_ok d'"
proof -
  obtain x xs where x: "x \<in> set (d_results d)" "add_mset x (mset xs) = mset (d_results d)"
    "d' = d\<lparr>d_results := xs, d_st := resolved (target x) st (d_st d)\<rparr>"
    using assms(2) by (auto simp: removes_one_def)
  have "mset (map ai_r (x # xs)) = mset (map ai_r (d_results d))"
    using arg_cong [OF x(2), of "image_mset ai_r"] by simp
  then have "distinct (map ai_r (x # xs))"
    using assms(1) unfolding listeners_ok_def by (metis mset_eq_imp_distinct_iff)
  moreover have "set (d_results d) = insert x (set xs)" using x(2) by (metis set_mset_add_mset_insert set_mset_mset)
  ultimately show ?thesis using assms(1) x(3)
    by (auto simp: listeners_ok_def resolved_def split: if_splits) (metis image_eqI)
qed





section \<open>The life of a distributor\<close>

inductive dist_step :: "'v distributor \<Rightarrow> 'v distributor \<Rightarrow> bool" where
  listen:
    "Some p \<notin> ai_r ` set (d_results d) \<Longrightarrow> dispatched (state_of (d_st d) p) \<Longrightarrow>
     dist_step d (snd (listen_callback i (Some p) d))"
| listen_alert:
    "Some p \<notin> ai_r ` set (d_results d) \<Longrightarrow> dispatched (state_of (d_st d) p) \<Longrightarrow>
     dist_step d (snd (listen_alert_callback a (Some p) d))"
| do_broadcast: "any_order ord \<Longrightarrow> dist_step d (broadcast ord mk d)"
| do_kick_exception: "dist_step d (snd (kick_out_exception i e d))"
| do_kick_null: "dist_step d (snd (kick_out_null i d))"
| do_alert: "dist_step d (snd (alert a d))"
| do_reset: "dist_step d (d\<lparr>d_flags := (d_flags d)(a := alert_reset (d_flags d a))\<rparr>)"
| await_again:
    "Some p \<notin> ai_r ` set (d_results d) \<Longrightarrow> dispatched st \<Longrightarrow>
     dist_step d (d\<lparr>d_st := set_owner p h (set_state p st (d_st d))\<rparr>)"

definition dist_init :: "'v distributor \<Rightarrow> bool" where
  "dist_init d \<longleftrightarrow> d_results d = [] \<and> d_ready d = []"

definition dist_inv :: "'v distributor \<Rightarrow> bool" where
  "dist_inv d \<longleftrightarrow> listeners_ok d \<and> d_ready d = []"

lemma listeners_ok_flags [simp]: "listeners_ok (d\<lparr>d_flags := f\<rparr>) = listeners_ok d"
  by (simp add: listeners_ok_def)

lemma listen_ok:
  "listeners_ok d \<Longrightarrow> Some p \<notin> ai_r ` set (d_results d) \<Longrightarrow> dispatched (state_of (d_st d) p) \<Longrightarrow>
   listeners_ok (add_listener (Some p) i d)"
  by (auto simp: listeners_ok_def add_listener_def)

lemma other_awaitable_ok:
  assumes "listeners_ok d" and "Some p \<notin> ai_r ` set (d_results d)"
    and "\<And>q. q \<noteq> p \<Longrightarrow> state_of s q = state_of (d_st d) q"
  shows "listeners_ok (d\<lparr>d_st := s\<rparr>)"
  using assms unfolding listeners_ok_def by simp (metis image_eqI)

lemma kick_ok:
  assumes "listeners_ok d" and "d_ready d = []"
  shows "dist_inv (snd (kick_out_exception i e d)) \<and> dist_inv (snd (kick_out_null i d))"
proof -
  have "dist_inv (snd r)" if "if X then removes_one i st d r else r = (prepared_empty, d)" for X st r
  proof (cases r)
    case (Pair out d')
    with that assms removes_one_ok [OF assms(1), of i st out d'] show ?thesis
      by (auto simp: dist_inv_def removes_one_def split: if_splits)
  qed
  with kick_out_resolves [OF assms(1) exception_resolver, of i e, folded kick_out_exception_def]
    kick_out_resolves [OF assms(1) nullopt_resolver, of i, folded kick_out_null_def]
  show ?thesis by blast
qed

lemma dist_step_inv: "dist_step d d' \<Longrightarrow> dist_inv d \<Longrightarrow> dist_inv d'"
proof (induction rule: dist_step.induct)
  case (listen p d i)
  then show ?case by (simp add: dist_inv_def listen_callback_def listen_ok) (simp add: add_listener_def)
next
  case (listen_alert p d a)
  have "listeners_ok (d\<lparr>d_st := result_dtor (Some p) (d_st d)\<rparr>)"
    using listen_alert by (intro other_awaitable_ok [of d p]) (simp_all add: dist_inv_def result_dtor_resolves)
  with listen_alert listen_ok [of d p a] show ?case
    by (simp add: dist_inv_def listen_alert_callback_def add_listener_alert_def add_listener_def)
next
  case (do_broadcast ord d mk)
  then show ?case by (simp add: dist_inv_def broadcast_def broadcast_buffer_def listeners_ok_def split: prod.split)
next
  case (do_alert d a)
  then show ?case using kick_ok [of "d\<lparr>d_flags := (d_flags d)(a := True)\<rparr>" a] by (simp add: alert_eq dist_inv_def)
next
  case (await_again p d st h)
  then have "listeners_ok (d\<lparr>d_st := set_owner p h (set_state p st (d_st d))\<rparr>)"
    by (intro other_awaitable_ok [of d p]) (simp_all add: dist_inv_def)
  with await_again show ?case by (simp add: dist_inv_def)
qed (use kick_ok in \<open>auto simp: dist_inv_def\<close>)

interpretation dist: step_invariant dist_init dist_step dist_inv
proof
  show "dist_init d \<Longrightarrow> dist_inv d" for d :: "'v distributor"
    by (simp add: dist_init_def dist_inv_def listeners_ok_def)
  show "dist_inv d \<Longrightarrow> dist_step d d' \<Longrightarrow> dist_inv d'" for d d' :: "'v distributor"
    by (rule dist_step_inv)
qed

text \<open>
  Whatever is done with a distributor (registrations with fresh awaitables, broadcasts,
  removals, alerts and resets in any order), at every moment the registered results are
  unused and belong to different awaitables, which can be resolved at once (none of them holds
  a coroutine that would have to be started or destroyed): nobody is registered twice, so that
  nobody is told anything twice.
\<close>

lemma distributor_listeners_pending:
  assumes "reachable dist_init dist_step d"
  shows "distinct (map ai_r (d_results d)) \<and> d_ready d = []
       \<and> (\<forall>x \<in> set (d_results d). \<exists>p. ai_r x = Some p \<and> dispatched (state_of (d_st d) p))"
  using dist.reachable_inv [OF assms] by (simp add: dist_inv_def listeners_ok_def)

lemma two_listeners_reachable: "reachable dist_init dist_step two_listeners"
proof -
  let ?d0 = "two_listeners\<lparr>d_results := []\<rparr>"
  let ?d1 = "snd (listen_callback 0 (Some 4) ?d0)"
  have "reachable dist_init dist_step ?d0" by (rule reachable.start) (simp add: dist_init_def two_listeners_def)
  moreover have "dist_step ?d0 ?d1" by (rule dist_step.listen) (simp_all add: two_listeners_def)
  moreover have "dist_step ?d1 (snd (listen_callback 9 (Some 2) ?d1))"
    by (rule dist_step.listen) (simp_all add: two_listeners_def listen_callback_def add_listener_def)
  moreover have "snd (listen_callback 9 (Some 2) ?d1) = two_listeners"
    by (simp add: two_listeners_def listen_callback_def add_listener_def)
  ultimately show ?thesis by (metis reachable.next_step)
qed

lemma distributor_listeners_pending_at_input:
  "distinct (map ai_r (d_results two_listeners)) \<and> length (d_results two_listeners) = 2"
  using distributor_listeners_pending [OF two_listeners_reachable] by (simp add: two_listeners_def)

end
