(* ===== verification/Dist_Listen.thy ===== *)
theory Dist_Listen
  imports Distributor Awaiters
begin

text \<open>
  Coroutines that listen to a \<^verbatim>\<open>distributor\<close> (\<^verbatim>\<open>coro_distributor.h\<close> over the awaitables of
  \<^verbatim>\<open>coroutine.h\<close>): awaiting a broadcast, broadcasts, removals, alerts and the destruction in
  any order, with the coroutines they resume.
\<close>

section \<open>The system\<close>

text \<open>\<open>listens\<close> logs the frame of every coroutine that awaited a broadcast.\<close>

record 'v listen_sys =
  ds :: "'v distributor"
  listens :: "nat list"

definition waiting_results :: "'v distributor \<Rightarrow> awaitable_result multiset" where
  "waiting_results d = mset (map ai_r (d_results d))"

text \<open>
  \<^verbatim>\<open>co_await dist(id)\<close> and \<^verbatim>\<open>co_await dist(alert_flag)\<close> in the coroutine with the handle
  \<open>h\<close>: the awaitable at \<open>p\<close> is built from the closure, which \<^verbatim>\<open>await_suspend\<close> calls.
\<close>

definition co_listen :: "ident \<Rightarrow> nat \<Rightarrow> awt_ptr \<Rightarrow> coro_handle \<Rightarrow> 'v distributor \<Rightarrow> 'v distributor" where
  "co_listen i cb p h d =
     (let (pc, d1) = listen_callback i (Some p) (d\<lparr>d_st := set_owner p h (construct p (Callback cb) (d_st d))\<rparr>)
      in d1\<lparr>d_st := emit (handle_resume (fst (symmetric_transfer pc))) (d_st d1)\<rparr>)"

definition co_listen_alert :: "ident \<Rightarrow> nat \<Rightarrow> awt_ptr \<Rightarrow> coro_handle \<Rightarrow> 'v distributor \<Rightarrow> 'v distributor" where
  "co_listen_alert a cb p h d =
     (let (pc, d1) = listen_alert_callback a (Some p) (d\<lparr>d_st := set_owner p h (construct p (Callback cb) (d_st d))\<rparr>)
      in d1\<lparr>d_st := emit (handle_resume (fst (symmetric_transfer pc))) (d_st d1)\<rparr>)"

text \<open>The prepared coroutine of a removal is dropped by the caller, outside of the lock.\<close>

definition drop_out :: "prepared_coro \<times> 'v distributor \<Rightarrow> 'v distributor" where
  "drop_out r = (let (pc, d) = r in d\<lparr>d_st := emit (prepared_dtor pc) (d_st d)\<rparr>)"

text \<open>
  A client's resolver that returns nothing and does with the result object what it wants
  (\<open>xs\<close>, then the destructor), under the lock; and a client that drops the coroutines of a
  broadcast into a buffer of its own.
\<close>

definition void_resolver :: "'v result_op list \<Rightarrow> 'v resolver" where
  "void_resolver xs r s = (prepared_empty, result_life r xs s)"

definition drop_buffer :: "prepared_coro list \<times> 'v distributor \<Rightarrow> 'v distributor" where
  "drop_buffer r = (let (pcs, d) = r in d\<lparr>d_st := emit (concat (map prepared_dtor pcs)) (d_st d)\<rparr>)"

text \<open>The implicit destructor: the results of the listeners are destructed, in any order.\<close>

fun listeners_dtor :: "awaiting_info list \<Rightarrow> 'v store \<Rightarrow> 'v store" where
  "listeners_dtor [] s = s"
| "listeners_dtor (x # xs) s = listeners_dtor xs (result_dtor (ai_r x) s)"

definition may_listen :: "awt_ptr \<Rightarrow> nat \<Rightarrow> 'v distributor \<Rightarrow> bool" where
  "may_listen p f d \<longleftrightarrow> Some p \<notin># waiting_results d \<and> pending_of f (waiting_results d) (d_st d) = 0"

inductive listen_step :: "'v listen_sys \<Rightarrow> 'v listen_sys \<Rightarrow> bool" where
  li_listen:
    "may_listen p f (ds s) \<Longrightarrow>
     listen_step s (s\<lparr>ds := co_listen i cb p (Coro f) (ds s), listens := listens s @ [f]\<rparr>)"
| li_listen_alert:
    "may_listen p f (ds s) \<Longrightarrow>
     listen_step s (s\<lparr>ds := co_listen_alert a cb p (Coro f) (ds s), listens := listens s @ [f]\<rparr>)"
| li_broadcast: "any_order ord \<Longrightarrow> listen_step s (s\<lparr>ds := broadcast ord mk (ds s)\<rparr>)"
| li_broadcast_buffer: "listen_step s (s\<lparr>ds := drop_buffer (broadcast_buffer [] mk (ds s))\<rparr>)"
| li_kick_out: "listen_step s (s\<lparr>ds := drop_out (kick_out i (void_resolver xs) (ds s))\<rparr>)"
| li_kick_exception: "listen_step s (s\<lparr>ds := drop_out (kick_out_exception i e (ds s))\<rparr>)"
| li_kick_null: "listen_step s (s\<lparr>ds := drop_out (kick_out_null i (ds s))\<rparr>)"
| li_alert: "listen_step s (s\<lparr>ds := drop_out (alert a (ds s))\<rparr>)"
| li_reset: "listen_step s (s\<lparr>ds := (ds s)\<lparr>d_flags := (d_flags (ds s))(a := alert_reset (d_flags (ds s) a))\<rparr>\<rparr>)"

definition listen_init :: "'v listen_sys \<Rightarrow> bool" where
  "listen_init s \<longleftrightarrow> d_results (ds s) = [] \<and> d_ready (ds s) = [] \<and> listens s = [] \<and> trace (d_st (ds s)) = []"

section \<open>The invariant\<close>

definition listen_inv :: "'v listen_sys \<Rightarrow> bool" where
  "listen_inv s \<longleftrightarrow> d_ready (ds s) = [] \<and> awaiters unresolved (waiting_results (ds s)) (listens s) (d_st (ds s))"

lemma awaiters_listeners_ok:
  assumes "awaiters unresolved (waiting_results d) L (d_st d)"
  shows "listeners_ok d"
proof -
  note inv = awaitersD [OF assms]
  have "distinct (map ai_r (d_results d))" using awaiters_distinct assms by (simp only: waiting_results_def)
  moreover have "\<exists>p. ai_r x = Some p \<and> dispatched (state_of (d_st d) p)" if "x \<in> set (d_results d)" for x
    using inv(2) [of "ai_r x"] that
    by (auto simp: waiting_results_def awaits_def unresolved_def split: option.splits)
  ultimately show ?thesis by (simp add: listeners_ok_def)
qed

lemma ready_simps [simp]:
  "d_ready (co_listen i cb p h d) = d_ready d" "d_ready (co_listen_alert i cb p h d) = d_ready d"
  "d_ready (broadcast ord mk d) = []"
  by (simp_all add: co_listen_def co_listen_alert_def listen_callback_def listen_alert_callback_def
      add_listener_def add_listener_alert_def broadcast_def broadcast_buffer_def split: prod.split)

text \<open>
  The broadcast resolves all listeners first and resumes them afterwards: \<open>ev\<close> are the
  resumptions that are still to come.
\<close>

lemma emit_emit: "emit ev' (emit ev s) = emit (ev @ ev') s"
  by (simp add: emit_def)

lemma resolved_emit: "resolved p x (emit ev s) = emit ev (resolved p x s)"
  by (simp add: resolved_def set_owner_def set_state_def emit_def)

lemma broadcast_loop_ends:
  assumes "awaiters unresolved (mset (map ai_r xs) + G) L (emit ev s)" and "broadcast_loop mk xs s = (pcs, rs, s')"
  shows "rs = replicate (length xs) None
       \<and> awaiters unresolved G L (emit (ev @ concat (map prepared_dtor pcs)) s')"
  using assms
proof (induction xs arbitrary: ev s pcs rs s')
  case (Cons x xs)
  let ?F = "mset (map ai_r xs) + G"
  obtain p f where p: "ai_r x = Some p" "dispatched (state_of s p)" "owner_of s p = Coro f"
    and fin: "\<And>y. awaiters unresolved ?F L (emit [Resume f] (resolved p y (emit ev s)))"
    using unset.await_ends [of "ai_r x" ?F L "emit ev s"] Cons.prems(1) by auto
  have call: "result_call (ai_r x) mk s = (prepared_of (Coro f), None, resolved p (outcome_state mk) s)"
    using result_step_resolves [of s p "R_call mk"] p by simp
  obtain qs ts where rest: "broadcast_loop mk xs (resolved p (outcome_state mk) s) = (qs, ts, s')"
    "pcs = prepared_of (Coro f) # qs" "rs = None # ts"
    using Cons.prems(2) call by (auto split: prod.splits)
  from fin have "awaiters unresolved ?F L (emit (ev @ [Resume f]) (resolved p (outcome_state mk) s))"
    by (simp add: resolved_emit emit_emit)
  from Cons.IH [OF this rest(1)] rest(2,3) show ?case by simp
qed simp

text \<open>The order of the resumptions does not matter.\<close>

lemma awaiters_order:
  assumes "mset ev = mset ev'"
  shows "awaiters ok F L (emit ev s) \<longleftrightarrow> awaiters ok F L (emit ev' s)"
proof -
  have "count_list ev x = count_list ev' x" for x using assms by (metis count_mset)
  moreover have "pending_of f F (emit ev s) = pending_of f F (emit ev' s)"
    "r \<in># F \<Longrightarrow> awaits ok (emit ev s) r = awaits ok (emit ev' s) r" for f r
    by (rule awaiters_cong, simp)+
  ultimately show ?thesis by (simp add: awaiters_def)
qed

lemma broadcast_ends:
  assumes "awaiters unresolved (waiting_results d) L (d_st d)" and "d_ready d = []" and "any_order ord"
  shows "awaiters unresolved (waiting_results (broadcast ord mk d)) L (d_st (broadcast ord mk d))"
    and "awaiters unresolved (waiting_results (drop_buffer (broadcast_buffer [] mk d))) L
           (d_st (drop_buffer (broadcast_buffer [] mk d)))"
proof -
  obtain pcs rs s' where loop: "broadcast_loop mk (d_results d) (d_st d) = (pcs, rs, s')"
    by (cases "broadcast_loop mk (d_results d) (d_st d)")
  from broadcast_loop_ends [OF _ loop, of "{#}" L "[]"] assms(1)
  have "rs = replicate (length (d_results d)) None" "awaiters unresolved {#} L (emit (concat (map prepared_dtor pcs)) s')"
    by (simp_all add: waiting_results_def)
  moreover from this(2) have "awaiters unresolved {#} L (emit (concat (map prepared_dtor (ord pcs))) s')"
    unfolding awaiters_order [OF mset_concat_order [OF assms(3)]] .
  ultimately show "awaiters unresolved (waiting_results (broadcast ord mk d)) L (d_st (broadcast ord mk d))"
    and "awaiters unresolved (waiting_results (drop_buffer (broadcast_buffer [] mk d))) L
           (d_st (drop_buffer (broadcast_buffer [] mk d)))"
    using loop assms(2)
    by (simp_all add: broadcast_def broadcast_buffer_def drop_buffer_def waiting_results_def dtor_used)
qed

lemma kick_out_ends:
  assumes "awaiters unresolved (waiting_results d) L (d_st d)" and d'_def: "d' = drop_out (kick_out i (void_resolver xs) d)"
  shows "awaiters unresolved (waiting_results d') L (d_st d')" and "d_ready d' = d_ready d"
proof -
  have "awaiters unresolved (waiting_results d') L (d_st d') \<and> d_ready d' = d_ready d"
  proof (cases "find_listener i (d_results d)")
    case None
    with assms show ?thesis by (simp add: kick_out_def drop_out_def prepared_simps waiting_results_def)
  next
    case (Some k)
    then have k: "k < length (d_results d)" using find_listener_Some by blast
    have "waiting_results d = add_mset (ai_r (d_results d ! k)) (mset (map ai_r (swap_pop k (d_results d))))"
      using arg_cong [OF mset_swap_pop [OF k], of "image_mset ai_r"] by (simp add: waiting_results_def)
    with assms(1) unset.life_ends [of "ai_r (d_results d ! k)" _ L "d_st d" xs] Some k show ?thesis
      by (simp add: d'_def kick_out_def drop_out_def void_resolver_def waiting_results_def swap_pop_update prepared_simps)
  qed
  then show "awaiters unresolved (waiting_results d') L (d_st d')" and "d_ready d' = d_ready d" by simp_all
qed

lemma removal_ends:
  assumes "awaiters unresolved (waiting_results d) L (d_st d)"
    and "removes_one i x d r \<or> r = (prepared_empty, d)"
  shows "awaiters unresolved (waiting_results (drop_out r)) L (d_st (drop_out r))"
    and "d_ready (drop_out r) = d_ready d"
proof -
  have "awaiters unresolved (waiting_results (drop_out r)) L (d_st (drop_out r)) \<and> d_ready (drop_out r) = d_ready d"
    using assms(2)
  proof
    assume "removes_one i x d r"
    then obtain y ys where y: "add_mset y (mset ys) = mset (d_results d)"
      "r = (prepared_of (owner_of (d_st d) (the (ai_r y))), d\<lparr>d_results := ys, d_st := resolved (the (ai_r y)) x (d_st d)\<rparr>)"
      unfolding removes_one_def by blast
    have F: "waiting_results d = add_mset (ai_r y) (mset (map ai_r ys))"
      using arg_cong [OF y(1), of "image_mset ai_r"] by (simp add: waiting_results_def)
    obtain p f where "ai_r y = Some p" "owner_of (d_st d) p = Coro f"
      and "awaiters unresolved (mset (map ai_r ys)) L (emit [Resume f] (resolved p x (d_st d)))"
      using unset.await_ends [of "ai_r y" "mset (map ai_r ys)" L "d_st d"] assms(1) F by metis
    with y(2) show ?thesis by (simp add: drop_out_def waiting_results_def)
  next
    assume "r = (prepared_empty, d)"
    with assms(1) show ?thesis by (simp add: drop_out_def waiting_results_def prepared_simps)
  qed
  then show "awaiters unresolved (waiting_results (drop_out r)) L (d_st (drop_out r))"
    and "d_ready (drop_out r) = d_ready d" by simp_all
qed

lemma listen_begins:
  assumes "awaiters unresolved (waiting_results d) L (d_st d)" and "may_listen p f d"
  shows "awaiters unresolved (waiting_results (co_listen i cb p (Coro f) d)) (L @ [f]) (d_st (co_listen i cb p (Coro f) d))"
    and "awaiters unresolved (waiting_results (co_listen_alert i cb p (Coro f) d)) (L @ [f])
           (d_st (co_listen_alert i cb p (Coro f) d))"
proof -
  have new: "awaiters unresolved (add_mset (Some p) (waiting_results d)) (L @ [f])
      (set_owner p (Coro f) (construct p (Callback cb) (d_st d)))"
    using unset.await_begins [OF assms(1), of p f "Callback cb"] assms(2) by (simp add: may_listen_def)
  note defs = co_listen_def co_listen_alert_def listen_callback_def listen_alert_callback_def add_listener_def
    add_listener_alert_def waiting_results_def prepared_simps
  from new show "awaiters unresolved (waiting_results (co_listen i cb p (Coro f) d)) (L @ [f])
      (d_st (co_listen i cb p (Coro f) d))" by (simp add: defs)
  from new unset.dtor_ends [OF new]
  show "awaiters unresolved (waiting_results (co_listen_alert i cb p (Coro f) d)) (L @ [f])
      (d_st (co_listen_alert i cb p (Coro f) d))" by (simp add: defs)
qed

lemma listen_step_inv: "listen_step s t \<Longrightarrow> listen_inv s \<Longrightarrow> listen_inv t"
proof (induction rule: listen_step.induct)
  case (li_kick_exception s i e)
  then have inv: "awaiters unresolved (waiting_results (ds s)) (listens s) (d_st (ds s))" by (simp add: listen_inv_def)
  from kick_out_exact [OF awaiters_listeners_ok [OF inv], of i e]
  have "removes_one i (Exception e) (ds s) (kick_out_exception i e (ds s))
      \<or> kick_out_exception i e (ds s) = (prepared_empty, ds s)" by (auto split: if_splits)
  from removal_ends [OF inv this] li_kick_exception show ?case by (simp add: listen_inv_def)
next
  case (li_kick_null s i)
  then have inv: "awaiters unresolved (waiting_results (ds s)) (listens s) (d_st (ds s))" by (simp add: listen_inv_def)
  from kick_out_exact [OF awaiters_listeners_ok [OF inv], of i "user_exn 0"]
  have "removes_one i No_value (ds s) (kick_out_null i (ds s)) \<or> kick_out_null i (ds s) = (prepared_empty, ds s)"
    by (auto split: if_splits)
  from removal_ends [OF inv this] li_kick_null show ?case by (simp add: listen_inv_def)
next
  case (li_alert s a)
  let ?d = "(ds s)\<lparr>d_flags := (d_flags (ds s))(a := True)\<rparr>"
  from li_alert have inv: "awaiters unresolved (waiting_results ?d) (listens s) (d_st ?d)"
    by (simp add: listen_inv_def waiting_results_def)
  from kick_out_exact [OF awaiters_listeners_ok [OF inv], of a "user_exn 0"]
  have "removes_one a No_value ?d (kick_out_null a ?d) \<or> kick_out_null a ?d = (prepared_empty, ?d)"
    by (auto split: if_splits)
  from removal_ends [OF inv this] li_alert show ?case by (simp add: listen_inv_def alert_eq)
next
  case (li_broadcast ord s mk)
  then show ?case using broadcast_ends(1) [of "ds s" "listens s" ord mk] by (simp add: listen_inv_def)
next
  case (li_broadcast_buffer s mk)
  have "any_order (\<lambda>pcs :: prepared_coro list. pcs)" by (simp add: any_order_def)
  with li_broadcast_buffer broadcast_ends(2) [of "ds s" "listens s" "\<lambda>pcs. pcs" mk] show ?case
    by (simp add: listen_inv_def drop_buffer_def broadcast_buffer_def split: prod.split)
next
  case (li_kick_out s i xs)
  then show ?case using kick_out_ends [OF _ refl, of "ds s" "listens s" i xs] by (simp add: listen_inv_def)
next
  case (li_reset s a)
  then show ?case by (simp add: listen_inv_def waiting_results_def)
qed (simp_all add: listen_inv_def listen_begins)

interpretation listening: step_invariant listen_init listen_step listen_inv
proof
  show "listen_init s \<Longrightarrow> listen_inv s" for s :: "'v listen_sys"
    by (simp add: listen_init_def listen_inv_def waiting_results_def awaiters_def)
qed (rule listen_step_inv)

section \<open>Every wait ends in one resumption\<close>

lemma listeners_dtor_ends:
  "awaiters unresolved (mset (map ai_r xs) + F) L s \<Longrightarrow> awaiters unresolved F L (listeners_dtor xs s)"
  by (induction xs arbitrary: s) (simp_all add: unset.dtor_ends)

text \<open>
  C17: a coroutine that listens to the distributor is resumed exactly once for each time it has
  listened, by a broadcast (also one into a buffer that the client drops), a removal (also by a
  client's resolver, which uses or drops the result object), or an alert, or at once when its
  alert flag is set.  In
  every state of every run its resumptions and its registrations (at most one) add up to the
  number of times it has listened; a broadcast leaves no registration, in whatever order
  it resumes, and neither does the
  destruction of the distributor.
\<close>

theorem listeners_resumed_once:
  assumes "reachable listen_init listen_step s" and "any_order ord"
  shows "count_list (trace (d_st (ds s))) (Resume f) + pending_of f (waiting_results (ds s)) (d_st (ds s))
           = count_list (listens s) f
       \<and> pending_of f (waiting_results (ds s)) (d_st (ds s)) \<le> 1
       \<and> count_list (trace (d_st (broadcast ord mk (ds s)))) (Resume f) = count_list (listens s) f
       \<and> (mset xs = mset (d_results (ds s)) \<longrightarrow>
            count_list (trace (listeners_dtor xs (d_st (ds s)))) (Resume f) = count_list (listens s) f)"
proof -
  have "listen_inv s" by (rule listening.reachable_inv [OF assms(1)])
  then have inv: "awaiters unresolved (waiting_results (ds s)) (listens s) (d_st (ds s))" and ready: "d_ready (ds s) = []"
    by (simp_all add: listen_inv_def)
  have "waiting_results (broadcast ord mk (ds s)) = {#}"
    by (simp add: broadcast_def broadcast_buffer_def waiting_results_def split: prod.split)
  with awaitersD(4) [OF broadcast_ends(1) [OF inv ready assms(2), of mk], of f]
  have "count_list (trace (d_st (broadcast ord mk (ds s)))) (Resume f) = count_list (listens s) f" by simp
  moreover have "count_list (trace (listeners_dtor xs (d_st (ds s)))) (Resume f) = count_list (listens s) f"
    if "mset xs = mset (d_results (ds s))"
  proof -
    have "mset (map ai_r xs) = waiting_results (ds s)" using that by (simp add: waiting_results_def)
    with listeners_dtor_ends [of xs "{#}" "listens s" "d_st (ds s)"] inv
    show ?thesis using awaitersD(4) [of unresolved "{#}" "listens s" "listeners_dtor xs (d_st (ds s))" f] by simp
  qed
  ultimately show ?thesis using awaitersD(3,4) [OF inv, of f] by blast
qed

text \<open>The coroutine 7 listens with the identity 9.\<close>

definition one_listener :: "nat listen_sys" where
  "one_listener =
     \<lparr>ds = co_listen 9 5 1 (Coro 7)
        \<lparr>d_results = [], d_ready = [], d_flags = (\<lambda>_. False),
         d_st = \<lparr>awts = (\<lambda>_. \<lparr>a_state = No_value, a_owner = Null_handle\<rparr>), frames = [], cur_exn = None, trace = []\<rparr>\<rparr>,
      listens = [7]\<rparr>"

lemma one_listener_reachable: "reachable listen_init listen_step one_listener"
proof (rule reachable.next_step)
  let ?s = "\<lparr>ds = \<lparr>d_results = [], d_ready = [], d_flags = (\<lambda>_. False),
         d_st = \<lparr>awts = (\<lambda>_. \<lparr>a_state = No_value, a_owner = Null_handle\<rparr>), frames = [], cur_exn = None, trace = []\<rparr>\<rparr>,
      listens = []\<rparr> :: nat listen_sys"
  show "reachable listen_init listen_step ?s" by (rule reachable.start) (simp add: listen_init_def)
  have "may_listen 1 7 (ds ?s)" by (simp add: may_listen_def waiting_results_def)
  from li_listen [OF this, of 9 5] show "listen_step ?s one_listener" by (simp add: one_listener_def)
qed

theorem listeners_resumed_once_witness:
  "count_list (trace (d_st (broadcast rev (Inr 3) (ds one_listener)))) (Resume 7) = 1"
  using listeners_resumed_once [OF one_listener_reachable rev_order, of 7 "Inr 3" "[]"] by (simp add: one_listener_def)

end
