(* ===== verification/Sched_Heap.thy ===== *)
theory Sched_Heap
  imports Prelude
begin

text \<open>
  \<^verbatim>\<open>generic_scheduler\<close> of \<^verbatim>\<open>coro_scheduler.h\<close>: a binary heap in a vector, ordered
  by time, with removal and rescheduling by identity.  \<^verbatim>\<open>std::push_heap\<close> and
  \<^verbatim>\<open>std::pop_heap\<close> are arguments of the operations; the locale \<open>std_heap\<close> states what
  the C++ standard promises of them.  The class promises its client a queue of timed items,
  stated as the locale \<open>timer_queue\<close>.
\<close>

section \<open>Items and the heap order\<close>

text \<open>
  A time point is an integer number of ticks.  A stored object (\<^verbatim>\<open>T\<close>, a move-only type
  with a default) is \<open>None\<close> when default constructed or moved from.
\<close>

record ('r, 'i) heap_item =
  timestamp :: int
  res :: "'r option"
  ident :: 'i

type_synonym ('r, 'i) heap = "('r, 'i) heap_item list"

definition compare :: "('r, 'i) heap_item \<Rightarrow> ('r, 'i) heap_item \<Rightarrow> bool" where
  "compare a b \<longleftrightarrow> timestamp a > timestamp b"

definition parent :: "nat \<Rightarrow> nat" where
  "parent pos = (pos - 1) div 2"

text \<open>The heap property for \<^verbatim>\<open>compare\<close>: no parent compares above its child.\<close>

definition is_heap :: "('r, 'i) heap \<Rightarrow> bool" where
  "is_heap h \<longleftrightarrow> (\<forall>i\<in>{1..<length h}. \<not> compare (h ! parent i) (h ! i))"

definition swap_items :: "nat \<Rightarrow> nat \<Rightarrow> ('r, 'i) heap \<Rightarrow> ('r, 'i) heap" where
  "swap_items i j h = h[i := h ! j, j := h ! i]"

section \<open>Operations\<close>

text \<open>The two loops of \<^verbatim>\<open>update_heap_element\<close>.\<close>

function shift_up :: "nat \<Rightarrow> ('r, 'i) heap \<Rightarrow> ('r, 'i) heap" where
  "shift_up pos h =
     (if pos > 0 then
        (if compare (h ! parent pos) (h ! pos)
         then shift_up (parent pos) (swap_items (parent pos) pos h)
         else h)
      else h)"
  by pat_completeness auto
termination
  by (relation "measure (\<lambda>(pos, h). pos)") (auto simp: parent_def)

definition largest_of :: "nat \<Rightarrow> ('r, 'i) heap \<Rightarrow> nat" where
  "largest_of pos h =
     (let n = length h; left = 2 * pos + 1; right = 2 * pos + 2;
          largest = (if left < n \<and> compare (h ! pos) (h ! left) then left else pos)
      in if right < n \<and> compare (h ! largest) (h ! right) then right else largest)"

function shift_down :: "nat \<Rightarrow> ('r, 'i) heap \<Rightarrow> ('r, 'i) heap" where
  "shift_down pos h =
     (if largest_of pos h \<noteq> pos
      then shift_down (largest_of pos h) (swap_items pos (largest_of pos h) h)
      else h)"
  by pat_completeness auto
termination
  by (relation "measure (\<lambda>(pos, h). length h - pos)")
     (auto simp: largest_of_def Let_def swap_items_def split: if_splits)

declare shift_up.simps [simp del] shift_down.simps [simp del]

definition update_heap_element :: "nat \<Rightarrow> ('r, 'i) heap_item \<Rightarrow> ('r, 'i) heap \<Rightarrow> ('r, 'i) heap" where
  "update_heap_element pos new_value h =
     (let up = compare (h ! pos) new_value;
          h' = h[pos := new_value]
      in if up then shift_up pos h' else shift_down pos h')"

definition schedule_at ::
    "(('r, 'i) heap \<Rightarrow> ('r, 'i) heap) \<Rightarrow> 'r option \<Rightarrow> int \<Rightarrow> 'i \<Rightarrow> ('r, 'i) heap \<Rightarrow> ('r, 'i) heap" where
  "schedule_at push_heap x tp i h = push_heap (h @ [\<lparr>timestamp = tp, res = x, ident = i\<rparr>])"

definition get_first_scheduled_time :: "('r, 'i) heap \<Rightarrow> int option" where
  "get_first_scheduled_time h = (case h of [] \<Rightarrow> None | x # _ \<Rightarrow> Some (timestamp x))"

definition remove_first ::
    "(('r, 'i) heap \<Rightarrow> ('r, 'i) heap) \<Rightarrow> ('r, 'i) heap \<Rightarrow> 'r option \<times> ('r, 'i) heap" where
  "remove_first pop_heap h =
     (if h \<noteq> [] then let h' = pop_heap h in (res (last h'), butlast h') else (None, h))"

text \<open>The position the search loops stop at: the first item from \<open>i\<close> on with this identity.\<close>

fun find_ident :: "'i \<Rightarrow> nat \<Rightarrow> ('r, 'i) heap \<Rightarrow> nat option" where
  "find_ident a i [] = None"
| "find_ident a i (x # xs) = (if ident x = a then Some i else find_ident a (Suc i) xs)"

definition take_res :: "nat \<Rightarrow> ('r, 'i) heap \<Rightarrow> 'r option \<times> ('r, 'i) heap" where
  "take_res i h = (res (h ! i), h[i := (h ! i)\<lparr>res := None\<rparr>])"

text \<open>
  \<^verbatim>\<open>update_heap_element(i, std::move(_heap.back()))\<close> runs while the moved-from last item
  is still in the vector; it keeps its time and identity and loses its object.
\<close>

definition remove_by_ident ::
    "(('r, 'i) heap \<Rightarrow> ('r, 'i) heap) \<Rightarrow> 'i \<Rightarrow> ('r, 'i) heap \<Rightarrow> 'r option \<times> ('r, 'i) heap" where
  "remove_by_ident pop_heap a h =
     (case find_ident a 0 h of
        None \<Rightarrow> (None, h)
      | Some i \<Rightarrow>
          let cnt = length h; (r, h1) = take_res i h in
          if i = 0 then (r, snd (remove_first pop_heap h1))
          else if i = cnt - 1 then (r, butlast h1)
          else let back = h1 ! (cnt - 1);
                   h2 = h1[cnt - 1 := back\<lparr>res := None\<rparr>]
               in (r, butlast (update_heap_element i back h2)))"

text \<open>
  \<^verbatim>\<open>set_time\<close>: the loop goes on after an update, so an item moved down is met again.
  \<open>k\<close> counts the remaining iterations, \<open>i\<close> is the loop variable.
\<close>

fun set_time_loop :: "nat \<Rightarrow> nat \<Rightarrow> 'i \<Rightarrow> int \<Rightarrow> bool \<Rightarrow> ('r, 'i) heap \<Rightarrow> bool \<times> ('r, 'i) heap" where
  "set_time_loop 0 i a tp ok h = (ok, h)"
| "set_time_loop (Suc k) i a tp ok h =
     (if ident (h ! i) = a then
        let (r, h1) = take_res i h
        in set_time_loop k (Suc i) a tp True
             (update_heap_element i \<lparr>timestamp = tp, res = r, ident = a\<rparr> h1)
      else set_time_loop k (Suc i) a tp ok h)"

definition set_time :: "'i \<Rightarrow> int \<Rightarrow> ('r, 'i) heap \<Rightarrow> bool \<times> ('r, 'i) heap" where
  "set_time a tp h = set_time_loop (length h) 0 a tp False h"

definition heap_empty :: "('r, 'i) heap \<Rightarrow> bool" where
  "heap_empty h \<longleftrightarrow> h = []"

section \<open>Sifting restores the heap\<close>

lemma parent_less: "0 < i \<Longrightarrow> parent i < i"
  by (auto simp: parent_def)

lemma parent_child: "0 < j \<Longrightarrow> parent j = p \<longleftrightarrow> j = 2 * p + 1 \<or> j = 2 * p + 2"
  by (auto simp: parent_def)

lemma is_heap_iff:
  "is_heap h \<longleftrightarrow> (\<forall>i. 0 < i \<longrightarrow> i < length h \<longrightarrow> timestamp (h ! parent i) \<le> timestamp (h ! i))"
  by (auto simp: is_heap_def compare_def not_less)

lemma swap_items_simps [simp]:
  "length (swap_items i j h) = length h"
  "i < length h \<Longrightarrow> j < length h \<Longrightarrow>
   swap_items i j h ! k = (if k = j then h ! i else if k = i then h ! j else h ! k)"
  by (auto simp: swap_items_def nth_list_update)

lemma mset_swap_items [simp]:
  "i < length h \<Longrightarrow> j < length h \<Longrightarrow> mset (swap_items i j h) = mset h"
  by (simp add: swap_items_def mset_swap)

text \<open>The heap order everywhere but between one item and its parent, or its children.\<close>

definition except_up :: "nat \<Rightarrow> ('r, 'i) heap \<Rightarrow> bool" where
  "except_up p h \<longleftrightarrow>
     (\<forall>j. 0 < j \<longrightarrow> j < length h \<longrightarrow>
        (j \<noteq> p \<longrightarrow> timestamp (h ! parent j) \<le> timestamp (h ! j)) \<and>
        (parent j = p \<longrightarrow> 0 < p \<longrightarrow> timestamp (h ! parent p) \<le> timestamp (h ! j)))"

definition except_down :: "nat \<Rightarrow> ('r, 'i) heap \<Rightarrow> bool" where
  "except_down p h \<longleftrightarrow>
     (\<forall>j. 0 < j \<longrightarrow> j < length h \<longrightarrow>
        (parent j \<noteq> p \<longrightarrow> timestamp (h ! parent j) \<le> timestamp (h ! j)) \<and>
        (parent j = p \<longrightarrow> 0 < p \<longrightarrow> timestamp (h ! parent p) \<le> timestamp (h ! j)))"

lemma except_upD:
  assumes "except_up p h" and "0 < j" and "j < length h"
  shows "j \<noteq> p \<Longrightarrow> timestamp (h ! parent j) \<le> timestamp (h ! j)"
    and "parent j = p \<Longrightarrow> 0 < p \<Longrightarrow> timestamp (h ! parent p) \<le> timestamp (h ! j)"
  using assms by (auto simp: except_up_def)

lemma except_up_swap:
  assumes ex: "except_up p h" and p: "0 < p" "p < length h"
    and lt: "timestamp (h ! p) < timestamp (h ! parent p)"
  shows "except_up (parent p) (swap_items (parent p) p h)"
proof -
  have less: "parent p < p" "parent p < length h" using parent_less [OF p(1)] p(2) by auto
  let ?h = "swap_items (parent p) p h"
  have at: "?h ! k = (if k = p then h ! parent p else if k = parent p then h ! p else h ! k)" for k
    using less p(2) by simp
  have order: "timestamp (?h ! parent j) \<le> timestamp (?h ! j)"
    if j: "0 < j" "j < length h" "j \<noteq> parent p" for j
  proof -
    consider "j = p" | "j \<noteq> p" "parent j = p" | "j \<noteq> p" "parent j \<noteq> p" by blast
    then show ?thesis
    proof cases
      case 1
      then show ?thesis using less lt by (simp add: at)
    next
      case 2
      then show ?thesis
        using except_upD(2) [OF ex j(1,2)] p(1) j(3) by (simp add: at)
    next
      case 3
      then show ?thesis
        using except_upD(1) [OF ex j(1,2)] lt j(3) by (auto simp: at)
    qed
  qed
  have grand: "timestamp (?h ! parent (parent p)) \<le> timestamp (?h ! j)"
    if j: "0 < j" "j < length h" "parent j = parent p" and pp: "0 < parent p" for j
  proof -
    have "parent (parent p) < parent p" using parent_less [OF pp] .
    then have "?h ! parent (parent p) = h ! parent (parent p)" using less by (simp add: at)
    moreover have "timestamp (h ! parent (parent p)) \<le> timestamp (h ! parent p)"
      using except_upD(1) [OF ex pp less(2)] less by simp
    moreover have "timestamp (h ! parent p) \<le> timestamp (?h ! j)"
      using except_upD(1) [OF ex j(1,2)] j(3) parent_less [OF j(1)] by (auto simp: at)
    ultimately show ?thesis by simp
  qed
  show ?thesis
    using order grand unfolding except_up_def swap_items_simps(1) by blast
qed

lemma shift_up_heap:
  "except_up p h \<Longrightarrow> p < length h \<Longrightarrow> is_heap (shift_up p h)"
proof (induction p h rule: shift_up.induct)
  case (1 p h)
  show ?case
  proof (cases "0 < p \<and> compare (h ! parent p) (h ! p)")
    case True
    with "1.prems" have "except_up (parent p) (swap_items (parent p) p h)"
      by (intro except_up_swap) (auto simp: compare_def)
    with True "1.prems" "1.IH" parent_less [of p] show ?thesis by (subst shift_up.simps) auto
  next
    case False
    then have "timestamp (h ! parent j) \<le> timestamp (h ! j)" if "0 < j" "j < length h" for j
      using that "1.prems" by (cases "j = p") (auto simp: except_up_def compare_def)
    with False show ?thesis by (subst shift_up.simps) (auto simp: is_heap_iff)
  qed
qed

lemma largest_of_cases:
  obtains (stop) "largest_of p h = p"
      "\<And>j. 0 < j \<Longrightarrow> j < length h \<Longrightarrow> parent j = p \<Longrightarrow> timestamp (h ! p) \<le> timestamp (h ! j)"
    | (child) "0 < largest_of p h" "largest_of p h < length h" "parent (largest_of p h) = p"
      "timestamp (h ! largest_of p h) < timestamp (h ! p)"
      "\<And>j. 0 < j \<Longrightarrow> j < length h \<Longrightarrow> parent j = p \<Longrightarrow>
           timestamp (h ! largest_of p h) \<le> timestamp (h ! j)"
proof (cases "largest_of p h = p")
  case True
  moreover have "timestamp (h ! p) \<le> timestamp (h ! j)"
    if "0 < j" "j < length h" "parent j = p" for j
    using True that by (auto simp: parent_child largest_of_def Let_def compare_def split: if_splits)
  ultimately show ?thesis by (rule stop)
next
  case False
  then have c: "largest_of p h = 2 * p + 1 \<or> largest_of p h = 2 * p + 2"
    by (auto simp: largest_of_def Let_def split: if_splits)
  show ?thesis
  proof (rule child)
    show "0 < largest_of p h" using c by auto
    then show "parent (largest_of p h) = p" using c by (simp add: parent_child)
    show "largest_of p h < length h" "timestamp (h ! largest_of p h) < timestamp (h ! p)"
      using False by (auto simp: largest_of_def Let_def compare_def split: if_splits)
    show "timestamp (h ! largest_of p h) \<le> timestamp (h ! j)"
      if "0 < j" "j < length h" "parent j = p" for j
      using False that
      by (auto simp: parent_child largest_of_def Let_def compare_def split: if_splits)
  qed
qed

lemma except_downD:
  assumes "except_down p h" and "0 < j" and "j < length h"
  shows "parent j \<noteq> p \<Longrightarrow> timestamp (h ! parent j) \<le> timestamp (h ! j)"
    and "parent j = p \<Longrightarrow> 0 < p \<Longrightarrow> timestamp (h ! parent p) \<le> timestamp (h ! j)"
  using assms by (auto simp: except_down_def)

lemma except_down_swap:
  assumes ex: "except_down p h" and c: "0 < c" "c < length h" "parent c = p"
    and lt: "timestamp (h ! c) < timestamp (h ! p)"
    and least: "\<And>j. 0 < j \<Longrightarrow> j < length h \<Longrightarrow> parent j = p \<Longrightarrow> timestamp (h ! c) \<le> timestamp (h ! j)"
  shows "except_down c (swap_items p c h)"
proof -
  have less: "p < c" "p < length h" using parent_less [OF c(1)] c by auto
  let ?h = "swap_items p c h"
  have at: "?h ! k = (if k = c then h ! p else if k = p then h ! c else h ! k)" for k
    using less c(2) by simp
  have order: "timestamp (?h ! parent j) \<le> timestamp (?h ! j)"
    if j: "0 < j" "j < length h" "parent j \<noteq> c" for j
  proof (cases "parent j = p")
    case True
    then show ?thesis
      using least [OF j(1,2)] lt less parent_less [OF j(1)] by (auto simp: at)
  next
    case False
    have "timestamp (h ! parent p) \<le> timestamp (h ! c)" if "0 < p"
      using except_downD(2) [OF ex c(1,2,3)] that .
    then show ?thesis
      using except_downD(1) [OF ex j(1,2) False] False j c(3) by (auto simp: at)
  qed
  have grand: "timestamp (?h ! parent c) \<le> timestamp (?h ! j)"
    if j: "0 < j" "j < length h" "parent j = c" for j
  proof -
    have "j \<noteq> c" "j \<noteq> p" using parent_less [OF j(1)] j(3) less by auto
    moreover have "parent j \<noteq> p" using j(3) less by simp
    ultimately show ?thesis
      using except_downD(1) [OF ex j(1,2)] j(3) c(3) less by (simp add: at)
  qed
  show ?thesis
    using order grand unfolding except_down_def swap_items_simps(1) by blast
qed

lemma shift_down_heap: "except_down p h \<Longrightarrow> is_heap (shift_down p h)"
proof (induction p h rule: shift_down.induct)
  case (1 p h)
  show ?case
  proof (cases rule: largest_of_cases [of p h])
    case stop
    then have "timestamp (h ! parent j) \<le> timestamp (h ! j)" if "0 < j" "j < length h" for j
      using that except_downD(1) [OF "1.prems"] by (cases "parent j = p") auto
    with stop(1) show ?thesis by (subst shift_down.simps) (simp add: is_heap_iff)
  next
    case child
    have "except_down (largest_of p h) (swap_items p (largest_of p h) h)"
      by (rule except_down_swap [OF "1.prems"]) (use child in auto)
    moreover have "largest_of p h \<noteq> p" using parent_less [OF child(1)] child(3) by simp
    ultimately show ?thesis using "1.IH" by (subst shift_down.simps) simp
  qed
qed

lemma shift_up_mset [simp]: "p < length h \<Longrightarrow> mset (shift_up p h) = mset h"
proof (induction p h rule: shift_up.induct)
  case (1 p h)
  with parent_less [of p] show ?case by (subst shift_up.simps) auto
qed

lemma shift_down_mset [simp]: "p < length h \<Longrightarrow> mset (shift_down p h) = mset h"
proof (induction p h rule: shift_down.induct)
  case (1 p h)
  have "largest_of p h < length h"
    using "1.prems" by (cases rule: largest_of_cases [of p h]) auto
  with 1 show ?case by (subst shift_down.simps) auto
qed

lemma shift_length [simp]:
  "p < length h \<Longrightarrow> length (shift_up p h) = length h"
  "p < length h \<Longrightarrow> length (shift_down p h) = length h"
  by (metis mset_eq_length shift_up_mset, metis mset_eq_length shift_down_mset)

text \<open>Sifting up touches no later item; sifting down never exchanges with an equal last one.\<close>

lemma shift_up_last: "p < q \<Longrightarrow> q < length h \<Longrightarrow> shift_up p h ! q = h ! q"
proof (induction p h rule: shift_up.induct)
  case (1 p h)
  with parent_less [of p] show ?case by (subst shift_up.simps) auto
qed

lemma shift_down_last:
  "p < q \<Longrightarrow> q < length h \<Longrightarrow> timestamp (h ! q) = timestamp (h ! p) \<Longrightarrow> length h = Suc q \<Longrightarrow>
   shift_down p h ! q = h ! q"
proof (induction p h rule: shift_down.induct)
  case (1 p h)
  show ?case
  proof (cases rule: largest_of_cases [of p h])
    case stop
    then show ?thesis by (subst shift_down.simps) simp
  next
    case child
    let ?c = "largest_of p h"
    have ne: "?c \<noteq> p" "?c < q" using child 1 parent_less [of ?c] by (auto simp: less_Suc_eq)
    have "shift_down ?c (swap_items p ?c h) ! q = swap_items p ?c h ! q"
      using 1 child ne by (intro "1.IH") auto
    with ne 1 child show ?thesis by (subst shift_down.simps) auto
  qed
qed

section \<open>The operations keep a heap\<close>

lemma is_heap_cong: "map timestamp h = map timestamp h' \<Longrightarrow> is_heap h = is_heap h'"
proof -
  assume eq: "map timestamp h = map timestamp h'"
  then have len: "length h = length h'" by (metis length_map)
  have "timestamp (h ! i) = timestamp (h' ! i)" if "i < length h" for i
    using arg_cong [OF eq, of "\<lambda>l. l ! i"] that len by simp
  then show ?thesis using len by (auto simp: is_heap_iff parent_def)
qed

lemma is_heap_butlast: "is_heap h \<Longrightarrow> is_heap (butlast h)"
  by (auto simp: is_heap_iff nth_butlast parent_def)

lemma update_except:
  assumes "is_heap h" and "pos < length h"
  shows "compare (h ! pos) v \<Longrightarrow> except_up pos (h[pos := v])"
    and "\<not> compare (h ! pos) v \<Longrightarrow> except_down pos (h[pos := v])"
proof -
  have ord: "timestamp (h ! parent j) \<le> timestamp (h ! j)" if "0 < j" "j < length h" for j
    using assms(1) that by (simp add: is_heap_iff)
  have grand: "timestamp (h ! parent pos) \<le> timestamp (h ! j)"
    if "0 < j" "j < length h" "parent j = pos" "0 < pos" for j
    using ord [of j] ord [of pos] that assms(2) by simp
  have at: "h[pos := v] ! j = (if j = pos then v else h ! j)" for j
    using assms(2) by (simp add: nth_list_update)
  have lt: "parent j < j" if "0 < j" for j using that by (rule parent_less)
  show "except_up pos (h[pos := v])" if "compare (h ! pos) v"
    unfolding except_up_def
  proof (intro allI impI conjI)
    fix j assume j: "0 < j" "j < length (h[pos := v])"
    then have jn: "j < length h" by simp
    show "timestamp (h[pos := v] ! parent j) \<le> timestamp (h[pos := v] ! j)" if "j \<noteq> pos"
      using that ord [OF j(1) jn] \<open>compare (h ! pos) v\<close> by (auto simp: at compare_def)
    show "timestamp (h[pos := v] ! parent pos) \<le> timestamp (h[pos := v] ! j)"
      if "parent j = pos" "0 < pos"
      using grand [OF j(1) jn that] lt [OF j(1)] lt [OF that(2)] that by (simp add: at)
  qed
  show "except_down pos (h[pos := v])" if "\<not> compare (h ! pos) v"
    unfolding except_down_def
  proof (intro allI impI conjI)
    fix j assume j: "0 < j" "j < length (h[pos := v])"
    then have jn: "j < length h" by simp
    show "timestamp (h[pos := v] ! parent j) \<le> timestamp (h[pos := v] ! j)" if "parent j \<noteq> pos"
      using that ord [OF j(1) jn] \<open>\<not> compare (h ! pos) v\<close> by (auto simp: at compare_def)
    show "timestamp (h[pos := v] ! parent pos) \<le> timestamp (h[pos := v] ! j)"
      if "parent j = pos" "0 < pos"
      using grand [OF j(1) jn that] lt [OF j(1)] lt [OF that(2)] that by (simp add: at)
  qed
qed

lemma update_heap [simp]:
  "is_heap h \<Longrightarrow> pos < length h \<Longrightarrow> is_heap (update_heap_element pos v h)"
  by (simp add: update_heap_element_def Let_def shift_up_heap shift_down_heap update_except)

lemma update_mset [simp]:
  "pos < length h \<Longrightarrow> mset (update_heap_element pos v h) = add_mset v (mset h - {#h ! pos#})"
  by (simp add: update_heap_element_def Let_def mset_update)

lemma update_length [simp]:
  "pos < length h \<Longrightarrow> length (update_heap_element pos v h) = length h"
  by (simp add: update_heap_element_def Let_def)

lemma update_last:
  "pos < q \<Longrightarrow> length h = Suc q \<Longrightarrow> timestamp v = timestamp (h ! q) \<Longrightarrow>
   update_heap_element pos v h ! q = h ! q"
  by (simp add: update_heap_element_def Let_def shift_up_last shift_down_last)

lemma first_is_least: "is_heap h \<Longrightarrow> i < length h \<Longrightarrow> timestamp (h ! 0) \<le> timestamp (h ! i)"
proof (induction i rule: less_induct)
  case (less i)
  show ?case
  proof (cases "i = 0")
    case False
    then have "parent i < i" by (simp add: parent_less)
    then have "timestamp (h ! 0) \<le> timestamp (h ! parent i)" using less by simp
    also have "\<dots> \<le> timestamp (h ! i)" using less.prems False by (simp add: is_heap_iff)
    finally show ?thesis .
  qed simp
qed

lemma first_is_least_mem: "is_heap (x # h) \<Longrightarrow> y \<in> set (x # h) \<Longrightarrow> timestamp x \<le> timestamp y"
  by (metis first_is_least in_set_conv_nth nth_Cons_0)

lemma find_ident_Some:
  "find_ident a k h = Some i \<Longrightarrow> k \<le> i \<and> i - k < length h \<and> ident (h ! (i - k)) = a"
proof (induction h arbitrary: k)
  case (Cons x h)
  then show ?case
    by (cases "ident x = a") (auto dest!: Cons.IH simp: Suc_diff_le nth_Cons' Suc_le_eq)
qed simp

lemma find_ident_None: "find_ident a k h = None \<longleftrightarrow> (\<forall>x\<in>set h. ident x \<noteq> a)"
  by (induction h arbitrary: k) auto

lemma take_res_simps:
  assumes "take_res i h = (r, h1)" and "i < length h"
  shows "r = res (h ! i)" "length h1 = length h" "map timestamp h1 = map timestamp h"
    "h1 ! i = (h ! i)\<lparr>res := None\<rparr>" "j \<noteq> i \<Longrightarrow> h1 ! j = h ! j"
    "mset h1 = add_mset ((h ! i)\<lparr>res := None\<rparr>) (mset h - {#h ! i#})"
  using assms
  by (auto simp: take_res_def mset_update map_update list_update_same_conv)

lemma butlast_mset:
  "length h = Suc q \<Longrightarrow> mset (butlast h) = mset h - {#h ! q#}"
  by (cases h rule: rev_cases) auto

text \<open>Replacing an item by the last one while the moved-from last item is still in place.\<close>

lemma replace_by_last:
  assumes heap: "is_heap h" and q: "length h = Suc q" and i: "i < q"
  defines "h2 \<equiv> h[q := (h ! q)\<lparr>res := None\<rparr>]"
  shows "is_heap (butlast (update_heap_element i (h ! q) h2))"
    and "mset (butlast (update_heap_element i (h ! q) h2)) = mset h - {#h ! i#}"
proof -
  let ?h3 = "update_heap_element i (h ! q) h2"
  have len: "length h2 = Suc q" "length ?h3 = Suc q" using q i by (simp_all add: h2_def)
  have heap2: "is_heap h2"
    using heap is_heap_cong [of h2 h] by (simp add: h2_def map_update list_update_same_conv q)
  then show "is_heap (butlast ?h3)" using len i by (intro is_heap_butlast update_heap) simp_all
  have last: "?h3 ! q = h2 ! q" using i len q by (intro update_last) (simp_all add: h2_def)
  obtain M where M: "mset h - {#h ! i#} = add_mset (h ! q) M"
    using nth_mem_mset_remove [of i h q] i q by (auto dest: multi_member_split)
  then have "mset h = add_mset (h ! i) (add_mset (h ! q) M)"
    using i q by (metis insert_DiffM less_SucI nth_mem_mset)
  then have "mset h2 = add_mset (h2 ! q) (add_mset (h ! i) M)"
    using q by (simp add: h2_def mset_update add_mset_commute)
  then have "mset ?h3 = add_mset (h ! q) (add_mset (h2 ! q) M)"
    using i len by (simp add: h2_def add_mset_commute)
  then show "mset (butlast ?h3) = mset h - {#h ! i#}"
    using butlast_mset [OF len(2)] last M by (simp add: add_mset_commute)
qed

end
