(* ===== verification/Timer_Queue.thy ===== *)
theory Timer_Queue
  imports Sched_Heap
begin

text \<open>
  What \<^verbatim>\<open>generic_scheduler\<close> promises: the contract of the heap algorithms of the C++
  standard library (\<open>std_heap\<close>), the contract of a queue of timed items (\<open>timer_queue\<close>) with
  the facts a client needs, and the proof that the heap of \<^verbatim>\<open>coro_scheduler.h\<close> meets it
  for every library that meets the first.
\<close>

section \<open>The queue of timed items\<close>

text \<open>Taking the items out one after the other, with the time each was announced for.\<close>

fun drain :: "('q \<Rightarrow> int option) \<Rightarrow> ('q \<Rightarrow> 'r option \<times> 'q) \<Rightarrow> nat \<Rightarrow> 'q \<Rightarrow> (int \<times> 'r option) list" where
  "drain first_time take_first 0 q = []"
| "drain first_time take_first (Suc n) q =
     (case first_time q of
        None \<Rightarrow> []
      | Some t \<Rightarrow> let (x, q') = take_first q in (t, x) # drain first_time take_first n q')"

definition timed :: "('r, 'i) heap_item \<Rightarrow> int \<times> 'r option" where
  "timed x = (timestamp x, res x)"

lemma timed_simp [simp]: "timed \<lparr>timestamp = t, res = x, ident = i\<rparr> = (t, x)"
  by (simp add: timed_def)

locale timer_queue =
  fixes add :: "'r option \<Rightarrow> int \<Rightarrow> 'i \<Rightarrow> 'q \<Rightarrow> 'q"
    and first_time :: "'q \<Rightarrow> int option"
    and take_first :: "'q \<Rightarrow> 'r option \<times> 'q"
    and take_ident :: "'i \<Rightarrow> 'q \<Rightarrow> 'r option \<times> 'q"
    and invar :: "'q \<Rightarrow> bool"
    and items :: "'q \<Rightarrow> ('r, 'i) heap_item multiset"
  assumes add_invar: "invar q \<Longrightarrow> invar (add x t i q)"
    and add_items: "invar q \<Longrightarrow>
      items (add x t i q) = add_mset \<lparr>timestamp = t, res = x, ident = i\<rparr> (items q)"
    and first_time_None: "invar q \<Longrightarrow> first_time q = None \<longleftrightarrow> items q = {#}"
    and first_time_least: "invar q \<Longrightarrow> first_time q = Some t \<Longrightarrow> y \<in># items q \<Longrightarrow> t \<le> timestamp y"
    and take_first_invar: "invar q \<Longrightarrow> first_time q = Some t \<Longrightarrow> invar (snd (take_first q))"
    and take_first_items: "invar q \<Longrightarrow> first_time q = Some t \<Longrightarrow> take_first q = (x, q') \<Longrightarrow>
      \<exists>i. items q = add_mset \<lparr>timestamp = t, res = x, ident = i\<rparr> (items q')"
    and take_ident_invar: "invar q \<Longrightarrow> invar (snd (take_ident a q))"
    and take_ident_items: "invar q \<Longrightarrow> y \<in># items q \<Longrightarrow> ident y = a \<Longrightarrow> take_ident a q = (x, q') \<Longrightarrow>
      \<exists>t. items q = add_mset \<lparr>timestamp = t, res = x, ident = a\<rparr> (items q')"
    and take_ident_absent: "invar q \<Longrightarrow> (\<And>y. y \<in># items q \<Longrightarrow> ident y \<noteq> a) \<Longrightarrow> take_ident a q = (None, q)"
begin

lemma first_time_after:
  assumes "invar q" and "first_time q = Some t" and "take_first q = (x, q')" and "first_time q' = Some t'"
  shows "t \<le> t'"
proof -
  have inv: "invar q'" using take_first_invar [OF assms(1,2)] assms(3) by simp
  obtain i where i: "items q = add_mset \<lparr>timestamp = t, res = x, ident = i\<rparr> (items q')"
    using take_first_items [OF assms(1-3)] by blast
  obtain x' q'' where tf: "take_first q' = (x', q'')" by fastforce
  obtain j where "items q' = add_mset \<lparr>timestamp = t', res = x', ident = j\<rparr> (items q'')"
    using take_first_items [OF inv assms(4) tf] by blast
  then have "\<lparr>timestamp = t', res = x', ident = j\<rparr> \<in># items q" using i by simp
  from first_time_least [OF assms(1,2) this] show ?thesis by simp
qed

text \<open>A queue gives all its items back, each with its own time, in the order of the times.\<close>

lemma drain_all:
  "invar q \<Longrightarrow> n = size (items q) \<Longrightarrow>
   mset (drain first_time take_first n q) = image_mset timed (items q)"
proof (induction n arbitrary: q)
  case 0
  then show ?case by simp
next
  case (Suc n)
  from Suc.prems obtain t where t: "first_time q = Some t"
    using first_time_None [of q] by (cases "first_time q") auto
  obtain x q' where tf: "take_first q = (x, q')" by fastforce
  obtain i where i: "items q = add_mset \<lparr>timestamp = t, res = x, ident = i\<rparr> (items q')"
    using take_first_items [OF Suc.prems(1) t tf] by blast
  have "mset (drain first_time take_first n q') = image_mset timed (items q')"
    using Suc.IH [of q'] take_first_invar [OF Suc.prems(1) t] tf i Suc.prems(2) by simp
  with t tf i show ?case by simp
qed

lemma drain_sorted:
  "invar q \<Longrightarrow> sorted (map fst (drain first_time take_first n q)) \<and>
     (\<forall>t. first_time q = Some t \<longrightarrow> (\<forall>y \<in> set (drain first_time take_first n q). t \<le> fst y))"
proof (induction n arbitrary: q)
  case (Suc n)
  show ?case
  proof (cases "first_time q")
    case (Some t)
    obtain x q' where tf: "take_first q = (x, q')" by fastforce
    have inv: "invar q'" using take_first_invar [OF Suc.prems Some] tf by simp
    have after: "t \<le> fst y" if y: "y \<in> set (drain first_time take_first n q')" for y
    proof (cases "first_time q'")
      case None
      with y show ?thesis by (cases n) auto
    next
      case (Some t')
      then show ?thesis
        using Suc.IH [OF inv] y first_time_after [OF Suc.prems \<open>first_time q = Some t\<close> tf Some] by force
    qed
    with Suc.IH [OF inv] Some tf show ?thesis by auto
  qed auto
qed simp

end

section \<open>The heap meets the contract\<close>

text \<open>
  The requirements of the C++ standard: \<^verbatim>\<open>push_heap\<close> takes a heap followed by one item
  and makes the whole range a heap; \<^verbatim>\<open>pop_heap\<close> moves the first item of a heap to the
  end and makes the rest a heap.  How equal items are ordered is left open.
\<close>

locale std_heap =
  fixes push_heap :: "('r, 'i) heap \<Rightarrow> ('r, 'i) heap"
    and pop_heap :: "('r, 'i) heap \<Rightarrow> ('r, 'i) heap"
  assumes push_heap_heap: "is_heap h \<Longrightarrow> is_heap (push_heap (h @ [x]))"
    and push_heap_mset: "is_heap h \<Longrightarrow> mset (push_heap (h @ [x])) = add_mset x (mset h)"
    and pop_heap: "is_heap (x # h) \<Longrightarrow>
      \<exists>h'. pop_heap (x # h) = h' @ [x] \<and> is_heap h' \<and> mset h' = mset h"
begin

lemma remove_first_Cons:
  assumes "is_heap (x # h)"
  obtains h' where "remove_first pop_heap (x # h) = (res x, h')" "is_heap h'" "mset h' = mset h"
  using pop_heap [OF assms] by (auto simp: remove_first_def)

lemma remove_by_ident_found:
  assumes heap: "is_heap h" and found: "find_ident a 0 h = Some i"
    and rem: "remove_by_ident pop_heap a h = (r, h')"
  shows "is_heap h' \<and> r = res (h ! i) \<and> mset h = add_mset (h ! i) (mset h')"
proof -
  have i: "i < length h" using find_ident_Some [OF found] by simp
  obtain q where q: "length h = Suc q" using i by (cases "length h") auto
  obtain h1 where t: "take_res i h = (res (h ! i), h1)" by (simp add: take_res_def)
  note h1 = take_res_simps [OF t i]
  have heap1: "is_heap h1" using heap is_heap_cong [OF h1(3)] by simp
  have split: "mset h = add_mset (h ! i) (mset h - {#h ! i#})" using i by simp
  consider "i = 0" | "0 < i" "i = q" | "0 < i" "i < q" using i q by linarith
  then show ?thesis
  proof cases
    case 1
    obtain ys where "h1 = (h ! 0)\<lparr>res := None\<rparr> # ys" using h1(2,4) 1 q by (cases h1) auto
    moreover then obtain zs where "remove_first pop_heap h1 = (None, zs)" "is_heap zs" "mset zs = mset ys"
      using remove_first_Cons [of _ ys] heap1 by (metis heap_item.select_convs(2) heap_item.surjective heap_item.update_convs(2))
    ultimately show ?thesis using rem found t h1(6) 1 split by (auto simp: remove_by_ident_def)
  next
    case 2
    with rem found t q have "h' = butlast h1" "r = res (h ! i)" by (auto simp: remove_by_ident_def)
    then show ?thesis
      using is_heap_butlast [OF heap1] butlast_mset [of h1 q] h1 2 q split by simp
  next
    case 3
    have q1: "length h1 = Suc q" using h1(2) q by simp
    from 3 rem found t q have "r = res (h ! i)"
      and h': "h' = butlast (update_heap_element i (h1 ! q) (h1[q := (h1 ! q)\<lparr>res := None\<rparr>]))"
      by (auto simp: remove_by_ident_def Let_def)
    with replace_by_last [OF heap1 q1 3(2)] h1(4,6) split show ?thesis by simp
  qed
qed

end

sublocale std_heap \<subseteq> timer: timer_queue "schedule_at push_heap" get_first_scheduled_time
  "remove_first pop_heap" "remove_by_ident pop_heap" is_heap mset
proof unfold_locales
  fix q q' :: "('r, 'i) heap" and x t i a y
  assume heap: "is_heap q"
  show "is_heap (schedule_at push_heap x t i q)"
    and "mset (schedule_at push_heap x t i q) = add_mset \<lparr>timestamp = t, res = x, ident = i\<rparr> (mset q)"
    using heap by (simp_all add: schedule_at_def push_heap_heap push_heap_mset)
  show "get_first_scheduled_time q = None \<longleftrightarrow> mset q = {#}"
    by (simp add: get_first_scheduled_time_def split: list.split)
  {
    assume t: "get_first_scheduled_time q = Some t"
    then obtain z h where q: "q = z # h" "timestamp z = t"
      by (auto simp: get_first_scheduled_time_def split: list.splits)
    with heap obtain h' where h': "remove_first pop_heap q = (res z, h')" "is_heap h'" "mset h' = mset h"
      using remove_first_Cons by blast
    then show "is_heap (snd (remove_first pop_heap q))" by simp
    show "t \<le> timestamp y" if "y \<in># mset q"
      using that q first_is_least_mem [of z h y] heap by simp
    show "\<exists>i. mset q = add_mset \<lparr>timestamp = t, res = x, ident = i\<rparr> (mset q')"
      if "remove_first pop_heap q = (x, q')"
      using that h' q by (intro exI [of _ "ident z"]) auto
  }
  show "is_heap (snd (remove_by_ident pop_heap a q))"
  proof (cases "find_ident a 0 q")
    case None
    with heap show ?thesis by (simp add: remove_by_ident_def)
  next
    case (Some i)
    then show ?thesis using remove_by_ident_found [OF heap Some] by (metis prod.collapse)
  qed
  show "remove_by_ident pop_heap a q = (None, q)" if "\<And>y. y \<in># mset q \<Longrightarrow> ident y \<noteq> a"
    using that find_ident_None [of a 0 q] by (simp add: remove_by_ident_def)
  show "\<exists>t. mset q = add_mset \<lparr>timestamp = t, res = x, ident = a\<rparr> (mset q')"
    if "y \<in># mset q" "ident y = a" and rem: "remove_by_ident pop_heap a q = (x, q')"
  proof -
    from that find_ident_None [of a 0 q] obtain i where i: "find_ident a 0 q = Some i"
      by (cases "find_ident a 0 q") auto
    have "q ! i = \<lparr>timestamp = timestamp (q ! i), res = x, ident = a\<rparr>"
      using remove_by_ident_found [OF heap i rem] find_ident_Some [OF i] by simp
    then show ?thesis using remove_by_ident_found [OF heap i rem] by metis
  qed
qed

section \<open>A library that meets the contract\<close>

text \<open>
  One way to implement the two algorithms, by the same sifting; it shows that the contract
  can be met and lets the operations be evaluated.
\<close>

definition sift_push_heap :: "('r, 'i) heap \<Rightarrow> ('r, 'i) heap" where
  "sift_push_heap h = shift_up (length h - 1) h"

definition sift_pop_heap :: "('r, 'i) heap \<Rightarrow> ('r, 'i) heap" where
  "sift_pop_heap h =
     (let h' = swap_items 0 (length h - 1) h
      in shift_down 0 (butlast h') @ [last h'])"

lemma append_except_up: "is_heap h \<Longrightarrow> except_up (length h) (h @ [x])"
proof -
  assume heap: "is_heap h"
  have "parent j < length h \<and> parent j \<noteq> length h" if "j < Suc (length h)" "0 < j" for j
    using parent_less [OF that(2)] that(1) by simp
  then show ?thesis
    using heap by (auto simp: is_heap_iff except_up_def nth_append)
qed

lemma front_except_down:
  assumes "is_heap (x # h)"
  shows "except_down 0 (y # h)"
proof -
  have "timestamp ((y # h) ! parent j) \<le> timestamp ((y # h) ! j)"
    if "0 < j" "j < Suc (length h)" "parent j \<noteq> 0" for j
    using assms that unfolding is_heap_iff by (metis length_Cons not_gr_zero nth_Cons_pos)
  then show ?thesis by (simp add: except_down_def)
qed

lemma swap_first_last:
  "swap_items 0 (length h) (x # h) = (if h = [] then [x] else (last h # butlast h) @ [x])"
  by (cases h rule: rev_cases) (auto simp: swap_items_def nth_append list_update_append)

interpretation sift: std_heap sift_push_heap sift_pop_heap
proof
  fix h :: "('a, 'b) heap" and x :: "('a, 'b) heap_item"
  show "is_heap (sift_push_heap (h @ [x]))" if "is_heap h"
    using shift_up_heap [OF append_except_up [OF that]] by (simp add: sift_push_heap_def)
  show "mset (sift_push_heap (h @ [x])) = add_mset x (mset h)"
    by (simp add: sift_push_heap_def)
  show "\<exists>h'. sift_pop_heap (x # h) = h' @ [x] \<and> is_heap h' \<and> mset h' = mset h"
    if heap: "is_heap (x # h)"
  proof (cases h rule: rev_cases)
    case Nil
    then show ?thesis
      by (simp add: sift_pop_heap_def swap_items_def is_heap_iff shift_down.simps largest_of_def)
  next
    case (snoc ys y)
    have "is_heap (x # ys)" using is_heap_butlast [OF heap] snoc by simp
    from shift_down_heap [OF front_except_down [OF this]] have "is_heap (shift_down 0 (y # ys))" .
    moreover have "sift_pop_heap (x # h) = shift_down 0 (y # ys) @ [x]"
      using swap_first_last [of h x] snoc by (simp add: sift_pop_heap_def Let_def)
    ultimately show ?thesis using snoc by simp
  qed
qed

section \<open>Rescheduling\<close>

definition retimed :: "'i \<Rightarrow> int \<Rightarrow> ('r, 'i) heap_item \<Rightarrow> ('r, 'i) heap_item" where
  "retimed a tp x = (if ident x = a then x\<lparr>timestamp := tp\<rparr> else x)"

definition reschedule_step :: "nat \<Rightarrow> 'i \<Rightarrow> int \<Rightarrow> ('r, 'i) heap \<Rightarrow> ('r, 'i) heap" where
  "reschedule_step i a tp h =
     (let (r, h1) = take_res i h in update_heap_element i \<lparr>timestamp = tp, res = r, ident = a\<rparr> h1)"

lemma set_time_loop_Suc:
  "set_time_loop (Suc k) i a tp ok h =
     (if ident (h ! i) = a then set_time_loop k (Suc i) a tp True (reschedule_step i a tp h)
      else set_time_loop k (Suc i) a tp ok h)"
  by (simp add: reschedule_step_def case_prod_beta)

lemma reschedule_step:
  assumes "is_heap h" and "i < length h" and "ident (h ! i) = a"
  shows "is_heap (reschedule_step i a tp h)" "length (reschedule_step i a tp h) = length h"
    "mset (reschedule_step i a tp h) = add_mset (retimed a tp (h ! i)) (mset h - {#h ! i#})"
proof -
  obtain h1 where t: "take_res i h = (res (h ! i), h1)" by (simp add: take_res_def)
  note h1 = take_res_simps [OF t assms(2)]
  have "is_heap h1" using assms(1) is_heap_cong [OF h1(3)] by simp
  moreover have "\<lparr>timestamp = tp, res = res (h ! i), ident = a\<rparr> = retimed a tp (h ! i)"
    using assms(3) by (simp add: retimed_def)
  ultimately show "is_heap (reschedule_step i a tp h)" "length (reschedule_step i a tp h) = length h"
    "mset (reschedule_step i a tp h) = add_mset (retimed a tp (h ! i)) (mset h - {#h ! i#})"
    using assms(2) h1 t by (simp_all add: reschedule_step_def)
qed

lemma retimed_idem [simp]: "retimed a tp (retimed a tp x) = retimed a tp x"
  by (simp add: retimed_def)

lemma ident_retimed [simp]: "ident (retimed a tp x) = ident x"
  by (simp add: retimed_def)

lemma image_retimed_step:
  assumes "is_heap h" and "i < length h" and "ident (h ! i) = a"
  shows "image_mset (retimed a tp) (mset (reschedule_step i a tp h)) = image_mset (retimed a tp) (mset h)"
proof -
  obtain M where "mset h = add_mset (h ! i) M"
    using assms(2) by (metis insert_DiffM nth_mem_mset)
  then show ?thesis using reschedule_step(3) [OF assms] by simp
qed

text \<open>The loop keeps the heap and, times of the identity aside, the items.\<close>

lemma set_time_loop_correct:
  "is_heap h \<Longrightarrow> i + k = length h \<Longrightarrow> set_time_loop k i a tp ok h = (ok', h') \<Longrightarrow>
   is_heap h' \<and> image_mset (retimed a tp) (mset h') = image_mset (retimed a tp) (mset h) \<and>
   ok' = (ok \<or> (\<exists>j. i \<le> j \<and> j < length h \<and> ident (h ! j) = a))"
proof (induction k arbitrary: i ok h)
  case 0
  then show ?case by auto
next
  case (Suc k)
  show ?case
  proof (cases "ident (h ! i) = a")
    case True
    have i: "i < length h" using Suc.prems(2) by simp
    note st = reschedule_step [OF Suc.prems(1) i True, of tp]
    have "set_time_loop k (Suc i) a tp True (reschedule_step i a tp h) = (ok', h')"
      using Suc.prems(3) True by (simp add: set_time_loop_Suc del: set_time_loop.simps)
    from Suc.IH [OF st(1) _ this] show ?thesis
      using st(2) Suc.prems(2) True i image_retimed_step [OF Suc.prems(1) i True, of tp] by auto
  next
    case False
    have "set_time_loop k (Suc i) a tp ok h = (ok', h')"
      using Suc.prems(3) False by (simp add: set_time_loop_Suc del: set_time_loop.simps)
    from Suc.IH [OF Suc.prems(1) _ this] Suc.prems(2) False show ?thesis
      by (metis (no_types, lifting) Suc_leD add_Suc_shift le_antisym not_less_eq_eq)
  qed
qed

text \<open>An item that was not there before is one with the identity, at the new time.\<close>

lemma set_time_loop_items:
  "is_heap h \<Longrightarrow> i + k = length h \<Longrightarrow> set_time_loop k i a tp ok h = (ok', h') \<Longrightarrow> x \<in> set h' \<Longrightarrow>
   x \<in> set h \<or> timestamp x = tp \<and> (\<exists>y \<in> set h. ident y = a \<and> res y = res x)"
proof (induction k arbitrary: i ok h)
  case (Suc k)
  show ?case
  proof (cases "ident (h ! i) = a")
    case True
    have i: "i < length h" using Suc.prems(2) by simp
    let ?h = "reschedule_step i a tp h"
    note st = reschedule_step [OF Suc.prems(1) i True, of tp]
    have "set_time_loop k (Suc i) a tp True ?h = (ok', h')"
      using Suc.prems(3) True by (simp add: set_time_loop_Suc del: set_time_loop.simps)
    from Suc.IH [OF st(1) _ this Suc.prems(4)]
    have x: "x \<in> set ?h \<or> timestamp x = tp \<and> (\<exists>y \<in> set ?h. ident y = a \<and> res y = res x)"
      using st(2) Suc.prems(2) by simp
    have y: "y = retimed a tp (h ! i) \<or> y \<in> set h" if "y \<in> set ?h" for y
    proof -
      have "y \<in># mset ?h" using that by simp
      then show ?thesis unfolding st(3) by (auto dest: in_diffD)
    qed
    have r: "timestamp (retimed a tp (h ! i)) = tp" "res (retimed a tp (h ! i)) = res (h ! i)" "h ! i \<in> set h"
      using True i by (simp_all add: retimed_def)
    from x show ?thesis
    proof (elim disjE conjE bexE)
      assume "x \<in> set ?h"
      from y [OF this] True r show ?thesis by auto
    next
      fix z assume "timestamp x = tp" "z \<in> set ?h" "ident z = a" "res z = res x"
      with y [OF this(2)] True r show ?thesis by auto
    qed
  next
    case False
    have "set_time_loop k (Suc i) a tp ok h = (ok', h')"
      using Suc.prems(3) False by (simp add: set_time_loop_Suc del: set_time_loop.simps)
    from Suc.IH [OF Suc.prems(1) _ this Suc.prems(4)] Suc.prems(2) show ?thesis by simp
  qed
qed simp

text \<open>With a unique identity no item is missed.\<close>

definition only_at :: "'i \<Rightarrow> ('r, 'i) heap \<Rightarrow> bool" where
  "only_at a h \<longleftrightarrow> size (filter_mset (\<lambda>x. ident x = a) (mset h)) \<le> 1"

lemma filter_after_step:
  assumes "is_heap h" and "i < length h" and "ident (h ! i) = a" and "only_at a h"
  shows "filter_mset (\<lambda>x. ident x = a) (mset (reschedule_step i a tp h)) = {#retimed a tp (h ! i)#}"
proof -
  obtain M where M: "mset h = add_mset (h ! i) M"
    using assms(2) by (metis insert_DiffM nth_mem_mset)
  with assms(3,4) have "filter_mset (\<lambda>x. ident x = a) M = {#}" by (simp add: only_at_def)
  then show ?thesis using reschedule_step(3) [OF assms(1-3), of tp] assms(3) M by simp
qed

lemma set_time_loop_unique:
  "is_heap h \<Longrightarrow> i + k = length h \<Longrightarrow> only_at a h \<Longrightarrow> set_time_loop k i a tp ok h = (ok', h') \<Longrightarrow>
   (\<And>j. j < i \<Longrightarrow> ident (h ! j) = a \<Longrightarrow> timestamp (h ! j) = tp) \<Longrightarrow>
   (\<forall>x \<in># mset h'. ident x = a \<longrightarrow> timestamp x = tp)"
proof (induction k arbitrary: i ok h)
  case 0
  then show ?case by (auto simp: in_set_conv_nth)
next
  case (Suc k)
  show ?case
  proof (cases "ident (h ! i) = a")
    case True
    have i: "i < length h" using Suc.prems(2) by simp
    let ?h = "reschedule_step i a tp h"
    note st = reschedule_step [OF Suc.prems(1) i True, of tp]
    note filt = filter_after_step [OF Suc.prems(1) i True Suc.prems(3), of tp]
    have loop: "set_time_loop k (Suc i) a tp True ?h = (ok', h')"
      using Suc.prems(4) True by (simp add: set_time_loop_Suc del: set_time_loop.simps)
    have all: "timestamp (?h ! j) = tp" if "j < length ?h" "ident (?h ! j) = a" for j
    proof -
      have "?h ! j \<in># filter_mset (\<lambda>x. ident x = a) (mset ?h)" using that by simp
      then show ?thesis unfolding filt using True by (simp add: retimed_def)
    qed
    show ?thesis
      by (rule Suc.IH [OF st(1) _ _ loop]) (use st(2) Suc.prems(2) filt all in \<open>auto simp: only_at_def\<close>)
  next
    case False
    have loop: "set_time_loop k (Suc i) a tp ok h = (ok', h')"
      using Suc.prems(4) False by (simp add: set_time_loop_Suc del: set_time_loop.simps)
    show ?thesis
      by (rule Suc.IH [OF Suc.prems(1) _ Suc.prems(3) loop])
         (use Suc.prems(2,5) False in \<open>auto simp: less_Suc_eq\<close>)
  qed
qed

section \<open>Properties of the scheduler's queue\<close>

context std_heap
begin

lemma heap_drain:
  assumes "is_heap h"
  shows "sorted (map fst (drain get_first_scheduled_time (remove_first pop_heap) (length h) h))"
    and "mset (drain get_first_scheduled_time (remove_first pop_heap) (length h) h)
         = image_mset timed (mset h)"
  using timer.drain_sorted [OF assms] timer.drain_all [OF assms, of "length h"] by simp_all

lemma heap_remove_by_ident:
  assumes "is_heap h" and "remove_by_ident pop_heap a h = (r, h')"
  shows "is_heap h' \<and>
     (if \<exists>x\<in>set h. ident x = a
      then \<exists>x\<in>set h. ident x = a \<and> r = res x \<and> mset h = add_mset x (mset h')
      else r = None \<and> h' = h)"
proof (cases "find_ident a 0 h")
  case None
  then show ?thesis
    using assms find_ident_None [of a 0 h] by (auto simp: remove_by_ident_def)
next
  case (Some i)
  have "h ! i \<in> set h" "ident (h ! i) = a" using find_ident_Some [OF Some] by simp_all
  with remove_by_ident_found [OF assms(1) Some assms(2)] show ?thesis by auto
qed

end

text \<open>
  C27: the queue of sleepers gives them back in the order of their times.  For every library
  that meets the requirements of the C++ standard on the heap algorithms, taking the first
  entry until the heap is empty yields every entry exactly once, each announced by
  \<^verbatim>\<open>get_first_scheduled_time\<close> with its own time, in ascending order of time.
\<close>

theorem sleepers_leave_in_time_order:
  assumes "std_heap push_heap pop_heap" and "is_heap h"
  shows "sorted (map fst (drain get_first_scheduled_time (remove_first pop_heap) (length h) h))
       \<and> mset (drain get_first_scheduled_time (remove_first pop_heap) (length h) h)
         = image_mset timed (mset h)"
  using std_heap.heap_drain [OF assms] by simp

definition sample_heap :: "(nat, nat) heap" where
  "sample_heap =
     schedule_at sift_push_heap (Some 2) 3 20
       (schedule_at sift_push_heap (Some 1) 5 10 (schedule_at sift_push_heap (Some 3) 9 30 []))"

lemma sample_heap_eq:
  "sample_heap = [\<lparr>timestamp = 3, res = Some 2, ident = 20\<rparr>,
                  \<lparr>timestamp = 9, res = Some 3, ident = 30\<rparr>,
                  \<lparr>timestamp = 5, res = Some 1, ident = 10\<rparr>]"
  by (simp add: sample_heap_def schedule_at_def sift_push_heap_def shift_up.simps parent_def
      compare_def swap_items_def)

lemma sample_heap_heap: "is_heap sample_heap"
  unfolding sample_heap_def by (intro sift.timer.add_invar) (simp add: is_heap_def)

theorem sleepers_leave_in_time_order_witness:
  "sorted (map fst (drain get_first_scheduled_time (remove_first sift_pop_heap) 3 sample_heap))
   \<and> mset (drain get_first_scheduled_time (remove_first sift_pop_heap) 3 sample_heap)
     = {#(3, Some 2), (9, Some 3), (5, Some 1)#}"
  using sleepers_leave_in_time_order [OF sift.std_heap_axioms sample_heap_heap]
  by (simp add: sample_heap_eq numeral_3_eq_3)

text \<open>
  Scheduling and removal keep a heap and are exact.  \<^verbatim>\<open>schedule_at\<close> adds one entry;
  \<^verbatim>\<open>remove_by_ident\<close> removes exactly one entry of the identity and hands out its object,
  or changes nothing and hands out the empty object when there is none.  (The last entry is
  moved into the gap while its moved-from husk is still in the vector; the husk never moves.)
\<close>

lemma schedule_and_remove_exact:
  assumes "std_heap push_heap pop_heap" and "is_heap h"
    and "remove_by_ident pop_heap a h = (r, h')"
  shows "is_heap (schedule_at push_heap x t i h)
       \<and> mset (schedule_at push_heap x t i h) = add_mset \<lparr>timestamp = t, res = x, ident = i\<rparr> (mset h)
       \<and> is_heap h'
       \<and> (if \<exists>x\<in>set h. ident x = a
          then \<exists>x\<in>set h. ident x = a \<and> r = res x \<and> mset h = add_mset x (mset h')
          else r = None \<and> h' = h)"
  using std_heap.heap_remove_by_ident [OF assms]
    std_heap.push_heap_heap [OF assms(1,2)] std_heap.push_heap_mset [OF assms(1,2)]
  by (simp add: schedule_at_def)

lemma schedule_and_remove_at_input:
  "\<exists>h'. remove_by_ident sift_pop_heap 30 sample_heap = (Some 3, h') \<and> is_heap h'
      \<and> mset sample_heap = add_mset \<lparr>timestamp = 9, res = Some 3, ident = 30\<rparr> (mset h')"
proof -
  obtain r h' where rem: "remove_by_ident sift_pop_heap 30 sample_heap = (r, h')" by fastforce
  from schedule_and_remove_exact [OF sift.std_heap_axioms sample_heap_heap rem]
  have "is_heap h'" and "r = Some 3 \<and> mset sample_heap = add_mset \<lparr>timestamp = 9, res = Some 3, ident = 30\<rparr> (mset h')"
    by (simp_all add: sample_heap_eq)
  with rem show ?thesis by blast
qed

text \<open>
  C30: \<^verbatim>\<open>set_time\<close> with an identity that at most one entry has reschedules exactly that
  entry: the heap order is restored, the other entries keep their times, and the return value
  says whether there was such an entry.
\<close>

theorem set_time_exact:
  assumes "is_heap h" and "only_at a h" and "set_time a tp h = (ok, h')"
  shows "is_heap h' \<and> mset h' = image_mset (retimed a tp) (mset h)
       \<and> ok = (\<exists>x\<in>set h. ident x = a)"
proof -
  have loop: "set_time_loop (length h) 0 a tp False h = (ok, h')"
    using assms(3) by (simp add: set_time_def)
  note res = set_time_loop_correct [OF assms(1) _ loop]
  have "\<forall>x\<in>#mset h'. ident x = a \<longrightarrow> timestamp x = tp"
    by (rule set_time_loop_unique [OF assms(1) _ assms(2) loop]) simp_all
  then have "image_mset (retimed a tp) (mset h') = mset h'"
    by (intro multiset.map_ident_strong) (auto simp: retimed_def)
  moreover have "(\<exists>j. 0 \<le> j \<and> j < length h \<and> ident (h ! j) = a) = (\<exists>x\<in>set h. ident x = a)"
    by (metis in_set_conv_nth le0)
  ultimately show ?thesis using res by simp
qed

theorem set_time_exact_witness:
  "\<exists>h'. set_time 30 1 sample_heap = (True, h') \<and> is_heap h'
      \<and> get_first_scheduled_time h' = Some 1"
proof -
  obtain ok h' where st: "set_time 30 1 sample_heap = (ok, h')" by fastforce
  have "only_at 30 sample_heap" by (simp add: only_at_def sample_heap_eq)
  from set_time_exact [OF sample_heap_heap this st]
  have "ok" and heap: "is_heap h'" and ms: "mset h' = image_mset (retimed 30 1) (mset sample_heap)"
    by (auto simp: sample_heap_eq)
  have "\<lparr>timestamp = 1, res = Some 3, ident = 30\<rparr> \<in># mset h'"
    unfolding ms by (simp add: sample_heap_eq retimed_def)
  moreover have "1 \<le> timestamp x" if "x \<in># mset h'" for x
    using that unfolding ms by (auto simp: sample_heap_eq retimed_def)
  ultimately have "get_first_scheduled_time h' = Some 1"
    using first_is_least_mem heap
    by (cases h') (fastforce simp: get_first_scheduled_time_def)+
  with st \<open>ok\<close> heap show ?thesis by auto
qed

end
