(* ===== verification/Scheduler.thy ===== *)
theory Scheduler
  imports Timer_Queue Await_Ops
begin

text \<open>
  The class \<^verbatim>\<open>scheduler\<close> of \<^verbatim>\<open>coro_scheduler.h\<close>: sleeping, cancelling and
  alerting under the mutex, and the thread that runs \<^verbatim>\<open>run_thread\<close> with its condition
  variable.  Each section under the mutex is one step; the stop token is requested without it.
\<close>

section \<open>Operations\<close>

text \<open>The heap of sleeping results; the alert flags and the awaitables live outside.\<close>

type_synonym sleep_heap = "(awt_ptr, nat) heap"

record scheduler =
  sch_heap :: sleep_heap
  sch_flags :: "nat \<Rightarrow> bool"
  sch_st :: "unit store"

text \<open>
  The closures of the two sleeping functions.  The boolean tells whether
  \<^verbatim>\<open>_cv.notify_all()\<close> is called.  The comparison of a time with an empty optional in the
  second one is false.
\<close>

definition sleep_until ::
    "(sleep_heap \<Rightarrow> sleep_heap) \<Rightarrow> int \<Rightarrow> nat \<Rightarrow> awaitable_result \<Rightarrow> scheduler \<Rightarrow> bool \<times> scheduler" where
  "sleep_until push_heap tp i r s =
     (let n = get_first_scheduled_time (sch_heap s);
          notify = (case n of None \<Rightarrow> True | Some t \<Rightarrow> tp < t)
      in (notify, s\<lparr>sch_heap := schedule_at push_heap r tp i (sch_heap s)\<rparr>))"

definition sleep_until_alertable ::
    "(sleep_heap \<Rightarrow> sleep_heap) \<Rightarrow> nat \<Rightarrow> int \<Rightarrow> awaitable_result \<Rightarrow> scheduler
     \<Rightarrow> prepared_coro \<times> bool \<times> scheduler" where
  "sleep_until_alertable push_heap a tp r s =
     (if sch_flags s a then
        let (pc, r', st) = result_call r (Inr ()) (sch_st s)
        in (pc, False, s\<lparr>sch_st := result_dtor r' st\<rparr>)
      else
        let notify = (case get_first_scheduled_time (sch_heap s) of None \<Rightarrow> False | Some t \<Rightarrow> tp < t)
        in (prepared_empty, notify, s\<lparr>sch_heap := schedule_at push_heap r tp a (sch_heap s)\<rparr>))"

definition sleep_for ::
    "(sleep_heap \<Rightarrow> sleep_heap) \<Rightarrow> int \<Rightarrow> int \<Rightarrow> nat \<Rightarrow> awaitable_result \<Rightarrow> scheduler \<Rightarrow> bool \<times> scheduler" where
  "sleep_for push_heap now dur i r s = sleep_until push_heap (now + dur) i r s"

definition sleep_for_alertable ::
    "(sleep_heap \<Rightarrow> sleep_heap) \<Rightarrow> int \<Rightarrow> nat \<Rightarrow> int \<Rightarrow> awaitable_result \<Rightarrow> scheduler
     \<Rightarrow> prepared_coro \<times> bool \<times> scheduler" where
  "sleep_for_alertable push_heap now a dur r s = sleep_until_alertable push_heap a (now + dur) r s"

definition scheduler_first_time :: "scheduler \<Rightarrow> int option" where
  "scheduler_first_time s = get_first_scheduled_time (sch_heap s)"

definition scheduler_remove_first ::
    "(sleep_heap \<Rightarrow> sleep_heap) \<Rightarrow> scheduler \<Rightarrow> awaitable_result \<times> scheduler" where
  "scheduler_remove_first pop_heap s =
     (let (r, h) = remove_first pop_heap (sch_heap s) in (r, s\<lparr>sch_heap := h\<rparr>))"

definition scheduler_remove_by_ident ::
    "(sleep_heap \<Rightarrow> sleep_heap) \<Rightarrow> nat \<Rightarrow> scheduler \<Rightarrow> awaitable_result \<times> scheduler" where
  "scheduler_remove_by_ident pop_heap i s =
     (let (r, h) = remove_by_ident pop_heap i (sch_heap s) in (r, s\<lparr>sch_heap := h\<rparr>))"

definition cancel_exception ::
    "(sleep_heap \<Rightarrow> sleep_heap) \<Rightarrow> nat \<Rightarrow> exn \<Rightarrow> scheduler \<Rightarrow> prepared_coro \<times> scheduler" where
  "cancel_exception pop_heap i e s =
     (let (r, s1) = scheduler_remove_by_ident pop_heap i s;
          (pc, r', st) = result_assign_exception r e (sch_st s1)
      in (pc, s1\<lparr>sch_st := result_dtor r' st\<rparr>))"

definition cancel_null ::
    "(sleep_heap \<Rightarrow> sleep_heap) \<Rightarrow> nat \<Rightarrow> scheduler \<Rightarrow> prepared_coro \<times> scheduler" where
  "cancel_null pop_heap i s =
     (let (r, s1) = scheduler_remove_by_ident pop_heap i s;
          (pc, r', st) = result_assign_nullopt r (sch_st s1)
      in (pc, s1\<lparr>sch_st := result_dtor r' st\<rparr>))"

definition scheduler_alert :: "nat \<Rightarrow> int \<Rightarrow> scheduler \<Rightarrow> bool \<times> scheduler" where
  "scheduler_alert a now s =
     (True, s\<lparr>sch_flags := (sch_flags s)(a := True), sch_heap := snd (set_time a now (sch_heap s))\<rparr>)"

text \<open>One turn of the loop of \<^verbatim>\<open>run_thread\<close>, after the test of the stop token.\<close>

datatype run_action = Act_run awaitable_result | Act_wait_until int | Act_wait

definition run_turn ::
    "(sleep_heap \<Rightarrow> sleep_heap) \<Rightarrow> int \<Rightarrow> sleep_heap \<Rightarrow> run_action \<times> sleep_heap" where
  "run_turn pop_heap now h =
     (case get_first_scheduled_time h of
        Some t \<Rightarrow>
          if now > t then let (r, h') = remove_first pop_heap h in (Act_run r, h')
          else (Act_wait_until t, h)
      | None \<Rightarrow> (Act_wait, h))"

text \<open>The default executor \<^verbatim>\<open>x()\<close>, whose prepared coroutine is dropped.\<close>

definition run_executor :: "awaitable_result \<Rightarrow> unit store \<Rightarrow> unit store" where
  "run_executor r st = (let (pc, r', st') = result_call r (Inr ()) st in result_dtor r' (emit (prepared_dtor pc) st'))"

section \<open>The thread and its clients\<close>

text \<open>
  Where the thread stands.  It owns the mutex in \<open>Rt_loop\<close> and \<open>Rt_checked\<close> only; a
  woken thread has to acquire it first.
\<close>

datatype thread_phase =
    Rt_woken | Rt_loop | Rt_checked | Rt_wait | Rt_wait_until int | Rt_exec awaitable_result | Rt_exit

definition mutex_free_in :: "thread_phase \<Rightarrow> bool" where
  "mutex_free_in p \<longleftrightarrow> p \<noteq> Rt_loop \<and> p \<noteq> Rt_checked"

fun waiting :: "thread_phase \<Rightarrow> bool" where
  "waiting Rt_wait = True"
| "waiting (Rt_wait_until t) = True"
| "waiting _ = False"

definition notify_all :: "bool \<Rightarrow> thread_phase \<Rightarrow> thread_phase" where
  "notify_all n p = (if n \<and> waiting p then Rt_woken else p)"

fun phase_of :: "run_action \<Rightarrow> thread_phase" where
  "phase_of (Act_run r) = Rt_exec r"
| "phase_of (Act_wait_until t) = Rt_wait_until t"
| "phase_of Act_wait = Rt_wait"

text \<open>
  \<open>ins\<close> logs the results that went to sleep and \<open>due\<close> the times for which they did, or to
  which an alert brought them forward.  \<open>fired\<close> logs those that the thread handed to the
  executor, with the time of the item that left the heap and the clock at that moment,
  \<open>cancelled\<close> those taken out by the clients.  \<open>stop\<close> is the stop token, \<open>stop_note\<close> its callback that is still to run.
\<close>

record sched_sys =
  sc :: scheduler
  clock :: int
  th :: thread_phase
  stop :: bool
  stop_note :: bool
  ins :: "awaitable_result list"
  due :: "(int \<times> awaitable_result) list"
  fired :: "(int \<times> int \<times> awaitable_result) list"
  cancelled :: "awaitable_result list"

definition left_items :: "sleep_heap \<Rightarrow> sleep_heap \<Rightarrow> sleep_heap" where
  "left_items h h' = fold remove1 h' h"

definition fire_log ::
    "int \<Rightarrow> sleep_heap \<Rightarrow> sleep_heap \<Rightarrow> run_action \<Rightarrow> (int \<times> int \<times> awaitable_result) list" where
  "fire_log now h h' act =
     (case act of Act_run r \<Rightarrow> map (\<lambda>x. (timestamp x, now, r)) (left_items h h') | _ \<Rightarrow> [])"

definition due_now :: "nat \<Rightarrow> int \<Rightarrow> sleep_heap \<Rightarrow> (int \<times> awaitable_result) list" where
  "due_now a now h = map (\<lambda>x. (now, res x)) (filter (\<lambda>x. ident x = a) h)"

lemma set_of_add_mset: "mset h = add_mset x (mset h') \<Longrightarrow> set h = insert x (set h')"
  by (metis set_mset_add_mset_insert set_mset_mset)

lemma left_items_one:
  assumes "mset h = add_mset x (mset h')"
  shows "left_items h h' = [x]"
proof -
  have "mset (fold remove1 ys xs) = mset xs - mset ys" for xs ys :: sleep_heap
    by (induction ys arbitrary: xs) simp_all
  from this [of h' h] assms have "mset (left_items h h') = {#x#}" by (simp add: left_items_def)
  then show ?thesis by simp
qed

text \<open>
  A \<open>calm\<close> run avoids two things: an alertable sleep on an empty heap, and a stop request
  while the thread stands between its test of the token and its wait.
\<close>

inductive sched_step ::
    "(sleep_heap \<Rightarrow> sleep_heap) \<Rightarrow> (sleep_heap \<Rightarrow> sleep_heap) \<Rightarrow> bool \<Rightarrow> sched_sys \<Rightarrow> sched_sys \<Rightarrow> bool"
  for push_heap pop_heap :: "sleep_heap \<Rightarrow> sleep_heap" and calm :: bool where
  tick: "0 \<le> d \<Longrightarrow> sched_step push_heap pop_heap calm s (s\<lparr>clock := clock s + d\<rparr>)"
| acquire: "th s = Rt_woken \<Longrightarrow> sched_step push_heap pop_heap calm s (s\<lparr>th := Rt_loop\<rparr>)"
| stop_seen: "th s = Rt_loop \<Longrightarrow> stop s \<Longrightarrow> sched_step push_heap pop_heap calm s (s\<lparr>th := Rt_exit\<rparr>)"
| stop_not_seen: "th s = Rt_loop \<Longrightarrow> \<not> stop s \<Longrightarrow> sched_step push_heap pop_heap calm s (s\<lparr>th := Rt_checked\<rparr>)"
| decide:
    "th s = Rt_checked \<Longrightarrow> run_turn pop_heap (clock s) (sch_heap (sc s)) = (act, h) \<Longrightarrow>
     sched_step push_heap pop_heap calm s
       (s\<lparr>sc := (sc s)\<lparr>sch_heap := h\<rparr>, th := phase_of act,
         fired := fired s @ fire_log (clock s) (sch_heap (sc s)) h act\<rparr>)"
| execute:
    "th s = Rt_exec r \<Longrightarrow>
     sched_step push_heap pop_heap calm s
       (s\<lparr>sc := (sc s)\<lparr>sch_st := run_executor r (sch_st (sc s))\<rparr>, th := Rt_woken\<rparr>)"
| timeout: "th s = Rt_wait_until t \<Longrightarrow> t \<le> clock s \<Longrightarrow> sched_step push_heap pop_heap calm s (s\<lparr>th := Rt_woken\<rparr>)"
| spurious: "waiting (th s) \<Longrightarrow> sched_step push_heap pop_heap calm s (s\<lparr>th := Rt_woken\<rparr>)"
| sleep:
    "mutex_free_in (th s) \<Longrightarrow> sleep_until push_heap tp i r (sc s) = (n, sc') \<Longrightarrow>
     sched_step push_heap pop_heap calm s
       (s\<lparr>sc := sc', th := notify_all n (th s), ins := ins s @ [r], due := due s @ [(tp, r)]\<rparr>)"
| sleep_alertable:
    "mutex_free_in (th s) \<Longrightarrow> \<not> sch_flags (sc s) a \<Longrightarrow> calm \<longrightarrow> sch_heap (sc s) \<noteq> [] \<Longrightarrow>
     sleep_until_alertable push_heap a tp r (sc s) = (pc, n, sc') \<Longrightarrow>
     sched_step push_heap pop_heap calm s
       (s\<lparr>sc := sc', th := notify_all n (th s), ins := ins s @ [r], due := due s @ [(tp, r)]\<rparr>)"
| alerted:
    "mutex_free_in (th s) \<Longrightarrow> sch_flags (sc s) a \<Longrightarrow>
     sleep_until_alertable push_heap a tp r (sc s) = (pc, n, sc') \<Longrightarrow>
     sched_step push_heap pop_heap calm s (s\<lparr>sc := sc', th := notify_all n (th s)\<rparr>)"
| do_cancel_exception:
    "mutex_free_in (th s) \<Longrightarrow> cancel_exception pop_heap i e (sc s) = (pc, sc') \<Longrightarrow>
     sched_step push_heap pop_heap calm s
       (s\<lparr>sc := sc', cancelled := cancelled s
          @ (if \<exists>x \<in> set (sch_heap (sc s)). ident x = i then [fst (remove_by_ident pop_heap i (sch_heap (sc s)))] else [])\<rparr>)"
| do_cancel_null:
    "mutex_free_in (th s) \<Longrightarrow> cancel_null pop_heap i (sc s) = (pc, sc') \<Longrightarrow>
     sched_step push_heap pop_heap calm s
       (s\<lparr>sc := sc', cancelled := cancelled s
          @ (if \<exists>x \<in> set (sch_heap (sc s)). ident x = i then [fst (remove_by_ident pop_heap i (sch_heap (sc s)))] else [])\<rparr>)"
| do_remove_first:
    "mutex_free_in (th s) \<Longrightarrow> scheduler_first_time (sc s) = Some t \<Longrightarrow>
     scheduler_remove_first pop_heap (sc s) = (r, sc') \<Longrightarrow>
     sched_step push_heap pop_heap calm s (s\<lparr>sc := sc', cancelled := cancelled s @ [r]\<rparr>)"
| do_remove_by_ident:
    "mutex_free_in (th s) \<Longrightarrow> scheduler_remove_by_ident pop_heap i (sc s) = (r, sc') \<Longrightarrow>
     sched_step push_heap pop_heap calm s
       (s\<lparr>sc := sc', cancelled := cancelled s
          @ (if \<exists>x \<in> set (sch_heap (sc s)). ident x = i then [r] else [])\<rparr>)"
| do_alert:
    "mutex_free_in (th s) \<Longrightarrow> scheduler_alert a (clock s) (sc s) = (n, sc') \<Longrightarrow>
     sched_step push_heap pop_heap calm s
       (s\<lparr>sc := sc', th := notify_all n (th s), due := due s @ due_now a (clock s) (sch_heap (sc s))\<rparr>)"
| request_stop:
    "\<not> stop s \<Longrightarrow> calm \<longrightarrow> th s \<noteq> Rt_checked \<Longrightarrow>
     sched_step push_heap pop_heap calm s (s\<lparr>stop := True, stop_note := True\<rparr>)"
| stop_callback: "stop_note s \<Longrightarrow> sched_step push_heap pop_heap calm s (s\<lparr>stop_note := False, th := notify_all True (th s)\<rparr>)"

definition sched_init :: "sched_sys \<Rightarrow> bool" where
  "sched_init s \<longleftrightarrow>
     sch_heap (sc s) = [] \<and> th s = Rt_woken \<and> \<not> stop s \<and> \<not> stop_note s
     \<and> ins s = [] \<and> due s = [] \<and> fired s = [] \<and> cancelled s = []"


section \<open>What every run keeps\<close>

text \<open>Every sleeper is in the heap, or left it once; nobody was taken out before the time.\<close>

definition sched_account :: "sleep_heap \<Rightarrow> sched_sys \<Rightarrow> bool" where
  "sched_account h s \<longleftrightarrow>
     is_heap h
     \<and> mset (ins s) = mset (map (\<lambda>(t, c, r). r) (fired s)) + mset (cancelled s) + image_mset res (mset h)
     \<and> (\<forall>x \<in> set h. (timestamp x, res x) \<in> set (due s))
     \<and> (\<forall>(t, c, r) \<in> set (fired s). t < c \<and> (t, r) \<in> set (due s))"

definition sched_inv :: "sched_sys \<Rightarrow> bool" where
  "sched_inv s \<longleftrightarrow> sched_account (sch_heap (sc s)) s"

lemma sched_inv_cong:
  assumes "sched_inv s" and "sch_heap (sc t) = sch_heap (sc s)" and "ins t = ins s"
    and "fired t = fired s" and "cancelled t = cancelled s" and "due t = due s"
  shows "sched_inv t"
  using assms by (simp add: sched_inv_def sched_account_def)

lemma sleep_until_heap:
  assumes "sleep_until push_heap tp i r s = (n, s')"
  shows "sch_heap s' = schedule_at push_heap r tp i (sch_heap s)"
    and "n = (case get_first_scheduled_time (sch_heap s) of None \<Rightarrow> True | Some t \<Rightarrow> tp < t)"
  using assms by (auto simp: sleep_until_def Let_def)

lemma sleep_until_alertable_heap:
  assumes "sleep_until_alertable push_heap a tp r s = (pc, n, s')"
  shows "\<not> sch_flags s a \<Longrightarrow> sch_heap s' = schedule_at push_heap r tp a (sch_heap s)"
    and "\<not> sch_flags s a \<Longrightarrow>
         n = (case get_first_scheduled_time (sch_heap s) of None \<Rightarrow> False | Some t \<Rightarrow> tp < t)"
    and "sch_flags s a \<Longrightarrow> sch_heap s' = sch_heap s \<and> \<not> n"
  using assms by (auto simp: sleep_until_alertable_def Let_def split: prod.splits)

lemma cancel_heap:
  "cancel_exception pop_heap i e s = (pc, s') \<Longrightarrow> sch_heap s' = snd (remove_by_ident pop_heap i (sch_heap s))"
  "cancel_null pop_heap i s = (pc, s') \<Longrightarrow> sch_heap s' = snd (remove_by_ident pop_heap i (sch_heap s))"
  by (auto simp: cancel_exception_def cancel_null_def scheduler_remove_by_ident_def split: prod.splits)

lemma scheduler_remove_heap:
  "scheduler_remove_first pop_heap s = (r, s') \<Longrightarrow> remove_first pop_heap (sch_heap s) = (r, sch_heap s')"
  "scheduler_remove_by_ident pop_heap i s = (r, s') \<Longrightarrow>
   remove_by_ident pop_heap i (sch_heap s) = (r, sch_heap s')"
  by (auto simp: scheduler_remove_first_def scheduler_remove_by_ident_def split: prod.splits)

lemma scheduler_alert_heap:
  "scheduler_alert a now s = (n, s') \<Longrightarrow> n \<and> sch_heap s' = snd (set_time a now (sch_heap s))"
  by (auto simp: scheduler_alert_def)

lemma set_time_account:
  fixes h :: "('r, 'i) heap"
  assumes "is_heap h"
  shows "is_heap (snd (set_time a tp h))"
    and "image_mset res (mset (snd (set_time a tp h))) = image_mset res (mset h)"
    and "x \<in> set (snd (set_time a tp h)) \<Longrightarrow>
         x \<in> set h \<or> timestamp x = tp \<and> (\<exists>y \<in> set h. ident y = a \<and> res y = res x)"
proof -
  obtain ok h' where st: "set_time_loop (length h) 0 a tp False h = (ok, h')" by fastforce
  have same: "image_mset res (image_mset (retimed a tp) M) = image_mset res M" for M :: "('r, 'i) heap_item multiset"
    by (simp add: multiset.map_comp comp_def retimed_def if_distrib [of res] cong: if_cong)
  from set_time_loop_correct [OF assms _ st]
  have "is_heap h'" and "image_mset (retimed a tp) (mset h') = image_mset (retimed a tp) (mset h)" by simp_all
  with st same [of "mset h'"] same [of "mset h"]
  show "is_heap (snd (set_time a tp h))"
    and "image_mset res (mset (snd (set_time a tp h))) = image_mset res (mset h)"
    by (simp_all add: set_time_def)
  show "x \<in> set h \<or> timestamp x = tp \<and> (\<exists>y \<in> set h. ident y = a \<and> res y = res x)"
    if "x \<in> set (snd (set_time a tp h))"
    using set_time_loop_items [OF assms _ st] st that by (simp add: set_time_def)
qed

text \<open>The heap algorithms at the type of the scheduler's heap.\<close>

locale sleep_library = std_heap push_heap pop_heap
  for push_heap pop_heap :: "sleep_heap \<Rightarrow> sleep_heap"
begin

lemma account_add:
  assumes "sched_account h s" and "ins t = ins s @ [r]" and "fired t = fired s" and "cancelled t = cancelled s"
    and "due t = due s @ [(tp, r)]" and "h' = schedule_at push_heap r tp i h"
  shows "sched_account h' t"
proof -
  have heap: "is_heap h" using assms(1) by (simp add: sched_account_def)
  have items: "mset h' = add_mset \<lparr>timestamp = tp, res = r, ident = i\<rparr> (mset h)"
    using timer.add_items [OF heap, of r tp i] assms(6) by simp
  have "is_heap h'" using timer.add_invar [OF heap, of r tp i] assms(6) by simp
  moreover have "\<forall>(t', c, q) \<in> set (fired s). t' < c \<and> (t', q) \<in> set (due s @ [(tp, r)])"
    using assms(1) by (auto simp: sched_account_def)
  moreover have "\<forall>x \<in> set h'. (timestamp x, res x) \<in> set (due s @ [(tp, r)])"
    unfolding set_of_add_mset [OF items] using assms(1) by (auto simp: sched_account_def)
  ultimately show ?thesis
    using assms(1) unfolding sched_account_def assms(2-5) by (simp add: items)
qed

lemma account_cancel:
  assumes acc: "sched_account h s" and "ins t = ins s" and "fired t = fired s" and "due t = due s"
    and "cancelled t = cancelled s
           @ (if \<exists>x \<in> set h. ident x = i then [fst (remove_by_ident pop_heap i h)] else [])"
    and "h' = snd (remove_by_ident pop_heap i h)"
  shows "sched_account h' t"
proof -
  have heap: "is_heap h" using acc by (simp add: sched_account_def)
  obtain r where rem: "remove_by_ident pop_heap i h = (r, h')" using assms(6) by (metis prod.collapse)
  note step = heap_remove_by_ident [OF heap rem]
  show ?thesis
  proof (cases "\<exists>x \<in> set h. ident x = i")
    case True
    from conjunct2 [OF step] obtain x where x: "r = res x" "mset h = add_mset x (mset h')"
      unfolding if_P [OF True] by blast
    have "cancelled t = cancelled s @ [r]" using assms(5) rem unfolding if_P [OF True] by simp
    with acc assms(2-4) x conjunct1 [OF step] set_of_add_mset [OF x(2)] show ?thesis
      by (simp add: sched_account_def)
  next
    case False
    have "cancelled t = cancelled s" using assms(5) unfolding if_not_P [OF False] by simp
    moreover have "h' = h" using conjunct2 [OF step] unfolding if_not_P [OF False] by simp
    ultimately show ?thesis using acc assms(2-4) by (simp add: sched_account_def)
  qed
qed

lemma account_first:
  assumes acc: "sched_account h s" and "get_first_scheduled_time h = Some tm"
    and rem: "remove_first pop_heap h = (r, h')"
    and "ins t = ins s" and "fired t = fired s" and "cancelled t = cancelled s @ [r]" and "due t = due s"
  shows "sched_account h' t"
proof -
  have heap: "is_heap h" using acc by (simp add: sched_account_def)
  obtain i where items: "mset h = add_mset \<lparr>timestamp = tm, res = r, ident = i\<rparr> (mset h')"
    using timer.take_first_items [OF heap assms(2) rem] by blast
  have "is_heap h'" using timer.take_first_invar [OF heap assms(2)] rem by simp
  then show ?thesis
    using acc assms(4-7) items set_of_add_mset [OF items] by (simp add: sched_account_def)
qed

lemma account_turn:
  assumes acc: "sched_account h s" and turn: "run_turn pop_heap now h = (act, h')"
    and "ins t = ins s" and "fired t = fired s @ fire_log now h h' act" and "cancelled t = cancelled s"
    and "due t = due s"
  shows "sched_account h' t"
proof (cases act)
  case (Act_run r)
  have heap: "is_heap h" using acc by (simp add: sched_account_def)
  from turn Act_run obtain tm where tm: "get_first_scheduled_time h = Some tm" "tm < now"
    and rem: "remove_first pop_heap h = (r, h')"
    by (auto simp: run_turn_def split: option.splits if_splits prod.splits)
  obtain i where items: "mset h = add_mset \<lparr>timestamp = tm, res = r, ident = i\<rparr> (mset h')"
    using timer.take_first_items [OF heap tm(1) rem] by blast
  have heap': "is_heap h'" using timer.take_first_invar [OF heap tm(1)] rem by simp
  have "fire_log now h h' act = [(tm, now, r)]"
    using left_items_one [OF items] Act_run by (simp add: fire_log_def)
  then show ?thesis
    using acc heap' assms(3-6) tm(2) items set_of_add_mset [OF items] by (simp add: sched_account_def)
next
  case (Act_wait_until tm)
  with turn have "h' = h" by (auto simp: run_turn_def split: option.splits if_splits prod.splits)
  with acc assms(3-6) Act_wait_until show ?thesis by (simp add: sched_account_def fire_log_def)
next
  case Act_wait
  with turn have "h' = h" by (auto simp: run_turn_def split: option.splits if_splits prod.splits)
  with acc assms(3-6) Act_wait show ?thesis by (simp add: sched_account_def fire_log_def)
qed

lemma sched_step_inv:
  assumes inv: "sched_inv s" and step: "sched_step push_heap pop_heap calm s t"
  shows "sched_inv t"
  using step
proof cases
  case (decide act h)
  show ?thesis unfolding sched_inv_def
    using account_turn [OF inv [unfolded sched_inv_def] decide(3), of t] by (simp add: decide(1))
next
  case (sleep tp i r n sc')
  show ?thesis unfolding sched_inv_def
    by (rule account_add [OF inv [unfolded sched_inv_def]])
       (simp_all add: sleep(1) sleep_until_heap(1) [OF sleep(3)])
next
  case (sleep_alertable a tp r pc n sc')
  show ?thesis unfolding sched_inv_def
    by (rule account_add [OF inv [unfolded sched_inv_def]])
       (simp_all add: sleep_alertable(1) sleep_until_alertable_heap(1) [OF sleep_alertable(5,3)])
next
  case (alerted a tp r pc n sc')
  show ?thesis
    by (rule sched_inv_cong [OF inv])
       (simp_all add: alerted(1) sleep_until_alertable_heap(3) [OF alerted(4,3)])
next
  case (do_cancel_exception i e pc sc')
  show ?thesis unfolding sched_inv_def
    by (rule account_cancel [OF inv [unfolded sched_inv_def], where i = i])
       (simp_all add: do_cancel_exception(1) cancel_heap(1) [OF do_cancel_exception(3)])
next
  case (do_cancel_null i pc sc')
  show ?thesis unfolding sched_inv_def
    by (rule account_cancel [OF inv [unfolded sched_inv_def], where i = i])
       (simp_all add: do_cancel_null(1) cancel_heap(2) [OF do_cancel_null(3)])
next
  case (do_remove_first tm r sc')
  have "sched_account (sch_heap sc') t"
    by (rule account_first [OF inv [unfolded sched_inv_def] do_remove_first(3) [unfolded scheduler_first_time_def]
          scheduler_remove_heap(1) [OF do_remove_first(4)]]) (simp_all add: do_remove_first(1))
  then show ?thesis by (simp add: sched_inv_def do_remove_first(1))
next
  case (do_remove_by_ident i r sc')
  show ?thesis unfolding sched_inv_def
    by (rule account_cancel [OF inv [unfolded sched_inv_def], where i = i])
       (simp_all add: do_remove_by_ident(1) scheduler_remove_heap(2) [OF do_remove_by_ident(3)])
next
  case (do_alert a n sc')
  have acc: "sched_account (sch_heap (sc s)) s" using inv by (simp add: sched_inv_def)
  then have heap: "is_heap (sch_heap (sc s))" by (simp add: sched_account_def)
  have sc': "sch_heap sc' = snd (set_time a (clock s) (sch_heap (sc s)))"
    using scheduler_alert_heap [OF do_alert(3)] by simp
  note st = set_time_account [OF heap, where a = a and tp = "clock s"]
  have due: "set (due t) = set (due s) \<union> (\<lambda>y. (clock s, res y)) ` {y \<in> set (sch_heap (sc s)). ident y = a}"
    by (simp add: do_alert(1) due_now_def)
  have "(timestamp x, res x) \<in> set (due t)" if "x \<in> set (sch_heap sc')" for x
    using st(3) [OF that [unfolded sc']]
  proof
    assume "x \<in> set (sch_heap (sc s))"
    then show ?thesis using acc unfolding due by (simp add: sched_account_def)
  next
    assume "timestamp x = clock s \<and> (\<exists>y \<in> set (sch_heap (sc s)). ident y = a \<and> res y = res x)"
    then obtain y where "timestamp x = clock s" "y \<in> set (sch_heap (sc s))" "ident y = a" "res y = res x" by blast
    then show ?thesis unfolding due by (intro UnI2 image_eqI [of _ _ y]) simp_all
  qed
  moreover have "\<forall>(t', c, q) \<in> set (fired s). t' < c \<and> (t', q) \<in> set (due t)"
    using acc by (auto simp: do_alert(1) sched_account_def)
  ultimately show ?thesis
    using acc st(1,2) by (simp add: do_alert(1) sched_inv_def sched_account_def sc')
qed (rule sched_inv_cong [OF inv], simp_all)+

end

sublocale sleep_library \<subseteq> all_runs: step_invariant sched_init "sched_step push_heap pop_heap calm" sched_inv
  for calm
proof
  show "sched_init s \<Longrightarrow> sched_inv s" for s
    by (simp add: sched_init_def sched_inv_def sched_account_def is_heap_def)
  show "sched_inv s \<Longrightarrow> sched_step push_heap pop_heap calm s t \<Longrightarrow> sched_inv t" for s t
    by (rule sched_step_inv)
qed

section \<open>The thread is not left waiting\<close>

text \<open>
  What a calm run keeps: a waiting thread waits for the first sleeper or earlier, and a stop
  request that it has not seen still has its notification to come.
\<close>

fun waits_enough :: "thread_phase \<Rightarrow> sleep_heap \<Rightarrow> bool" where
  "waits_enough Rt_wait h = (h = [])"
| "waits_enough (Rt_wait_until t) h = list_all (\<lambda>x. t \<le> timestamp x) h"
| "waits_enough _ h = True"

definition awake_inv :: "sched_sys \<Rightarrow> bool" where
  "awake_inv s \<longleftrightarrow>
     sched_inv s \<and> waits_enough (th s) (sch_heap (sc s))
     \<and> (stop s \<and> waiting (th s) \<longrightarrow> stop_note s) \<and> (th s = Rt_checked \<longrightarrow> \<not> stop s)"

lemma waits_enough_not_waiting [simp]: "\<not> waiting p \<Longrightarrow> waits_enough p h"
  by (cases p) auto

lemma notify_all_simps [simp]:
  "waits_enough (notify_all True p) h" "\<not> waiting (notify_all True p)" "notify_all False p = p"
  "notify_all n p = Rt_checked \<longleftrightarrow> p = Rt_checked" "waiting (notify_all n p) \<longleftrightarrow> \<not> n \<and> waiting p"
  by (auto simp: notify_all_def)

lemma waits_enough_sub:
  "waits_enough p h \<Longrightarrow> set h' \<subseteq> set h \<Longrightarrow> waits_enough p h'"
  by (cases p) (auto simp: list_all_iff)

lemma waits_enough_add:
  assumes "waits_enough p h" and "h \<noteq> []" and "set h' = insert x (set h)"
    and "timestamp x \<ge> timestamp (hd h)"
  shows "waits_enough p h'"
  using assms by (cases p; cases h) (auto simp: list_all_iff)

lemma turn_waits_enough:
  assumes "is_heap h" and "run_turn pop_heap now h = (act, h')"
  shows "waits_enough (phase_of act) h'"
proof (cases h)
  case Nil
  with assms(2) show ?thesis by (auto simp: run_turn_def get_first_scheduled_time_def)
next
  case (Cons x ys)
  with assms first_is_least_mem [of x ys] show ?thesis
    by (auto simp: run_turn_def get_first_scheduled_time_def list_all_iff
        split: if_splits prod.splits)
qed

context sleep_library
begin

lemma sleep_waits_enough:
  assumes "is_heap h" and "waits_enough p h"
    and "case get_first_scheduled_time h of None \<Rightarrow> n | Some t \<Rightarrow> n = (tp < t)"
  shows "waits_enough (notify_all n p) (schedule_at push_heap r tp i h)"
proof (cases n)
  case False
  with assms(3) have h: "h \<noteq> []" and le: "timestamp (hd h) \<le> tp"
    by (auto simp: get_first_scheduled_time_def split: list.splits)
  have "set (schedule_at push_heap r tp i h) = insert \<lparr>timestamp = tp, res = r, ident = i\<rparr> (set h)"
    using timer.add_items [OF assms(1), of r tp i] by (metis set_mset_add_mset_insert set_mset_mset)
  from waits_enough_add [OF assms(2) h this] le False show ?thesis by simp
qed simp

lemma cancel_waits_enough:
  assumes "is_heap h" and "waits_enough p h"
  shows "waits_enough p (snd (remove_by_ident pop_heap i h))"
proof (rule waits_enough_sub [OF assms(2)])
  obtain r h' where rem: "remove_by_ident pop_heap i h = (r, h')" by fastforce
  note step = conjunct2 [OF heap_remove_by_ident [OF assms(1) rem]]
  have "set h' \<subseteq> set h"
  proof (cases "\<exists>x \<in> set h. ident x = i")
    case True
    from step obtain x where "mset h = add_mset x (mset h')" unfolding if_P [OF True] by blast
    then show ?thesis by (metis set_mset_add_mset_insert set_mset_mset subset_insertI)
  next
    case False
    then show ?thesis using step by simp
  qed
  with rem show "set (snd (remove_by_ident pop_heap i h)) \<subseteq> set h" by simp
qed

lemma first_waits_enough:
  assumes "is_heap h" and "waits_enough p h" and "get_first_scheduled_time h = Some tm"
    and "remove_first pop_heap h = (r, h')"
  shows "waits_enough p h'"
proof (rule waits_enough_sub [OF assms(2)])
  obtain i where "mset h = add_mset \<lparr>timestamp = tm, res = r, ident = i\<rparr> (mset h')"
    using timer.take_first_items [OF assms(1,3,4)] by blast
  then show "set h' \<subseteq> set h" by (metis set_mset_add_mset_insert set_mset_mset subset_insertI)
qed

lemma sleep_until_waits_enough:
  assumes "is_heap (sch_heap S)" and "waits_enough p (sch_heap S)" and "sleep_until push_heap tp i r S = (n, S')"
  shows "waits_enough (notify_all n p) (sch_heap S')"
  unfolding sleep_until_heap(1) [OF assms(3)]
  by (rule sleep_waits_enough [OF assms(1,2)])
     (simp add: sleep_until_heap(2) [OF assms(3)] split: option.split)

lemma sleep_alertable_waits_enough:
  assumes "is_heap (sch_heap S)" and "waits_enough p (sch_heap S)" and "sch_heap S \<noteq> []" and "\<not> sch_flags S a"
    and "sleep_until_alertable push_heap a tp r S = (pc, n, S')"
  shows "waits_enough (notify_all n p) (sch_heap S')"
proof -
  have ne: "get_first_scheduled_time (sch_heap S) \<noteq> None"
    using assms(3) by (auto simp: get_first_scheduled_time_def split: list.splits)
  show ?thesis
    unfolding sleep_until_alertable_heap(1) [OF assms(5,4)]
    by (rule sleep_waits_enough [OF assms(1,2)])
       (use ne in \<open>auto simp: sleep_until_alertable_heap(2) [OF assms(5,4)]\<close>)
qed

lemma calm_step_awake:
  assumes inv: "awake_inv s" and step: "sched_step push_heap pop_heap True s t"
  shows "awake_inv t"
proof -
  have acc: "sched_inv s" and enough: "waits_enough (th s) (sch_heap (sc s))"
    and note_: "stop s \<Longrightarrow> waiting (th s) \<Longrightarrow> stop_note s" and unseen: "th s = Rt_checked \<Longrightarrow> \<not> stop s"
    using inv by (auto simp: awake_inv_def)
  have heap: "is_heap (sch_heap (sc s))" using acc by (simp add: sched_inv_def sched_account_def)
  have acc': "sched_inv t" by (rule sched_step_inv [OF acc step])
  have "waits_enough (th t) (sch_heap (sc t)) \<and> (stop t \<and> waiting (th t) \<longrightarrow> stop_note t)
        \<and> (th t = Rt_checked \<longrightarrow> \<not> stop t)"
    using step
  proof cases
    case (decide act h)
    have "phase_of act \<noteq> Rt_checked" by (cases act) simp_all
    with decide turn_waits_enough [OF heap decide(3)] unseen show ?thesis by simp
  next
    case (sleep tp i r n sc')
    with sleep_until_waits_enough [OF heap enough sleep(3)] note_ unseen show ?thesis by auto
  next
    case (sleep_alertable a tp r pc n sc')
    with sleep_alertable_waits_enough [OF heap enough _ sleep_alertable(3,5)] note_ unseen show ?thesis by auto
  next
    case (alerted a tp r pc n sc')
    with enough note_ unseen sleep_until_alertable_heap(3) [OF alerted(4,3)] show ?thesis by auto
  next
    case (do_cancel_exception i e pc sc')
    with cancel_waits_enough [OF heap enough, of i] cancel_heap(1) [OF do_cancel_exception(3)] note_ unseen
    show ?thesis by simp
  next
    case (do_cancel_null i pc sc')
    with cancel_waits_enough [OF heap enough, of i] cancel_heap(2) [OF do_cancel_null(3)] note_ unseen
    show ?thesis by simp
  next
    case (do_remove_first tm r sc')
    with first_waits_enough [OF heap enough _ scheduler_remove_heap(1) [OF do_remove_first(4)], of tm] note_ unseen
    show ?thesis by (simp add: scheduler_first_time_def)
  next
    case (do_remove_by_ident i r sc')
    with cancel_waits_enough [OF heap enough, of i] scheduler_remove_heap(2) [OF do_remove_by_ident(3)] note_ unseen
    show ?thesis by simp
  next
    case (do_alert a n sc')
    with scheduler_alert_heap [OF do_alert(3)] note_ unseen show ?thesis by simp
  qed (use enough note_ unseen in auto)
  with acc' show ?thesis by (simp add: awake_inv_def)
qed

end

sublocale sleep_library \<subseteq> calm_runs: step_invariant sched_init "sched_step push_heap pop_heap True" awake_inv
proof
  show "sched_init s \<Longrightarrow> awake_inv s" for s
    using all_runs.init_inv [of s] by (simp add: sched_init_def awake_inv_def)
  show "awake_inv s \<Longrightarrow> sched_step push_heap pop_heap True s t \<Longrightarrow> awake_inv t" for s t
    by (rule calm_step_awake)
qed

context sleep_library
begin

lemmas runs_keep_inv = all_runs.step_invariant_axioms and calm_runs_awake = calm_runs.step_invariant_axioms

end

interpretation sift_sleep: sleep_library sift_push_heap sift_pop_heap
  by unfold_locales

section \<open>Properties of the scheduler\<close>

lemma sleep_library_std_heap: "std_heap push_heap pop_heap \<Longrightarrow> sleep_library push_heap pop_heap"
  by (simp add: sleep_library_def)

text \<open>
  C6: in every run, whatever the clients and the thread do and in whatever order, every result
  that went to sleep is still in the heap, or was handed to the executor, or was cancelled:
  none is lost and none leaves twice.  A result is handed to the executor only when the clock
  has passed the time of its item, which is a time it went to sleep for or was alerted at,
  and the heap order is never broken.
\<close>

theorem scheduler_keeps_sleepers:
  assumes "std_heap push_heap pop_heap"
    and "reachable sched_init (sched_step push_heap pop_heap calm) s"
  shows "is_heap (sch_heap (sc s))
       \<and> mset (ins s) = mset (map (\<lambda>(t, c, r). r) (fired s)) + mset (cancelled s)
                         + image_mset res (mset (sch_heap (sc s)))
       \<and> list_all (\<lambda>(t, c, r). t < c \<and> (t, r) \<in> set (due s)) (fired s)"
  using step_invariant.reachable_inv [OF sleep_library.runs_keep_inv [OF sleep_library_std_heap [OF assms(1)]] assms(2)]
  by (auto simp: sched_inv_def sched_account_def list_all_iff)

definition idle_sched :: sched_sys where
  "idle_sched =
     \<lparr>sc = \<lparr>sch_heap = [], sch_flags = (\<lambda>_. False),
            sch_st = \<lparr>awts = (\<lambda>_. \<lparr>a_state = Callback 0, a_owner = Null_handle\<rparr>), frames = [],
                      cur_exn = None, trace = []\<rparr>\<rparr>,
      clock = 0, th = Rt_woken, stop = False, stop_note = False, ins = [], due = [], fired = [], cancelled = []\<rparr>"

lemma idle_sched_reachable: "reachable sched_init (sched_step push_heap pop_heap calm) idle_sched"
  by (rule reachable.start) (simp add: sched_init_def idle_sched_def)

text \<open>One client goes to sleep until 3 while the thread holds no mutex.\<close>

definition one_sleeper :: sched_sys where
  "one_sleeper = idle_sched\<lparr>sc := (sc idle_sched)\<lparr>sch_heap := [\<lparr>timestamp = 3, res = Some 7, ident = 0\<rparr>]\<rparr>,
     ins := [Some 7], due := [(3, Some 7)]\<rparr>"

lemma one_sleeper_reachable:
  "reachable sched_init (sched_step sift_push_heap sift_pop_heap calm) one_sleeper"
proof (rule reachable.next_step [OF idle_sched_reachable])
  have "sched_step sift_push_heap sift_pop_heap calm idle_sched
     (idle_sched\<lparr>sc := (sc idle_sched)\<lparr>sch_heap := [\<lparr>timestamp = 3, res = Some 7, ident = 0\<rparr>]\<rparr>,
        th := notify_all True (th idle_sched), ins := ins idle_sched @ [Some 7], due := due idle_sched @ [(3, Some 7)]\<rparr>)"
    by (rule sched_step.sleep [where tp = 3 and i = 0 and r = "Some 7"])
       (simp_all add: mutex_free_in_def sleep_until_def idle_sched_def get_first_scheduled_time_def
          schedule_at_def sift_push_heap_def shift_up.simps)
  then show "sched_step sift_push_heap sift_pop_heap calm idle_sched one_sleeper"
    by (simp add: one_sleeper_def idle_sched_def notify_all_def)
qed

theorem scheduler_keeps_sleepers_witness:
  "is_heap (sch_heap (sc one_sleeper))
   \<and> mset (ins one_sleeper) = image_mset res (mset (sch_heap (sc one_sleeper)))"
  using scheduler_keeps_sleepers [OF sift.std_heap_axioms one_sleeper_reachable [of False]]
  by (simp add: one_sleeper_def idle_sched_def)

text \<open>
  C7: no wake-up is missed, in every run in which no alertable sleep meets an empty heap and
  no stop request falls between the thread's test of the token and its wait: a thread that
  waits without a limit has no sleeper, a thread that waits with a limit does not wait past
  any sleeper's time, and a waiting thread that has not noticed a stop request is still to be
  notified of it.
\<close>

theorem scheduler_never_oversleeps:
  assumes "std_heap push_heap pop_heap"
    and "reachable sched_init (sched_step push_heap pop_heap True) s"
  shows "waits_enough (th s) (sch_heap (sc s)) \<and> (stop s \<and> waiting (th s) \<longrightarrow> stop_note s)"
  using step_invariant.reachable_inv [OF sleep_library.calm_runs_awake [OF sleep_library_std_heap [OF assms(1)]] assms(2)]
  by (simp add: awake_inv_def)

text \<open>The thread reaches its wait, then a client goes to sleep.\<close>

definition thread_waits :: sched_sys where
  "thread_waits = idle_sched\<lparr>th := Rt_wait\<rparr>"

lemmas idle_simps = idle_sched_def thread_waits_def run_turn_def get_first_scheduled_time_def
  notify_all_def mutex_free_in_def fire_log_def schedule_at_def sift_push_heap_def shift_up.simps

lemma checked_reachable:
  "reachable sched_init (sched_step push_heap pop_heap calm) (idle_sched\<lparr>th := Rt_checked\<rparr>)"
proof -
  have "sched_step push_heap pop_heap calm idle_sched (idle_sched\<lparr>th := Rt_loop\<rparr>)"
    by (rule sched_step.acquire) (simp add: idle_sched_def)
  note loop = reachable.next_step [OF idle_sched_reachable, OF this]
  have "sched_step push_heap pop_heap calm (idle_sched\<lparr>th := Rt_loop\<rparr>) (idle_sched\<lparr>th := Rt_loop, th := Rt_checked\<rparr>)"
    by (rule sched_step.stop_not_seen) (simp_all add: idle_sched_def)
  from reachable.next_step [OF loop, OF this] show ?thesis by simp
qed

lemma decide_on_empty:
  assumes "reachable sched_init (sched_step push_heap pop_heap calm) s"
    and "th s = Rt_checked" and "sch_heap (sc s) = []"
  shows "reachable sched_init (sched_step push_heap pop_heap calm) (s\<lparr>th := Rt_wait\<rparr>)"
proof -
  have "sched_step push_heap pop_heap calm s
      (s\<lparr>sc := (sc s)\<lparr>sch_heap := []\<rparr>, th := phase_of Act_wait,
         fired := fired s @ fire_log (clock s) (sch_heap (sc s)) [] Act_wait\<rparr>)"
    by (rule sched_step.decide) (simp_all add: assms run_turn_def get_first_scheduled_time_def)
  moreover have "(sc s)\<lparr>sch_heap := []\<rparr> = sc s" using assms(3) by simp
  ultimately have "sched_step push_heap pop_heap calm s (s\<lparr>th := Rt_wait\<rparr>)"
    by (simp add: fire_log_def)
  from reachable.next_step [OF assms(1), OF this] show ?thesis .
qed

lemma waits_reachable: "reachable sched_init (sched_step push_heap pop_heap calm) thread_waits"
  using decide_on_empty [OF checked_reachable] by (simp add: idle_sched_def thread_waits_def)

theorem scheduler_never_oversleeps_witness:
  "th thread_waits = Rt_wait \<and> waits_enough (th thread_waits) (sch_heap (sc thread_waits))"
  using scheduler_never_oversleeps [OF sift.std_heap_axioms waits_reachable]
  by (simp add: thread_waits_def)

text \<open>
  C37: without the two restrictions wake-ups are lost.  An alertable sleep that comes while the
  thread waits for an empty heap does not notify it (a time is never smaller than an empty
  optional), so the thread waits without a limit however far the clock gets past the sleeper's
  time.  A stop request between the test of the token and the wait has notified nobody, since
  the callback does not take the mutex, and the thread waits on with no notification to come.
\<close>

theorem scheduler_loses_wakeups:
  "(\<exists>s. reachable sched_init (sched_step sift_push_heap sift_pop_heap False) s
        \<and> th s = Rt_wait \<and> (\<exists>x. x \<in> set (sch_heap (sc s)) \<and> timestamp x + int d \<le> clock s))
   \<and> (\<exists>s. reachable sched_init (sched_step sift_push_heap sift_pop_heap False) s
        \<and> th s = Rt_wait \<and> stop s \<and> \<not> stop_note s)"
proof
  let ?x = "\<lparr>timestamp = 0, res = Some 7, ident = 0\<rparr>"
  let ?s = "thread_waits\<lparr>sc := (sc thread_waits)\<lparr>sch_heap := [?x]\<rparr>, ins := [Some 7], due := [(0, Some 7)]\<rparr>"
  have "sched_step sift_push_heap sift_pop_heap False thread_waits
     (thread_waits\<lparr>sc := (sc thread_waits)\<lparr>sch_heap := [?x]\<rparr>,
        th := notify_all False (th thread_waits), ins := ins thread_waits @ [Some 7], due := due thread_waits @ [(0, Some 7)]\<rparr>)"
    by (rule sched_step.sleep_alertable [where tp = 0 and a = 0 and r = "Some 7" and pc = prepared_empty])
       (simp_all add: sleep_until_alertable_def idle_simps)
  then have "sched_step sift_push_heap sift_pop_heap False thread_waits ?s"
    by (simp add: idle_simps)
  note asleep = reachable.next_step [OF waits_reachable, OF this]
  have "sched_step sift_push_heap sift_pop_heap False ?s (?s\<lparr>clock := clock ?s + int d\<rparr>)"
    by (rule sched_step.tick) simp
  from reachable.next_step [OF asleep, OF this]
  show "\<exists>s. reachable sched_init (sched_step sift_push_heap sift_pop_heap False) s
        \<and> th s = Rt_wait \<and> (\<exists>x. x \<in> set (sch_heap (sc s)) \<and> timestamp x + int d \<le> clock s)"
    by (intro exI [of _ "?s\<lparr>clock := clock ?s + int d\<rparr>"]) (simp add: idle_sched_def thread_waits_def)
next
  let ?c = "idle_sched\<lparr>th := Rt_checked\<rparr>"
  let ?r = "?c\<lparr>stop := True, stop_note := True\<rparr>"
  have "sched_step sift_push_heap sift_pop_heap False ?c ?r"
    by (rule sched_step.request_stop) (simp_all add: idle_sched_def)
  note requested = reachable.next_step [OF checked_reachable, OF this]
  have "sched_step sift_push_heap sift_pop_heap False ?r (?r\<lparr>stop_note := False, th := notify_all True (th ?r)\<rparr>)"
    by (rule sched_step.stop_callback) simp
  note notified = reachable.next_step [OF requested, OF this]
  from decide_on_empty [OF this]
  show "\<exists>s. reachable sched_init (sched_step sift_push_heap sift_pop_heap False) s
        \<and> th s = Rt_wait \<and> stop s \<and> \<not> stop_note s"
    by (intro exI) (auto simp: idle_sched_def notify_all_def)
qed

end
