(* ===== verification/Sched_Live.thy ===== *)
theory Sched_Live
  imports Scheduler
begin

text \<open>
  Progress of the scheduler's thread: from every state of a calm run the thread can hand every
  sleeper to the executor, and a stop request ends it within a few steps.
\<close>

section \<open>The steps the scheduler makes of its own accord\<close>

text \<open>
  The thread's turns and the stop callback, without clients, spurious wake-ups and the passing
  of time; \<open>drive\<close> adds time.
\<close>

inductive own_step :: "(sleep_heap \<Rightarrow> sleep_heap) \<Rightarrow> sched_sys \<Rightarrow> sched_sys \<Rightarrow> bool"
  for pop_heap :: "sleep_heap \<Rightarrow> sleep_heap" where
  own_acquire: "th s = Rt_woken \<Longrightarrow> own_step pop_heap s (s\<lparr>th := Rt_loop\<rparr>)"
| own_stop_seen: "th s = Rt_loop \<Longrightarrow> stop s \<Longrightarrow> own_step pop_heap s (s\<lparr>th := Rt_exit\<rparr>)"
| own_stop_not_seen: "th s = Rt_loop \<Longrightarrow> \<not> stop s \<Longrightarrow> own_step pop_heap s (s\<lparr>th := Rt_checked\<rparr>)"
| own_decide:
    "th s = Rt_checked \<Longrightarrow> run_turn pop_heap (clock s) (sch_heap (sc s)) = (act, h) \<Longrightarrow>
     own_step pop_heap s
       (s\<lparr>sc := (sc s)\<lparr>sch_heap := h\<rparr>, th := phase_of act,
         fired := fired s @ fire_log (clock s) (sch_heap (sc s)) h act\<rparr>)"
| own_execute:
    "th s = Rt_exec r \<Longrightarrow>
     own_step pop_heap s (s\<lparr>sc := (sc s)\<lparr>sch_st := run_executor r (sch_st (sc s))\<rparr>, th := Rt_woken\<rparr>)"
| own_timeout: "th s = Rt_wait_until t \<Longrightarrow> t \<le> clock s \<Longrightarrow> own_step pop_heap s (s\<lparr>th := Rt_woken\<rparr>)"
| own_stop_callback: "stop_note s \<Longrightarrow> own_step pop_heap s (s\<lparr>stop_note := False, th := notify_all True (th s)\<rparr>)"

inductive drive :: "(sleep_heap \<Rightarrow> sleep_heap) \<Rightarrow> sched_sys \<Rightarrow> sched_sys \<Rightarrow> bool"
  for pop_heap :: "sleep_heap \<Rightarrow> sleep_heap" where
  drive_own: "own_step pop_heap s t \<Longrightarrow> drive pop_heap s t"
| drive_tick: "0 \<le> d \<Longrightarrow> drive pop_heap s (s\<lparr>clock := clock s + d\<rparr>)"

inductive_cases own_stepE: "own_step pop_heap s t"
inductive_simps own_step_exit: "own_step pop_heap (s\<lparr>th := Rt_exit\<rparr>) t"

lemma own_step_sched_step: "own_step pop_heap s t \<Longrightarrow> sched_step push_heap pop_heap calm s t"
  by (induction rule: own_step.induct) (blast intro: sched_step.intros)+

lemma drive_sched_step: "drive pop_heap s t \<Longrightarrow> sched_step push_heap pop_heap calm s t"
  by (induction rule: drive.induct) (blast intro: own_step_sched_step sched_step.tick)+

lemma drive_run_sched_run: "(drive pop_heap)\<^sup>*\<^sup>* s t \<Longrightarrow> (sched_step push_heap pop_heap calm)\<^sup>*\<^sup>* s t"
  by (induction rule: rtranclp_induct) (blast intro: rtranclp.rtrancl_into_rtrancl drive_sched_step)+

section \<open>The thread comes back to its decision\<close>

text \<open>The thread leaves its loop only after a stop request.\<close>

definition exits_on_stop :: "sched_sys \<Rightarrow> bool" where
  "exits_on_stop s \<longleftrightarrow> (th s = Rt_exit \<longrightarrow> stop s)"

lemma phase_of_not_exit [simp]: "phase_of act \<noteq> Rt_exit" "phase_of act \<noteq> Rt_loop" "phase_of act \<noteq> Rt_woken"
  by (cases act; simp)+

lemma notify_all_exit [simp]: "notify_all n p = Rt_exit \<longleftrightarrow> p = Rt_exit"
  by (cases p) (auto simp: notify_all_def)

lemma exits_on_stop_step:
  "exits_on_stop s \<Longrightarrow> sched_step push_heap pop_heap calm s t \<Longrightarrow> exits_on_stop t"
  by (erule sched_step.cases) (auto simp: exits_on_stop_def)

interpretation exit_runs: step_invariant sched_init "sched_step push_heap pop_heap calm" exits_on_stop
  for push_heap pop_heap calm
proof
  show "sched_init s \<Longrightarrow> exits_on_stop s" for s by (simp add: sched_init_def exits_on_stop_def)
qed (rule exits_on_stop_step)

text \<open>What the thread's own steps leave alone.\<close>

definition same_sleepers :: "sched_sys \<Rightarrow> sched_sys \<Rightarrow> bool" where
  "same_sleepers s t \<longleftrightarrow>
     sch_heap (sc t) = sch_heap (sc s) \<and> ins t = ins s \<and> fired t = fired s \<and> cancelled t = cancelled s
     \<and> stop t = stop s \<and> clock s \<le> clock t"

lemma same_sleepers_trans: "same_sleepers s t \<Longrightarrow> same_sleepers t u \<Longrightarrow> same_sleepers s u"
  by (auto simp: same_sleepers_def)

lemma woken_to_checked:
  assumes "th s = Rt_woken" and "\<not> stop s"
  shows "(drive pop_heap)\<^sup>*\<^sup>* s (s\<lparr>th := Rt_checked\<rparr>)"
proof -
  have "drive pop_heap s (s\<lparr>th := Rt_loop\<rparr>)"
    using assms(1) by (intro drive_own own_acquire)
  moreover have "drive pop_heap (s\<lparr>th := Rt_loop\<rparr>) (s\<lparr>th := Rt_loop, th := Rt_checked\<rparr>)"
    by (intro drive_own own_stop_not_seen) (simp_all add: assms(2))
  ultimately show ?thesis by auto
qed

lemma to_woken:
  assumes "th s \<noteq> Rt_exit" and "th s \<noteq> Rt_wait" and "th s \<noteq> Rt_loop" and "th s \<noteq> Rt_checked"
  shows "\<exists>t. (drive pop_heap)\<^sup>*\<^sup>* s t \<and> th t = Rt_woken \<and> same_sleepers s t"
proof (cases "th s")
  case (Rt_wait_until tm)
  let ?s = "s\<lparr>clock := clock s + \<bar>tm - clock s\<bar>\<rparr>"
  have "drive pop_heap s ?s" by (rule drive_tick) simp
  moreover have "drive pop_heap ?s (?s\<lparr>th := Rt_woken\<rparr>)"
    by (intro drive_own own_timeout [where t = tm]) (simp_all add: Rt_wait_until)
  ultimately show ?thesis
    by (intro exI [of _ "?s\<lparr>th := Rt_woken\<rparr>"]) (auto simp: same_sleepers_def)
next
  case (Rt_exec r)
  let ?t = "s\<lparr>sc := (sc s)\<lparr>sch_st := run_executor r (sch_st (sc s))\<rparr>, th := Rt_woken\<rparr>"
  have "drive pop_heap s ?t" using Rt_exec by (intro drive_own own_execute)
  then show ?thesis by (intro exI [of _ ?t]) (auto simp: same_sleepers_def)
qed (use assms in \<open>auto simp: same_sleepers_def\<close>)

lemma to_checked:
  assumes "th s \<noteq> Rt_exit" and "th s \<noteq> Rt_wait" and "\<not> stop s"
  shows "\<exists>t. (drive pop_heap)\<^sup>*\<^sup>* s t \<and> th t = Rt_checked \<and> same_sleepers s t \<and> tm < clock t"
proof -
  have "\<exists>t. (drive pop_heap)\<^sup>*\<^sup>* s t \<and> th t = Rt_checked \<and> same_sleepers s t"
  proof (cases "th s = Rt_loop \<or> th s = Rt_checked")
    case True
    then show ?thesis
    proof
      assume "th s = Rt_loop"
      then have "drive pop_heap s (s\<lparr>th := Rt_checked\<rparr>)"
        using assms(3) by (intro drive_own own_stop_not_seen)
      then show ?thesis by (intro exI [of _ "s\<lparr>th := Rt_checked\<rparr>"]) (auto simp: same_sleepers_def)
    qed (auto simp: same_sleepers_def)
  next
    case False
    with to_woken [of s pop_heap] assms(1,2) obtain u
      where u: "(drive pop_heap)\<^sup>*\<^sup>* s u" "th u = Rt_woken" "same_sleepers s u" by blast
    from woken_to_checked [of u pop_heap] u assms(3)
    have "(drive pop_heap)\<^sup>*\<^sup>* s (u\<lparr>th := Rt_checked\<rparr>)" by (auto simp: same_sleepers_def)
    with u(3) show ?thesis by (intro exI [of _ "u\<lparr>th := Rt_checked\<rparr>"]) (auto simp: same_sleepers_def)
  qed
  then obtain t where t: "(drive pop_heap)\<^sup>*\<^sup>* s t" "th t = Rt_checked" "same_sleepers s t" by blast
  let ?t = "t\<lparr>clock := clock t + (\<bar>tm - clock t\<bar> + 1)\<rparr>"
  have "drive pop_heap t ?t" by (rule drive_tick) simp
  with t show ?thesis by (intro exI [of _ ?t]) (auto simp: same_sleepers_def intro: rtranclp.rtrancl_into_rtrancl)
qed

section \<open>Every sleeper can be run\<close>

context sleep_library
begin

text \<open>One turn of the loop runs the first sleeper.\<close>

lemma run_first:
  assumes inv: "sched_inv s" and "th s \<noteq> Rt_exit" and "th s \<noteq> Rt_wait" and "\<not> stop s"
    and ne: "sch_heap (sc s) \<noteq> []"
  shows "\<exists>t. (drive pop_heap)\<^sup>*\<^sup>* s t \<and> th t \<noteq> Rt_exit \<and> th t \<noteq> Rt_wait \<and> \<not> stop t
       \<and> ins t = ins s \<and> cancelled t = cancelled s \<and> length (sch_heap (sc t)) < length (sch_heap (sc s))"
proof -
  obtain tm where tm: "get_first_scheduled_time (sch_heap (sc s)) = Some tm"
    using ne by (cases "sch_heap (sc s)") (auto simp: get_first_scheduled_time_def)
  obtain u where u: "(drive pop_heap)\<^sup>*\<^sup>* s u" "th u = Rt_checked" "same_sleepers s u" "tm < clock u"
    using to_checked [OF assms(2-4)] by blast
  have heap: "is_heap (sch_heap (sc s))" using inv by (simp add: sched_inv_def sched_account_def)
  obtain r h where rem: "remove_first pop_heap (sch_heap (sc s)) = (r, h)" by fastforce
  then have turn: "run_turn pop_heap (clock u) (sch_heap (sc u)) = (Act_run r, h)"
    using tm u(3,4) by (simp add: run_turn_def same_sleepers_def)
  obtain i where "mset (sch_heap (sc s)) = add_mset \<lparr>timestamp = tm, res = r, ident = i\<rparr> (mset h)"
    using timer.take_first_items [OF heap tm rem] by blast
  then have "length h < length (sch_heap (sc s))" by (metis lessI size_add_mset size_mset)
  moreover define t where "t = u\<lparr>sc := (sc u)\<lparr>sch_heap := h\<rparr>, th := phase_of (Act_run r),
    fired := fired u @ fire_log (clock u) (sch_heap (sc u)) h (Act_run r)\<rparr>"
  moreover have "(drive pop_heap)\<^sup>*\<^sup>* s t"
    unfolding t_def using u(1) drive_own [OF own_decide [OF u(2) turn]] by (rule rtranclp.rtrancl_into_rtrancl)
  ultimately show ?thesis using u(3) assms(4) by (intro exI [of _ t]) (simp add: same_sleepers_def)
qed

lemma drain_from:
  assumes "sched_inv s" and "th s \<noteq> Rt_exit" and "th s \<noteq> Rt_wait" and "\<not> stop s"
  shows "\<exists>t. (drive pop_heap)\<^sup>*\<^sup>* s t \<and> sched_inv t \<and> sch_heap (sc t) = []
       \<and> ins t = ins s \<and> cancelled t = cancelled s"
  using assms
proof (induction "length (sch_heap (sc s))" arbitrary: s rule: less_induct)
  case less
  show ?case
  proof (cases "sch_heap (sc s) = []")
    case True
    with less.prems(1) show ?thesis by blast
  next
    case False
    from run_first [OF less.prems this] obtain u
      where u: "(drive pop_heap)\<^sup>*\<^sup>* s u" "th u \<noteq> Rt_exit" "th u \<noteq> Rt_wait" "\<not> stop u"
        "ins u = ins s" "cancelled u = cancelled s" "length (sch_heap (sc u)) < length (sch_heap (sc s))"
      by blast
    have "sched_inv u" using all_runs.steps_inv [OF drive_run_sched_run, OF u(1) less.prems(1)] .
    from less.hyps [OF u(7) this u(2-4)] obtain t
      where "(drive pop_heap)\<^sup>*\<^sup>* u t" "sched_inv t" "sch_heap (sc t) = []"
        "ins t = ins u" "cancelled t = cancelled u" by blast
    with u show ?thesis by (metis rtranclp_trans)
  qed
qed

end

text \<open>
  No sleeper is stuck.  From every state of a calm run in which no stop has been requested
  the thread can empty the heap: every result that went to sleep and was not taken out by a
  client has then been handed to the executor.
\<close>

lemma sleepers_can_all_run:
  assumes "std_heap push_heap pop_heap"
    and "reachable sched_init (sched_step push_heap pop_heap True) s" and "\<not> stop s"
  shows "\<exists>t. (drive pop_heap)\<^sup>*\<^sup>* s t \<and> sch_heap (sc t) = []
       \<and> mset (ins s) = mset (map (\<lambda>(t, c, r). r) (fired t)) + mset (cancelled s)"
proof -
  note lib = sleep_library_std_heap [OF assms(1)]
  have awake: "awake_inv s"
    by (rule step_invariant.reachable_inv [OF sleep_library.calm_runs_awake [OF lib] assms(2)])
  have no_exit: "th s \<noteq> Rt_exit"
    using exit_runs.reachable_inv [OF assms(2)] assms(3) by (simp add: exits_on_stop_def)
  have "\<exists>t. (drive pop_heap)\<^sup>*\<^sup>* s t \<and> sched_inv t \<and> sch_heap (sc t) = []
       \<and> ins t = ins s \<and> cancelled t = cancelled s"
  proof (cases "th s = Rt_wait")
    case True
    with awake have "sch_heap (sc s) = []" "sched_inv s" by (simp_all add: awake_inv_def)
    then show ?thesis by blast
  next
    case False
    with awake show ?thesis
      using sleep_library.drain_from [OF lib _ no_exit _ assms(3)] by (simp add: awake_inv_def)
  qed
  then show ?thesis by (auto simp: sched_inv_def sched_account_def)
qed

lemma sleepers_can_all_run_at_input:
  "\<exists>t. (drive sift_pop_heap)\<^sup>*\<^sup>* one_sleeper t \<and> sch_heap (sc t) = []
     \<and> {#Some 7#} = mset (map (\<lambda>(t, c, r). r) (fired t))"
  using sleepers_can_all_run [OF sift.std_heap_axioms one_sleeper_reachable]
  by (simp add: one_sleeper_def idle_sched_def)

section \<open>A stop request ends the thread\<close>

text \<open>How many steps of its own the scheduler has left once a stop was requested.\<close>

fun phase_rank :: "thread_phase \<Rightarrow> nat" where
  "phase_rank Rt_exit = 0"
| "phase_rank Rt_loop = 1"
| "phase_rank Rt_woken = 2"
| "phase_rank _ = 3"

definition stop_rank :: "sched_sys \<Rightarrow> nat" where
  "stop_rank s = phase_rank (th s) + of_bool (stop_note s)"

lemma stop_rank_le: "stop_rank s \<le> 4"
  by (cases "th s") (simp_all add: stop_rank_def)

lemma phase_rank_notify_all: "phase_rank (notify_all True p) \<le> phase_rank p"
  by (cases p) (simp_all add: notify_all_def)

lemma own_step_stop_rank:
  assumes "own_step pop_heap s t" and "stop s" and "th s \<noteq> Rt_checked"
  shows "stop_rank t < stop_rank s \<and> stop t \<and> fired t = fired s \<and> sch_heap (sc t) = sch_heap (sc s)"
  using assms
  by (elim own_stepE) (auto simp: stop_rank_def phase_rank_notify_all le_imp_less_Suc)

lemma own_step_enabled:
  assumes "awake_inv s" and "stop s" and "th s \<noteq> Rt_exit"
  shows "\<exists>t. own_step pop_heap s t"
  using assms by (cases "th s") (auto simp: awake_inv_def intro: own_step.intros)

lemma stop_ends_awake:
  assumes "std_heap push_heap pop_heap" and awake: "awake_inv s" and "stop s" and "(own_step pop_heap ^^ n) s t"
  shows "n \<le> 4 \<and> (th t = Rt_exit \<or> (\<exists>u. own_step pop_heap t u))
       \<and> fired t = fired s \<and> sch_heap (sc t) = sch_heap (sc s)"
proof -
  note calm = sleep_library.calm_runs_awake [OF sleep_library_std_heap [OF assms(1)]]
  have "n + stop_rank t \<le> stop_rank s \<and> stop t \<and> awake_inv t
      \<and> fired t = fired s \<and> sch_heap (sc t) = sch_heap (sc s)"
    using assms(4)
  proof (induction n arbitrary: t)
    case (Suc n)
    then obtain u where u: "(own_step pop_heap ^^ n) s u" "own_step pop_heap u t" by auto
    note IH = Suc.IH [OF u(1)]
    then have "th u \<noteq> Rt_checked" by (auto simp: awake_inv_def)
    from own_step_stop_rank [OF u(2) _ this] IH
      step_invariant.step_inv [OF calm _ own_step_sched_step [OF u(2)]]
    show ?case by simp
  qed (use assms(3) awake in simp)
  with stop_rank_le [of s] own_step_enabled [of t pop_heap] show ?thesis by auto
qed

text \<open>
  A stop request ends the thread.  In every state of a calm run with a stop request the
  scheduler makes at most four more steps of its own (running the sleeper it has already taken
  out, the notification, taking the mutex, testing the token); as long as the thread has not
  left its loop there is one more of them, whatever the heap holds, so it needs neither a
  client nor a spurious wake-up, and no further sleeper is run.
\<close>

lemma stop_ends:
  assumes "std_heap push_heap pop_heap"
    and "reachable sched_init (sched_step push_heap pop_heap True) s" and "stop s"
    and "(own_step pop_heap ^^ n) s t"
  shows "n \<le> 4 \<and> (th t = Rt_exit \<or> (\<exists>u. own_step pop_heap t u))
       \<and> fired t = fired s \<and> sch_heap (sc t) = sch_heap (sc s)"
  by (rule stop_ends_awake [OF assms(1) step_invariant.reachable_inv
        [OF sleep_library.calm_runs_awake [OF sleep_library_std_heap [OF assms(1)]] assms(2)] assms(3,4)])

text \<open>A thread that has left its loop takes no step but the pending notification.\<close>

lemma exit_is_final: "own_step pop_heap (s\<lparr>th := Rt_exit\<rparr>) t \<Longrightarrow> th t = Rt_exit \<and> stop_note s"
  by (auto simp: own_step_exit)

text \<open>A sleeper is in the heap, the thread waits for it, and a stop is requested.\<close>

definition stopped_sleeper :: sched_sys where
  "stopped_sleeper = one_sleeper\<lparr>stop := True, stop_note := True\<rparr>"

lemma stopped_sleeper_reachable:
  "reachable sched_init (sched_step sift_push_heap sift_pop_heap True) stopped_sleeper"
  unfolding stopped_sleeper_def
  by (rule reachable.next_step [OF one_sleeper_reachable], rule sched_step.request_stop)
    (simp_all add: one_sleeper_def idle_sched_def)

lemma stopped_sleeper_run:
  "(own_step sift_pop_heap ^^ 1) stopped_sleeper (stopped_sleeper\<lparr>th := Rt_loop\<rparr>)"
  unfolding relpowp_1 by (rule own_acquire) (simp add: stopped_sleeper_def one_sleeper_def idle_sched_def)

lemma stop_ends_at_input:
  "\<exists>u. own_step sift_pop_heap (stopped_sleeper\<lparr>th := Rt_loop\<rparr>) u"
  using stop_ends [OF sift.std_heap_axioms stopped_sleeper_reachable _ stopped_sleeper_run]
  by (simp add: stopped_sleeper_def)

end
