(* ===== verification/Sched_Await.thy ===== *)
theory Sched_Await
  imports Sched_Live Sync_Await
begin

text \<open>
  \<^verbatim>\<open>scheduler::await\<close> (\<^verbatim>\<open>coro_scheduler.h\<close>): the calling thread runs the scheduler's loop
  with the stop token of a frame on its stack, which the awaited operation resumes.  The frame
  and the loop as one system.
\<close>

record await_sys =
  aw_sched :: sched_sys
  aw_frame :: stop_source_coro_frame

text \<open>\<^verbatim>\<open>request_stop\<close> has an effect only once; it runs the callback registered on the token.\<close>

definition request_stop_on :: "sched_sys \<Rightarrow> sched_sys" where
  "request_stop_on u = (if stop u then u else u\<lparr>stop := True, stop_note := True\<rparr>)"

text \<open>
  The loop, its clients and the passing of time (nobody else has the token), and the resumption
  of the frame, as often as the awaited operation does it.  With \<open>calm\<close> the frame is not resumed
  between the loop's test of the token and its wait on the condition variable, a schedule that the
  code permits and in which the notification of the stop is lost; without it at any moment.
\<close>

inductive await_step ::
    "(sleep_heap \<Rightarrow> sleep_heap) \<Rightarrow> (sleep_heap \<Rightarrow> sleep_heap) \<Rightarrow> bool \<Rightarrow> await_sys \<Rightarrow> await_sys \<Rightarrow> bool"
  for push_heap pop_heap :: "sleep_heap \<Rightarrow> sleep_heap" and calm :: bool where
  await_loop:
    "sched_step push_heap pop_heap calm (aw_sched s) u \<Longrightarrow> stop u = stop (aw_sched s) \<Longrightarrow>
     await_step push_heap pop_heap calm s (s\<lparr>aw_sched := u\<rparr>)"
| await_resumed:
    "frame_resume stop_do_resume (aw_frame s) = Inr f \<Longrightarrow> (calm \<longrightarrow> th (aw_sched s) \<noteq> Rt_checked) \<Longrightarrow>
     await_step push_heap pop_heap calm s (s\<lparr>aw_sched := request_stop_on (aw_sched s), aw_frame := f\<rparr>)"

definition await_init :: "nat \<Rightarrow> await_sys \<Rightarrow> bool" where
  "await_init a s \<longleftrightarrow> sched_init (aw_sched s) \<and> aw_frame s = stop_frame_new a"

text \<open>The token is that of the frame.\<close>

definition await_inv ::
    "(sleep_heap \<Rightarrow> sleep_heap) \<Rightarrow> (sleep_heap \<Rightarrow> sleep_heap) \<Rightarrow> bool \<Rightarrow> await_sys \<Rightarrow> bool" where
  "await_inv push_heap pop_heap calm s \<longleftrightarrow>
     reachable sched_init (sched_step push_heap pop_heap calm) (aw_sched s)
     \<and> (stop (aw_sched s) \<longleftrightarrow> stop_requested (aw_frame s)) \<and> cf_resume (aw_frame s)"

lemma request_stop_on_reachable:
  assumes "reachable sched_init (sched_step push_heap pop_heap calm) u" and "calm \<longrightarrow> th u \<noteq> Rt_checked"
  shows "reachable sched_init (sched_step push_heap pop_heap calm) (request_stop_on u)"
proof (cases "stop u")
  case False
  then have "sched_step push_heap pop_heap calm u (u\<lparr>stop := True, stop_note := True\<rparr>)"
    using assms(2) by (intro sched_step.request_stop) simp_all
  with False reachable.next_step [OF assms(1)] show ?thesis by (simp add: request_stop_on_def)
qed (use assms(1) in \<open>simp add: request_stop_on_def\<close>)

interpretation await_runs: step_invariant "await_init a" "await_step push_heap pop_heap calm" "await_inv push_heap pop_heap calm"
  for a push_heap pop_heap calm
proof
  show "await_init a s \<Longrightarrow> await_inv push_heap pop_heap calm s" for s
    by (auto simp: await_init_def await_inv_def sched_init_def stop_frame_new_def intro: reachable.start)
  show "await_inv push_heap pop_heap calm t" if "await_inv push_heap pop_heap calm s" "await_step push_heap pop_heap calm s t" for s t
    using that(2,1)
  proof cases
    case (await_loop u)
    with that(1) show ?thesis by (auto simp: await_inv_def intro: reachable.next_step)
  next
    case (await_resumed f)
    with that(1) request_stop_on_reachable [of push_heap pop_heap calm "aw_sched s"] show ?thesis
      by (auto simp: await_inv_def frame_resume_def stop_do_resume_def request_stop_on_def)
  qed
qed

text \<open>
  C10: \<^verbatim>\<open>scheduler::await\<close> returns only when the awaited operation has resumed its frame:
  in every state of every schedule the loop has not been left unless the frame was resumed.  In
  the calm schedules it then does return: once the frame was resumed, by whichever thread and
  however often, the loop makes at most four more steps of its own, and until it is left there
  always is one more.  In the schedules that are not calm the resumption may fall between the
  loop's test of the token and its wait, where \<open>scheduler_loses_wakeups\<close> shows a thread that waits
  on.
\<close>

theorem scheduler_await_returns:
  assumes "std_heap push_heap pop_heap" and "reachable (await_init a) (await_step push_heap pop_heap calm) s"
  shows "(th (aw_sched s) = Rt_exit \<longrightarrow> stop_requested (aw_frame s))
       \<and> (calm \<and> stop_requested (aw_frame s) \<and> (own_step pop_heap ^^ n) (aw_sched s) u \<longrightarrow>
            n \<le> 4 \<and> (th u = Rt_exit \<or> (\<exists>v. own_step pop_heap u v)))"
proof -
  have inv: "await_inv push_heap pop_heap calm s" by (rule await_runs.reachable_inv [OF assms(2)])
  then have runs: "reachable sched_init (sched_step push_heap pop_heap calm) (aw_sched s)"
    and token: "stop (aw_sched s) \<longleftrightarrow> stop_requested (aw_frame s)" by (simp_all add: await_inv_def)
  have "stop (aw_sched s)" if "th (aw_sched s) = Rt_exit"
    using exit_runs.reachable_inv [OF runs] that by (simp add: exits_on_stop_def)
  moreover have "n \<le> 4 \<and> (th u = Rt_exit \<or> (\<exists>v. own_step pop_heap u v))"
    if "calm" "stop (aw_sched s)" "(own_step pop_heap ^^ n) (aw_sched s) u"
    using stop_ends [OF assms(1) _ that(2,3)] runs that(1) by simp
  ultimately show ?thesis using token by blast
qed

text \<open>
  The entry leads into this system: the frame is new, and a suspension that is refused, whose
  prepared coroutine is dropped, is its first resumption.
\<close>

lemma scheduler_await_enters:
  assumes "\<not> ready x" and "scheduler_await ready awt a x = (Some (f, es), x')" and "sched_init u"
  shows "reachable (await_init a) (await_step push_heap pop_heap calm) \<lparr>aw_sched = u, aw_frame = f\<rparr>
       \<and> (es = [Resume a] \<longrightarrow>
            (\<exists>f'. frame_events stop_do_resume f es = Inr f'
               \<and> reachable (await_init a) (await_step push_heap pop_heap calm)
                   \<lparr>aw_sched = request_stop_on u, aw_frame = f'\<rparr> \<and> stop (request_stop_on u)))"
proof -
  have f: "f = stop_frame_new a" using assms(1,2) by (auto simp: scheduler_await_def Let_def split: prod.splits)
  let ?s = "\<lparr>aw_sched = u, aw_frame = f\<rparr>" and ?f = "stop_do_resume f"
  have init: "reachable (await_init a) (await_step push_heap pop_heap calm) ?s"
    by (rule reachable.start) (simp add: await_init_def assms(3) f)
  have "await_step push_heap pop_heap calm ?s (?s\<lparr>aw_sched := request_stop_on (aw_sched ?s), aw_frame := ?f\<rparr>)"
    by (rule await_resumed) (use assms(3) f in \<open>simp_all add: frame_resume_def stop_frame_new_def sched_init_def\<close>)
  from reachable.next_step [OF init this] init show ?thesis
    by (simp add: f frame_resume_def stop_frame_new_def request_stop_on_def)
qed

definition awaiting_sys :: await_sys where
  "awaiting_sys = \<lparr>aw_sched = request_stop_on idle_sched, aw_frame = stop_do_resume (stop_frame_new 9)\<rparr>"

lemma awaiting_sys_reachable: "reachable (await_init 9) (await_step sift_push_heap sift_pop_heap True) awaiting_sys"
proof -
  let ?await = "scheduler_await (\<lambda>_. False) (Suspend_bool (\<lambda>_ s. (False, s))) 9 ()"
  have "?await = (Some (stop_frame_new 9, [Resume 9]), ())"
    by (simp add: scheduler_await_def get_handle_def stop_frame_new_def prepared_simps)
  moreover have "sched_init idle_sched" by (simp add: sched_init_def idle_sched_def)
  ultimately show ?thesis
    using scheduler_await_enters [of "\<lambda>_. False" "()" "Suspend_bool (\<lambda>_ s. (False, s))" 9
        "stop_frame_new 9" "[Resume 9]" "()" idle_sched sift_push_heap sift_pop_heap True]
    by (simp add: awaiting_sys_def frame_resume_def stop_frame_new_def)
qed

theorem scheduler_await_returns_witness:
  "\<exists>v. own_step sift_pop_heap (request_stop_on idle_sched) v"
  using scheduler_await_returns [OF sift.std_heap_axioms awaiting_sys_reachable, of 0 "request_stop_on idle_sched"]
  by (simp add: awaiting_sys_def request_stop_on_def idle_sched_def stop_do_resume_def)

end
