(* ===== verification/Sched_Sleepers.thy ===== *)
theory Sched_Sleepers
  imports Sched_Await Awaiters
begin

text \<open>
  Coroutines that sleep on the scheduler (\<^verbatim>\<open>coro_scheduler.h\<close> over the awaitables of
  \<^verbatim>\<open>coroutine.h\<close>): awaiting a sleep, the thread with the default executor, cancellation and
  alert as one system, up to the end of the thread and the destruction of the scheduler.
\<close>

section \<open>Awaiting a sleep\<close>

text \<open>
  \<^verbatim>\<open>co_await sch.sleep_until(tp, ident)\<close> in the coroutine with the handle \<open>h\<close>: an
  awaitable at \<open>p\<close> is built from the closure and its \<^verbatim>\<open>await_suspend\<close> calls the closure
  with a result for \<open>p\<close>.  The alertable closure may return a prepared coroutine, to which
  control is transferred.
\<close>

definition co_sleep_until ::
    "(sleep_heap \<Rightarrow> sleep_heap) \<Rightarrow> int \<Rightarrow> nat \<Rightarrow> nat \<Rightarrow> awt_ptr \<Rightarrow> coro_handle \<Rightarrow> scheduler \<Rightarrow> bool \<times> scheduler" where
  "co_sleep_until push_heap tp i cb p h s =
     (let st = set_owner p h (construct p (Callback cb) (sch_st s))
      in sleep_until push_heap tp i (Some p) (s\<lparr>sch_st := st\<rparr>))"

definition co_sleep_until_alertable ::
    "(sleep_heap \<Rightarrow> sleep_heap) \<Rightarrow> nat \<Rightarrow> int \<Rightarrow> nat \<Rightarrow> awt_ptr \<Rightarrow> coro_handle \<Rightarrow> scheduler \<Rightarrow> bool \<times> scheduler" where
  "co_sleep_until_alertable push_heap a tp cb p h s =
     (let st = set_owner p h (construct p (Callback cb) (sch_st s));
          (pc, n, s1) = sleep_until_alertable push_heap a tp (Some p) (s\<lparr>sch_st := st\<rparr>)
      in (n, s1\<lparr>sch_st := emit (handle_resume (fst (symmetric_transfer pc))) (sch_st s1)\<rparr>))"

text \<open>The prepared coroutine that \<^verbatim>\<open>cancel\<close> returns is dropped by the caller.\<close>

definition cancel_exception_drop :: "(sleep_heap \<Rightarrow> sleep_heap) \<Rightarrow> nat \<Rightarrow> exn \<Rightarrow> scheduler \<Rightarrow> scheduler" where
  "cancel_exception_drop pop_heap i e s =
     (let (pc, s1) = cancel_exception pop_heap i e s in s1\<lparr>sch_st := emit (prepared_dtor pc) (sch_st s1)\<rparr>)"

definition cancel_null_drop :: "(sleep_heap \<Rightarrow> sleep_heap) \<Rightarrow> nat \<Rightarrow> scheduler \<Rightarrow> scheduler" where
  "cancel_null_drop pop_heap i s =
     (let (pc, s1) = cancel_null pop_heap i s in s1\<lparr>sch_st := emit (prepared_dtor pc) (sch_st s1)\<rparr>)"

text \<open>
  What a client does with a result it has taken out of the scheduler: a sequence \<open>xs\<close> of uses,
  then its destructor.
\<close>

definition remove_first_use :: "(sleep_heap \<Rightarrow> sleep_heap) \<Rightarrow> unit result_op list \<Rightarrow> scheduler \<Rightarrow> scheduler" where
  "remove_first_use pop_heap xs s =
     (let (r, s1) = scheduler_remove_first pop_heap s in s1\<lparr>sch_st := result_life r xs (sch_st s1)\<rparr>)"

definition remove_by_ident_use ::
    "(sleep_heap \<Rightarrow> sleep_heap) \<Rightarrow> nat \<Rightarrow> unit result_op list \<Rightarrow> scheduler \<Rightarrow> scheduler" where
  "remove_by_ident_use pop_heap i xs s =
     (let (r, s1) = scheduler_remove_by_ident pop_heap i s in s1\<lparr>sch_st := result_life r xs (sch_st s1)\<rparr>)"

text \<open>
  The implicit destructor: the results still in the heap are destructed, in an order \<open>hs\<close> that
  the standard leaves open.
\<close>

fun results_dtor :: "sleep_heap \<Rightarrow> unit store \<Rightarrow> unit store" where
  "results_dtor [] st = st"
| "results_dtor (x # hs) st = results_dtor hs (result_dtor (res x) st)"

definition scheduler_dtor :: "sleep_heap \<Rightarrow> scheduler \<Rightarrow> unit store" where
  "scheduler_dtor hs s = results_dtor hs (sch_st s)"

text \<open>
  \<^verbatim>\<open>create_thread()\<close>: a new thread, not yet in possession of the mutex, with a stop token
  that nobody has signalled.  The logs start with what the heap holds.
\<close>

definition create_thread :: "scheduler \<Rightarrow> int \<Rightarrow> sched_sys" where
  "create_thread s now =
     \<lparr>sc = s, clock = now, th = Rt_woken, stop = False, stop_note = False,
      ins = map res (sch_heap s), due = map (\<lambda>x. (timestamp x, res x)) (sch_heap s), fired = [], cancelled = []\<rparr>"

lemma create_thread_awake: "is_heap (sch_heap s) \<Longrightarrow> awake_inv (create_thread s now)"
  by (simp add: create_thread_def awake_inv_def sched_inv_def sched_account_def)

lemma create_thread_init: "sch_heap s = [] \<Longrightarrow> sched_init (create_thread s now)"
  by (simp add: create_thread_def sched_init_def)

text \<open>The awaiting is that of \<^verbatim>\<open>await_suspend\<close>.\<close>

lemma co_sleep_until_suspends:
  assumes "co_sleep_until push_heap tp i cb p h s = (n, s')"
  shows "await_suspend (\<lambda>_ r st. (prepared_empty, sch_st (snd (sleep_until push_heap tp i r (s\<lparr>sch_st := st\<rparr>)))))
           p h (construct p (Callback cb) (sch_st s)) = Inr (Noop_coroutine, sch_st s')"
  using assms by (auto simp: co_sleep_until_def await_suspend_def sleep_until_def Let_def construct_def
      set_owner_def prepared_simps)

section \<open>The system\<close>

text \<open>
  \<open>slept\<close> logs the frame of every sleep that was awaited.  A result is in flight while it
  is in the heap or in the hands of the executor.
\<close>

record sleep_sys =
  base :: sched_sys
  slept :: "nat list"

fun taken_out :: "thread_phase \<Rightarrow> awaitable_result multiset" where
  "taken_out (Rt_exec r) = {#r#}"
| "taken_out _ = {#}"

definition in_flight :: "sched_sys \<Rightarrow> awaitable_result multiset" where
  "in_flight u = image_mset res (mset (sch_heap (sc u))) + taken_out (th u)"

text \<open>
  A coroutine awaits a sleep when it runs, so it has none in flight, and the awaitable is a new
  object in its frame, so no result in flight points at it.
\<close>

definition may_sleep :: "awt_ptr \<Rightarrow> nat \<Rightarrow> sched_sys \<Rightarrow> bool" where
  "may_sleep p f u \<longleftrightarrow>
     mutex_free_in (th u) \<and> Some p \<notin># in_flight u \<and> pending_of f (in_flight u) (sch_st (sc u)) = 0"

text \<open>What a cancellation takes out of the heap.\<close>

definition taken_by_ident :: "(sleep_heap \<Rightarrow> sleep_heap) \<Rightarrow> nat \<Rightarrow> sleep_heap \<Rightarrow> awaitable_result list" where
  "taken_by_ident pop_heap i h =
     (if \<exists>x \<in> set h. ident x = i then [fst (remove_by_ident pop_heap i h)] else [])"

inductive sleeper_step ::
    "(sleep_heap \<Rightarrow> sleep_heap) \<Rightarrow> (sleep_heap \<Rightarrow> sleep_heap) \<Rightarrow> bool \<Rightarrow> sleep_sys \<Rightarrow> sleep_sys \<Rightarrow> bool"
  for push_heap pop_heap :: "sleep_heap \<Rightarrow> sleep_heap" and calm :: bool where
  sl_drive: "drive pop_heap (base s) u \<Longrightarrow> sleeper_step push_heap pop_heap calm s (s\<lparr>base := u\<rparr>)"
| sl_spurious:
    "waiting (th (base s)) \<Longrightarrow> sleeper_step push_heap pop_heap calm s (s\<lparr>base := (base s)\<lparr>th := Rt_woken\<rparr>\<rparr>)"
| sl_sleep:
    "may_sleep p f (base s) \<Longrightarrow> co_sleep_until push_heap tp i cb p (Coro f) (sc (base s)) = (n, sc') \<Longrightarrow>
     sleeper_step push_heap pop_heap calm s
       (s\<lparr>base := (base s)\<lparr>sc := sc', th := notify_all n (th (base s)), ins := ins (base s) @ [Some p],
          due := due (base s) @ [(tp, Some p)]\<rparr>,
          slept := slept s @ [f]\<rparr>)"
| sl_sleep_alertable:
    "may_sleep p f (base s) \<Longrightarrow> \<not> sch_flags (sc (base s)) a \<Longrightarrow> calm \<longrightarrow> sch_heap (sc (base s)) \<noteq> [] \<Longrightarrow>
     co_sleep_until_alertable push_heap a tp cb p (Coro f) (sc (base s)) = (n, sc') \<Longrightarrow>
     sleeper_step push_heap pop_heap calm s
       (s\<lparr>base := (base s)\<lparr>sc := sc', th := notify_all n (th (base s)), ins := ins (base s) @ [Some p],
          due := due (base s) @ [(tp, Some p)]\<rparr>,
          slept := slept s @ [f]\<rparr>)"
| sl_alerted:
    "may_sleep p f (base s) \<Longrightarrow> sch_flags (sc (base s)) a \<Longrightarrow>
     co_sleep_until_alertable push_heap a tp cb p (Coro f) (sc (base s)) = (n, sc') \<Longrightarrow>
     sleeper_step push_heap pop_heap calm s
       (s\<lparr>base := (base s)\<lparr>sc := sc', th := notify_all n (th (base s))\<rparr>, slept := slept s @ [f]\<rparr>)"
| sl_cancel_exception:
    "mutex_free_in (th (base s)) \<Longrightarrow>
     sleeper_step push_heap pop_heap calm s
       (s\<lparr>base := (base s)\<lparr>sc := cancel_exception_drop pop_heap i e (sc (base s)),
          cancelled := cancelled (base s) @ taken_by_ident pop_heap i (sch_heap (sc (base s)))\<rparr>\<rparr>)"
| sl_cancel_null:
    "mutex_free_in (th (base s)) \<Longrightarrow>
     sleeper_step push_heap pop_heap calm s
       (s\<lparr>base := (base s)\<lparr>sc := cancel_null_drop pop_heap i (sc (base s)),
          cancelled := cancelled (base s) @ taken_by_ident pop_heap i (sch_heap (sc (base s)))\<rparr>\<rparr>)"
| sl_remove_first:
    "mutex_free_in (th (base s)) \<Longrightarrow> scheduler_first_time (sc (base s)) = Some t \<Longrightarrow>
     sleeper_step push_heap pop_heap calm s
       (s\<lparr>base := (base s)\<lparr>sc := remove_first_use pop_heap xs (sc (base s)),
          cancelled := cancelled (base s) @ [fst (remove_first pop_heap (sch_heap (sc (base s))))]\<rparr>\<rparr>)"
| sl_remove_by_ident:
    "mutex_free_in (th (base s)) \<Longrightarrow>
     sleeper_step push_heap pop_heap calm s
       (s\<lparr>base := (base s)\<lparr>sc := remove_by_ident_use pop_heap i xs (sc (base s)),
          cancelled := cancelled (base s) @ taken_by_ident pop_heap i (sch_heap (sc (base s)))\<rparr>\<rparr>)"
| sl_alert:
    "mutex_free_in (th (base s)) \<Longrightarrow> scheduler_alert a (clock (base s)) (sc (base s)) = (n, sc') \<Longrightarrow>
     sleeper_step push_heap pop_heap calm s
       (s\<lparr>base := (base s)\<lparr>sc := sc', th := notify_all n (th (base s)),
          due := due (base s) @ due_now a (clock (base s)) (sch_heap (sc (base s)))\<rparr>\<rparr>)"
| sl_request_stop:
    "calm \<longrightarrow> th (base s) \<noteq> Rt_checked \<Longrightarrow>
     sleeper_step push_heap pop_heap calm s (s\<lparr>base := request_stop_on (base s)\<rparr>)"

definition sleeper_init :: "sleep_sys \<Rightarrow> bool" where
  "sleeper_init s \<longleftrightarrow> sched_init (base s) \<and> slept s = [] \<and> trace (sch_st (sc (base s))) = []"

section \<open>What the store of awaitables keeps\<close>

lemma sleepers_executor:
  assumes "awaiters unresolved (add_mset r F) L st"
  shows "awaiters unresolved F L (run_executor r st)"
proof -
  obtain pc r' st' where call: "result_step r (R_call (Inr ())) st = (pc, r', st')" by (cases "result_step r (R_call (Inr ())) st")
  from unset.result_step_ends [OF assms call] call show ?thesis
    by (simp add: run_executor_def result_dtor_def)
qed

lemma sleepers_results_dtor:
  "awaiters unresolved (image_mset res (mset hs) + F) L st \<Longrightarrow> awaiters unresolved F L (results_dtor hs st)"
  by (induction hs arbitrary: st) (simp_all add: unset.dtor_ends)

text \<open>A removal by identity takes out nothing or one result in flight.\<close>

context sleep_library
begin

lemma removed_in_flight:
  assumes "is_heap h" and "remove_by_ident pop_heap i h = (r, h')"
  shows "r = None \<and> h' = h \<or> image_mset res (mset h) = add_mset r (image_mset res (mset h'))"
proof (cases "\<exists>x \<in> set h. ident x = i")
  case True
  with conjunct2 [OF heap_remove_by_ident [OF assms]]
  obtain x where "r = res x" "mset h = add_mset x (mset h')" unfolding if_P [OF True] by blast
  then show ?thesis by simp
next
  case False
  then show ?thesis using conjunct2 [OF heap_remove_by_ident [OF assms]] by simp
qed

lemma cancel_op_store:
  assumes "is_heap h" and "remove_by_ident pop_heap i h = (r, h')"
    and "awaiters unresolved (image_mset res (mset h) + T) L st" and "result_step r x st = (pc, r', st')"
  shows "awaiters unresolved (image_mset res (mset h') + T) L (emit (prepared_dtor pc) (result_dtor r' st'))"
  using removed_in_flight [OF assms(1,2)]
proof
  assume "r = None \<and> h' = h"
  with assms(3,4) show ?thesis by (auto simp: result_step_used result_dtor_def prepared_simps)
next
  assume "image_mset res (mset h) = add_mset r (image_mset res (mset h'))"
  with unset.result_step_ends [OF _ assms(4), of "image_mset res (mset h') + T" L] assms(3)
  show ?thesis by (simp add: result_dtor_def)
qed

lemma remove_use_store:
  assumes "is_heap (sch_heap s)" and "awaiters unresolved (image_mset res (mset (sch_heap s)) + T) L (sch_st s)"
  shows "scheduler_first_time s = Some tm \<Longrightarrow> s' = remove_first_use pop_heap xs s \<Longrightarrow>
         awaiters unresolved (image_mset res (mset (sch_heap s')) + T) L (sch_st s')"
    and "s' = remove_by_ident_use pop_heap i xs s \<Longrightarrow>
         awaiters unresolved (image_mset res (mset (sch_heap s')) + T) L (sch_st s')"
proof -
  show "awaiters unresolved (image_mset res (mset (sch_heap s')) + T) L (sch_st s')"
    if "scheduler_first_time s = Some tm" "s' = remove_first_use pop_heap xs s"
  proof -
    obtain r h' where rem: "remove_first pop_heap (sch_heap s) = (r, h')" by fastforce
    note items = timer.take_first_items [OF assms(1) that(1) [unfolded scheduler_first_time_def] rem]
    then obtain j where "mset (sch_heap s) = add_mset \<lparr>timestamp = tm, res = r, ident = j\<rparr> (mset h')" by blast
    with assms(2) unset.life_ends [of r "image_mset res (mset h') + T" L "sch_st s" xs] that(2) rem show ?thesis
      by (simp add: remove_first_use_def scheduler_remove_first_def)
  qed
  show "awaiters unresolved (image_mset res (mset (sch_heap s')) + T) L (sch_st s')"
    if "s' = remove_by_ident_use pop_heap i xs s"
  proof -
    obtain r h' where rem: "remove_by_ident pop_heap i (sch_heap s) = (r, h')" by fastforce
    from removed_in_flight [OF assms(1) this] assms(2) that rem
      unset.life_ends [of r "image_mset res (mset h') + T" L "sch_st s" xs] show ?thesis
      by (auto simp: remove_by_ident_use_def scheduler_remove_by_ident_def result_life_used)
  qed
qed

lemma cancel_drop_store:
  assumes "is_heap (sch_heap s)" and "awaiters unresolved (image_mset res (mset (sch_heap s)) + T) L (sch_st s)"
    and "s' = cancel_exception_drop pop_heap i e s \<or> s' = cancel_null_drop pop_heap i s"
  shows "awaiters unresolved (image_mset res (mset (sch_heap s')) + T) L (sch_st s')"
proof -
  obtain r h' where rem: "remove_by_ident pop_heap i (sch_heap s) = (r, h')" by fastforce
  obtain pc r' st' where e: "result_step r (R_assign_exception e) (sch_st s) = (pc, r', st')"
    by (cases "result_step r (R_assign_exception e) (sch_st s)")
  obtain pc2 r2 st2 where n: "result_step r R_assign_nullopt (sch_st s) = (pc2, r2, st2)"
    by (cases "result_step r R_assign_nullopt (sch_st s)")
  show ?thesis
    using assms(3) rem e n cancel_op_store [OF assms(1) rem assms(2) e] cancel_op_store [OF assms(1) rem assms(2) n]
    by (auto simp: cancel_exception_drop_def cancel_null_drop_def cancel_exception_def cancel_null_def
        scheduler_remove_by_ident_def)
qed

end

section \<open>The scheduler underneath\<close>

text \<open>
  A step of the system is a step of the scheduler between two changes of the awaitables, so what
  the scheduler keeps without regard to them is kept here.
\<close>

definition with_store :: "unit store \<Rightarrow> sched_sys \<Rightarrow> sched_sys" where
  "with_store st u = u\<lparr>sc := (sc u)\<lparr>sch_st := st\<rparr>\<rparr>"

lemma with_store_simps [simp]:
  "sch_heap (sc (with_store st u)) = sch_heap (sc u)" "sch_flags (sc (with_store st u)) = sch_flags (sc u)"
  "sch_st (sc (with_store st u)) = st" "th (with_store st u) = th u" "stop (with_store st u) = stop u"
  "stop_note (with_store st u) = stop_note u" "clock (with_store st u) = clock u" "ins (with_store st u) = ins u"
  "due (with_store st u) = due u" "fired (with_store st u) = fired u" "cancelled (with_store st u) = cancelled u"
  by (simp_all add: with_store_def)

lemma with_store_own [simp]: "with_store (sch_st (sc u)) u = u"
  by (simp add: with_store_def)

lemma with_store_invs [simp]:
  "sched_inv (with_store st u) = sched_inv u" "awake_inv (with_store st u) = awake_inv u"
  "exits_on_stop (with_store st u) = exits_on_stop u" "in_flight (with_store st u) = in_flight u"
  by (simp_all add: sched_inv_def sched_account_def awake_inv_def exits_on_stop_def in_flight_def)

lemma sched_step_with_store:
  assumes "sched_step push_heap pop_heap calm (with_store st u) v" and "u' = with_store st' v"
  shows "\<exists>st st' v. sched_step push_heap pop_heap calm (with_store st u) v \<and> u' = with_store st' v"
  using assms by blast

lemma co_sleep_sched:
  assumes "may_sleep p f u" and "co_sleep_until push_heap tp i cb p (Coro f) (sc u) = (n, sc')"
  shows "\<exists>st st' v. sched_step push_heap pop_heap calm (with_store st u) v
       \<and> u\<lparr>sc := sc', th := notify_all n (th u), ins := ins u @ [Some p], due := due u @ [(tp, Some p)]\<rparr> = with_store st' v"
proof (rule sched_step_with_store)
  let ?u = "with_store (set_owner p (Coro f) (construct p (Callback cb) (sch_st (sc u)))) u"
  show "sched_step push_heap pop_heap calm ?u (?u\<lparr>sc := sc', th := notify_all n (th ?u), ins := ins ?u @ [Some p], due := due ?u @ [(tp, Some p)]\<rparr>)"
    using assms
    by (intro sched_step.sleep [where tp = tp and i = i])
      (simp_all add: may_sleep_def co_sleep_until_def with_store_def)
  show "u\<lparr>sc := sc', th := notify_all n (th u), ins := ins u @ [Some p], due := due u @ [(tp, Some p)]\<rparr>
      = with_store (sch_st sc') (?u\<lparr>sc := sc', th := notify_all n (th ?u), ins := ins ?u @ [Some p], due := due ?u @ [(tp, Some p)]\<rparr>)"
    by (simp add: with_store_def)
qed

lemma co_sleep_alertable_sched:
  assumes "may_sleep p f u" and "co_sleep_until_alertable push_heap a tp cb p (Coro f) (sc u) = (n, sc')"
  shows "\<not> sch_flags (sc u) a \<Longrightarrow> calm \<longrightarrow> sch_heap (sc u) \<noteq> [] \<Longrightarrow>
      \<exists>st st' v. sched_step push_heap pop_heap calm (with_store st u) v
       \<and> u\<lparr>sc := sc', th := notify_all n (th u), ins := ins u @ [Some p], due := due u @ [(tp, Some p)]\<rparr> = with_store st' v"
    and "sch_flags (sc u) a \<Longrightarrow>
      \<exists>st st' v. sched_step push_heap pop_heap calm (with_store st u) v
       \<and> u\<lparr>sc := sc', th := notify_all n (th u)\<rparr> = with_store st' v"
proof -
  let ?u = "with_store (set_owner p (Coro f) (construct p (Callback cb) (sch_st (sc u)))) u"
  obtain pc s1 where al: "sleep_until_alertable push_heap a tp (Some p) (sc ?u) = (pc, n, s1)"
    and sc': "sc' = s1\<lparr>sch_st := emit (handle_resume (fst (symmetric_transfer pc))) (sch_st s1)\<rparr>"
    using assms(2) by (auto simp: co_sleep_until_alertable_def with_store_def split: prod.splits)
  let ?v = "?u\<lparr>sc := s1, th := notify_all n (th ?u)\<rparr>"
  show "\<exists>st st' v. sched_step push_heap pop_heap calm (with_store st u) v
      \<and> u\<lparr>sc := sc', th := notify_all n (th u), ins := ins u @ [Some p], due := due u @ [(tp, Some p)]\<rparr> = with_store st' v"
    if "\<not> sch_flags (sc u) a" "calm \<longrightarrow> sch_heap (sc u) \<noteq> []"
  proof (rule sched_step_with_store)
    show "sched_step push_heap pop_heap calm ?u (?v\<lparr>ins := ins ?u @ [Some p], due := due ?u @ [(tp, Some p)]\<rparr>)"
      using assms(1) that al by (intro sched_step.sleep_alertable) (simp_all add: may_sleep_def)
    show "u\<lparr>sc := sc', th := notify_all n (th u), ins := ins u @ [Some p], due := due u @ [(tp, Some p)]\<rparr>
        = with_store (sch_st sc') (?v\<lparr>ins := ins ?u @ [Some p], due := due ?u @ [(tp, Some p)]\<rparr>)"
      by (simp add: with_store_def sc')
  qed
  show "\<exists>st st' v. sched_step push_heap pop_heap calm (with_store st u) v
      \<and> u\<lparr>sc := sc', th := notify_all n (th u)\<rparr> = with_store st' v" if "sch_flags (sc u) a"
  proof (rule sched_step_with_store)
    show "sched_step push_heap pop_heap calm ?u ?v"
      using assms(1) that al by (intro sched_step.alerted) (simp_all add: may_sleep_def)
    show "u\<lparr>sc := sc', th := notify_all n (th u)\<rparr> = with_store (sch_st sc') ?v"
      by (simp add: with_store_def sc')
  qed
qed

lemma sleeper_step_sched:
  assumes "sleeper_step push_heap pop_heap calm s t"
  shows "base t = base s
       \<or> (\<exists>st st' v. sched_step push_heap pop_heap calm (with_store st (base s)) v \<and> base t = with_store st' v)"
  using assms
proof cases
  case (sl_drive u)
  then have step: "sched_step push_heap pop_heap calm (with_store (sch_st (sc (base s))) (base s)) u"
    by (simp add: drive_sched_step)
  show ?thesis
    by (intro disjI2 sched_step_with_store [OF step, where st' = "sch_st (sc u)"]) (simp add: sl_drive(1))
next
  case sl_spurious
  then have step: "sched_step push_heap pop_heap calm (with_store (sch_st (sc (base s))) (base s)) (base t)"
    by (auto intro: sched_step.spurious)
  show ?thesis by (intro disjI2 sched_step_with_store [OF step, where st' = "sch_st (sc (base t))"]) simp
next
  case (sl_sleep p f tp i cb n sc')
  from co_sleep_sched [OF sl_sleep(2,3)] show ?thesis by (auto simp: sl_sleep(1))
next
  case (sl_sleep_alertable p f a tp cb n sc')
  from co_sleep_alertable_sched(1) [OF sl_sleep_alertable(2,5,3,4)] show ?thesis by (auto simp: sl_sleep_alertable(1))
next
  case (sl_alerted p f a tp cb n sc')
  from co_sleep_alertable_sched(2) [OF sl_alerted(2,4,3)] show ?thesis by (auto simp: sl_alerted(1))
next
  case (sl_cancel_exception i e)
  obtain pc sc' where c: "cancel_exception pop_heap i e (sc (base s)) = (pc, sc')" by fastforce
  have step: "sched_step push_heap pop_heap calm (with_store (sch_st (sc (base s))) (base s))
      ((base s)\<lparr>sc := sc', cancelled := cancelled (base s) @ taken_by_ident pop_heap i (sch_heap (sc (base s)))\<rparr>)"
    using sched_step.do_cancel_exception [OF sl_cancel_exception(2) c] by (simp add: taken_by_ident_def)
  show ?thesis
    by (intro disjI2 sched_step_with_store [OF step, where st' = "emit (prepared_dtor pc) (sch_st sc')"])
      (simp add: sl_cancel_exception(1) with_store_def cancel_exception_drop_def c)
next
  case (sl_cancel_null i)
  obtain pc sc' where c: "cancel_null pop_heap i (sc (base s)) = (pc, sc')" by fastforce
  have step: "sched_step push_heap pop_heap calm (with_store (sch_st (sc (base s))) (base s))
      ((base s)\<lparr>sc := sc', cancelled := cancelled (base s) @ taken_by_ident pop_heap i (sch_heap (sc (base s)))\<rparr>)"
    using sched_step.do_cancel_null [OF sl_cancel_null(2) c] by (simp add: taken_by_ident_def)
  show ?thesis
    by (intro disjI2 sched_step_with_store [OF step, where st' = "emit (prepared_dtor pc) (sch_st sc')"])
      (simp add: sl_cancel_null(1) with_store_def cancel_null_drop_def c)
next
  case (sl_remove_first tm xs)
  obtain r sc' where c: "scheduler_remove_first pop_heap (sc (base s)) = (r, sc')" by fastforce
  have step: "sched_step push_heap pop_heap calm (with_store (sch_st (sc (base s))) (base s))
      ((base s)\<lparr>sc := sc', cancelled := cancelled (base s) @ [r]\<rparr>)"
    using sched_step.do_remove_first [OF sl_remove_first(2,3) c] by simp
  have "fst (remove_first pop_heap (sch_heap (sc (base s)))) = r" using scheduler_remove_heap(1) [OF c] by simp
  then show ?thesis
    by (intro disjI2 sched_step_with_store [OF step, where st' = "result_life r xs (sch_st sc')"])
      (simp add: sl_remove_first(1) with_store_def remove_first_use_def c)
next
  case (sl_remove_by_ident i xs)
  obtain r sc' where c: "scheduler_remove_by_ident pop_heap i (sc (base s)) = (r, sc')" by fastforce
  have taken: "taken_by_ident pop_heap i (sch_heap (sc (base s)))
      = (if \<exists>x \<in> set (sch_heap (sc (base s))). ident x = i then [r] else [])"
    using scheduler_remove_heap(2) [OF c] by (simp add: taken_by_ident_def)
  have step: "sched_step push_heap pop_heap calm (with_store (sch_st (sc (base s))) (base s))
      ((base s)\<lparr>sc := sc', cancelled := cancelled (base s) @ taken_by_ident pop_heap i (sch_heap (sc (base s)))\<rparr>)"
    using sched_step.do_remove_by_ident [OF sl_remove_by_ident(2) c] unfolding taken with_store_own .
  show ?thesis
    by (intro disjI2 sched_step_with_store [OF step, where st' = "result_life r xs (sch_st sc')"])
      (simp add: sl_remove_by_ident(1) with_store_def remove_by_ident_use_def c)
next
  case (sl_alert a n sc')
  have step: "sched_step push_heap pop_heap calm (with_store (sch_st (sc (base s))) (base s)) (base t)"
    using sched_step.do_alert [OF sl_alert(2,3)] by (simp add: sl_alert(1))
  show ?thesis by (intro disjI2 sched_step_with_store [OF step, where st' = "sch_st (sc (base t))"]) simp
next
  case sl_request_stop
  show ?thesis
  proof (cases "stop (base s)")
    case False
    then have step: "sched_step push_heap pop_heap calm (with_store (sch_st (sc (base s))) (base s)) (base t)"
      using sched_step.request_stop [of "base s"] sl_request_stop by (simp add: request_stop_on_def)
    show ?thesis by (intro disjI2 sched_step_with_store [OF step, where st' = "sch_st (sc (base t))"]) simp
  qed (simp add: sl_request_stop(1) request_stop_on_def)
qed

section \<open>The invariant over all runs\<close>

definition sleepers_inv :: "sleep_sys \<Rightarrow> bool" where
  "sleepers_inv s \<longleftrightarrow>
     sched_inv (base s) \<and> awaiters unresolved (in_flight (base s)) (slept s) (sch_st (sc (base s)))"

lemma taken_out_notify [simp]: "taken_out (notify_all n p) = taken_out p"
  by (cases p) (simp_all add: notify_all_def)

lemma taken_out_waiting [simp]: "waiting p \<Longrightarrow> taken_out p = {#}"
  by (cases p) simp_all

lemma request_stop_on_simps [simp]:
  "sc (request_stop_on u) = sc u" "th (request_stop_on u) = th u" "clock (request_stop_on u) = clock u"
  by (simp_all add: request_stop_on_def)

context sleep_library
begin

lemma turn_in_flight:
  assumes "is_heap h" and "run_turn pop_heap now h = (act, h')"
  shows "image_mset res (mset h') + taken_out (phase_of act) = image_mset res (mset h)"
proof (cases act)
  case (Act_run r)
  with assms(2) obtain tm where tm: "get_first_scheduled_time h = Some tm" and rem: "remove_first pop_heap h = (r, h')"
    by (auto simp: run_turn_def split: option.splits if_splits prod.splits)
  obtain i where "mset h = add_mset \<lparr>timestamp = tm, res = r, ident = i\<rparr> (mset h')"
    using timer.take_first_items [OF assms(1) tm rem] by blast
  with Act_run show ?thesis by simp
qed (use assms(2) in \<open>auto simp: run_turn_def split: option.splits if_splits prod.splits\<close>)

lemma drive_store:
  assumes "drive pop_heap u v" and "is_heap (sch_heap (sc u))" and "awaiters unresolved (in_flight u) L (sch_st (sc u))"
  shows "awaiters unresolved (in_flight v) L (sch_st (sc v))"
  using assms(1)
proof cases
  case drive_own
  from drive_own assms(3) show ?thesis
  proof cases
    case (own_decide act h)
    with assms(3) turn_in_flight [OF assms(2) own_decide(3)] show ?thesis by (simp add: in_flight_def)
  next
    case (own_execute r)
    with assms(3) show ?thesis by (simp add: in_flight_def sleepers_executor)
  qed (simp_all add: in_flight_def)
qed (use assms(3) in \<open>simp add: in_flight_def\<close>)

lemma scheduled_in_flight:
  assumes "is_heap h"
  shows "image_mset res (mset (schedule_at push_heap r tp i h)) = add_mset r (image_mset res (mset h))"
  using timer.add_items [OF assms, of r tp i] by simp

lemma co_sleep_store:
  assumes "may_sleep p f u" and "is_heap (sch_heap (sc u))" and "awaiters unresolved (in_flight u) L (sch_st (sc u))"
    and "co_sleep_until push_heap tp i cb p (Coro f) (sc u) = (n, sc')"
  shows "awaiters unresolved (image_mset res (mset (sch_heap sc')) + taken_out (th u)) (L @ [f]) (sch_st sc')"
proof -
  have "sch_heap sc' = schedule_at push_heap (Some p) tp i (sch_heap (sc u))"
    and "sch_st sc' = set_owner p (Coro f) (construct p (Callback cb) (sch_st (sc u)))"
    using assms(4) by (auto simp: co_sleep_until_def sleep_until_def Let_def)
  with unset.await_begins [OF assms(3), where x = "Callback cb"] assms(1) scheduled_in_flight [OF assms(2)] show ?thesis
    by (simp add: may_sleep_def in_flight_def)
qed

lemma co_sleep_alertable_store:
  assumes "may_sleep p f u" and "is_heap (sch_heap (sc u))" and "awaiters unresolved (in_flight u) L (sch_st (sc u))"
    and "co_sleep_until_alertable push_heap a tp cb p (Coro f) (sc u) = (n, sc')"
  shows "awaiters unresolved (image_mset res (mset (sch_heap sc')) + taken_out (th u)) (L @ [f]) (sch_st sc')"
proof -
  let ?st = "set_owner p (Coro f) (construct p (Callback cb) (sch_st (sc u)))"
  have new: "awaiters unresolved (add_mset (Some p) (in_flight u)) (L @ [f]) ?st"
    using unset.await_begins [OF assms(3), where x = "Callback cb"] assms(1) by (simp add: may_sleep_def)
  show ?thesis
  proof (cases "sch_flags (sc u) a")
    case True
    obtain pc r' st' where call: "result_step (Some p) (R_call (Inr ())) ?st = (pc, r', st')"
      by (cases "result_step (Some p) (R_call (Inr ())) ?st")
    from True assms(4) call unset.result_step_ends [OF new call] show ?thesis
      by (auto simp: co_sleep_until_alertable_def sleep_until_alertable_def Let_def result_dtor_def in_flight_def)
  next
    case False
    with assms(4) new scheduled_in_flight [OF assms(2)] show ?thesis
      by (auto simp: co_sleep_until_alertable_def sleep_until_alertable_def Let_def prepared_simps in_flight_def)
  qed
qed

lemma sleeper_step_inv:
  assumes inv: "sleepers_inv s" and step: "sleeper_step push_heap pop_heap calm s t"
  shows "sleepers_inv t"
proof -
  from inv have sched: "sched_inv (base s)" and st: "awaiters unresolved (in_flight (base s)) (slept s) (sch_st (sc (base s)))"
    by (simp_all add: sleepers_inv_def)
  have heap: "is_heap (sch_heap (sc (base s)))" using sched by (simp add: sched_inv_def sched_account_def)
  have "sched_inv (base t)"
    using sleeper_step_sched [OF step] sched sched_step_inv by (metis with_store_invs(1))
  moreover have "awaiters unresolved (in_flight (base t)) (slept t) (sch_st (sc (base t)))"
    using step
  proof cases
    case (sl_drive u)
    then show ?thesis using drive_store [OF _ heap st] by simp
  next
    case (sl_sleep p f tp i cb n sc')
    then show ?thesis using co_sleep_store [OF _ heap st] by (simp add: in_flight_def)
  next
    case (sl_sleep_alertable p f a tp cb n sc')
    then show ?thesis using co_sleep_alertable_store [OF _ heap st] by (simp add: in_flight_def)
  next
    case (sl_alerted p f a tp cb n sc')
    then show ?thesis using co_sleep_alertable_store [OF _ heap st] by (simp add: in_flight_def)
  next
    case (sl_cancel_exception i e)
    then show ?thesis using cancel_drop_store [OF heap st [unfolded in_flight_def] disjI1 [OF refl]] by (simp add: in_flight_def)
  next
    case (sl_cancel_null i)
    then show ?thesis using cancel_drop_store [OF heap st [unfolded in_flight_def] disjI2 [OF refl]] by (simp add: in_flight_def)
  next
    case (sl_remove_first tm xs)
    then show ?thesis using remove_use_store(1) [OF heap st [unfolded in_flight_def] _ refl] by (simp add: in_flight_def)
  next
    case (sl_remove_by_ident i xs)
    then show ?thesis using remove_use_store(2) [OF heap st [unfolded in_flight_def] refl] by (simp add: in_flight_def)
  next
    case (sl_alert a n sc')
    then show ?thesis using st set_time_account(2) [OF heap, where a = a and tp = "clock (base s)"]
      by (auto simp: in_flight_def scheduler_alert_def)
  qed (use st in \<open>simp_all add: in_flight_def\<close>)
  ultimately show ?thesis by (simp add: sleepers_inv_def)
qed

end

sublocale sleep_library \<subseteq> sleeper_runs: step_invariant sleeper_init "sleeper_step push_heap pop_heap calm" sleepers_inv
  for calm
proof
  show "sleeper_init s \<Longrightarrow> sleepers_inv s" for s
    using all_runs.init_inv [of "base s"]
    by (simp add: sleeper_init_def sleepers_inv_def sched_init_def in_flight_def awaiters_def pending_of_def)
qed (rule sleeper_step_inv)

text \<open>A calm run keeps what the thread needs to make progress.\<close>

definition calm_inv :: "sleep_sys \<Rightarrow> bool" where
  "calm_inv s \<longleftrightarrow> sleepers_inv s \<and> awake_inv (base s) \<and> exits_on_stop (base s)"

sublocale sleep_library \<subseteq> calm_sleepers: step_invariant sleeper_init "sleeper_step push_heap pop_heap True" calm_inv
proof
  show "sleeper_init s \<Longrightarrow> calm_inv s" for s
    using sleeper_runs.init_inv [of s] calm_runs.init_inv [of "base s"]
    by (simp add: calm_inv_def sleeper_init_def sched_init_def exits_on_stop_def)
  show "calm_inv t" if "calm_inv s" "sleeper_step push_heap pop_heap True s t" for s t
  proof -
    have "awake_inv (base t) \<and> exits_on_stop (base t)"
      using sleeper_step_sched [OF that(2)] that(1)
      by (metis calm_inv_def calm_step_awake exits_on_stop_step with_store_invs(2,3))
    with that sleeper_step_inv show ?thesis by (auto simp: calm_inv_def)
  qed
qed

context sleep_library
begin

lemmas sleeper_runs_inv = sleeper_runs.step_invariant_axioms and calm_sleepers_inv = calm_sleepers.step_invariant_axioms

end

section \<open>Every sleep ends in one resumption\<close>

text \<open>
  C4: a coroutine that sleeps on the scheduler is resumed exactly once for each of its sleeps.  In
  every state of every run of a scheduler with its default executor, in whatever order the thread
  and the clients act (they sleep, cancel, alert, request a stop, remove entries and use the results
  they get from that at once), the number of times a coroutine was resumed and the number of its sleeps in flight add up to the
  number of sleeps it has awaited, and it has at most one in flight; its awaitable is then
  unresolved and still belongs to a coroutine.
\<close>

theorem sleepers_resumed_once:
  assumes "std_heap push_heap pop_heap" and "reachable sleeper_init (sleeper_step push_heap pop_heap calm) s"
  shows "count_list (trace (sch_st (sc (base s)))) (Resume f) + pending_of f (in_flight (base s)) (sch_st (sc (base s)))
           = count_list (slept s) f
       \<and> pending_of f (in_flight (base s)) (sch_st (sc (base s))) \<le> 1
       \<and> (r \<in># in_flight (base s) \<longrightarrow> awaits unresolved (sch_st (sc (base s))) r)"
proof -
  have "sleepers_inv s"
    by (rule step_invariant.reachable_inv
        [OF sleep_library.sleeper_runs_inv [OF sleep_library_std_heap [OF assms(1)]] assms(2)])
  from awaitersD [OF conjunct2 [OF this [unfolded sleepers_inv_def]]] show ?thesis by blast
qed

text \<open>The coroutine 7 has awaited a sleep until 3 on a new scheduler.\<close>

definition empty_scheduler :: scheduler where
  "empty_scheduler =
     \<lparr>sch_heap = [], sch_flags = (\<lambda>_. False),
      sch_st = \<lparr>awts = (\<lambda>_. \<lparr>a_state = No_value, a_owner = Null_handle\<rparr>), frames = [], cur_exn = None, trace = []\<rparr>\<rparr>"

definition start_sleepers :: sleep_sys where
  "start_sleepers = \<lparr>base = create_thread empty_scheduler 0, slept = []\<rparr>"

definition seven_sleeps :: sleep_sys where
  "seven_sleeps =
     start_sleepers\<lparr>base := (base start_sleepers)
        \<lparr>sc := snd (co_sleep_until sift_push_heap 3 0 5 1 (Coro 7) empty_scheduler), ins := [Some 1], due := [(3, Some 1)]\<rparr>,
      slept := [7]\<rparr>"

lemma seven_sleeps_reachable:
  "reachable sleeper_init (sleeper_step sift_push_heap sift_pop_heap calm) seven_sleeps"
proof (rule reachable.next_step)
  show "reachable sleeper_init (sleeper_step sift_push_heap sift_pop_heap calm) start_sleepers"
    by (rule reachable.start)
      (simp add: sleeper_init_def start_sleepers_def create_thread_init empty_scheduler_def, simp add: create_thread_def)
  have "may_sleep 1 7 (base start_sleepers)"
    by (simp add: may_sleep_def start_sleepers_def create_thread_def mutex_free_in_def in_flight_def pending_of_def
        empty_scheduler_def)
  from sl_sleep [OF this, of sift_push_heap 3 0 5 True]
  show "sleeper_step sift_push_heap sift_pop_heap calm start_sleepers seven_sleeps"
    by (simp add: seven_sleeps_def start_sleepers_def create_thread_def co_sleep_until_def sleep_until_def
        get_first_scheduled_time_def empty_scheduler_def notify_all_def)
qed

theorem sleepers_resumed_once_witness:
  "count_list (trace (sch_st (sc (base seven_sleeps)))) (Resume 7)
     + pending_of 7 (in_flight (base seven_sleeps)) (sch_st (sc (base seven_sleeps))) = 1"
  using sleepers_resumed_once [OF sift.std_heap_axioms seven_sleeps_reachable, of 7]
  by (simp add: seven_sleeps_def)

lemma drive_runs_sleepers:
  "(drive pop_heap)\<^sup>*\<^sup>* (base s) u \<Longrightarrow> (sleeper_step push_heap pop_heap calm)\<^sup>*\<^sup>* s (s\<lparr>base := u\<rparr>)"
proof (induction rule: rtranclp_induct)
  case (step v w)
  have "sleeper_step push_heap pop_heap calm (s\<lparr>base := v\<rparr>) (s\<lparr>base := v\<rparr>\<lparr>base := w\<rparr>)"
    by (rule sl_drive) (simp add: step(2))
  with step(3) show ?case by simp
qed simp

text \<open>The thread runs what it has taken out.\<close>

lemma executor_runs_dry:
  assumes "sch_heap (sc u) = []"
  shows "\<exists>v. (drive pop_heap)\<^sup>*\<^sup>* u v \<and> in_flight v = {#}"
proof (cases "th u")
  case (Rt_exec r)
  from drive_own [OF own_execute [OF this]] assms show ?thesis
    by (intro exI conjI) (rule r_into_rtranclp, assumption, simp add: in_flight_def)
qed (use assms in \<open>auto simp: in_flight_def\<close>)

text \<open>
  C8: no sleeping coroutine is stuck.  From every state of a calm run in which no stop has been
  requested the thread alone, given time, can bring the system to a state in which no sleep is in
  flight and every coroutine has been resumed as often as it has slept.
\<close>

theorem sleepers_all_resumed:
  assumes "std_heap push_heap pop_heap" and "reachable sleeper_init (sleeper_step push_heap pop_heap True) s"
    and "\<not> stop (base s)"
  shows "\<exists>u. (drive pop_heap)\<^sup>*\<^sup>* (base s) u \<and> in_flight u = {#}
       \<and> (\<forall>f. count_list (trace (sch_st (sc u))) (Resume f) = count_list (slept s) f)"
proof -
  note lib = sleep_library_std_heap [OF assms(1)]
  have inv: "calm_inv s"
    by (rule step_invariant.reachable_inv [OF sleep_library.calm_sleepers_inv [OF lib] assms(2)])
  then have awake: "awake_inv (base s)" and no_exit: "th (base s) \<noteq> Rt_exit"
    using assms(3) by (auto simp: calm_inv_def exits_on_stop_def)
  have "\<exists>u. (drive pop_heap)\<^sup>*\<^sup>* (base s) u \<and> sch_heap (sc u) = []"
  proof (cases "th (base s) = Rt_wait")
    case True
    with awake show ?thesis by (auto simp: awake_inv_def)
  next
    case False
    with awake sleep_library.drain_from [OF lib _ no_exit False assms(3)] show ?thesis
      by (auto simp: awake_inv_def)
  qed
  then obtain u v where run: "(drive pop_heap)\<^sup>*\<^sup>* (base s) u" "(drive pop_heap)\<^sup>*\<^sup>* u v" "in_flight v = {#}"
    using executor_runs_dry by blast
  then have run': "(drive pop_heap)\<^sup>*\<^sup>* (base s) v" by simp
  have "calm_inv (s\<lparr>base := v\<rparr>)"
    by (rule step_invariant.steps_inv [OF sleep_library.calm_sleepers_inv [OF lib] drive_runs_sleepers [OF run'] inv])
  then have "awaiters unresolved {#} (slept s) (sch_st (sc v))" by (simp add: calm_inv_def sleepers_inv_def run(3))
  from awaitersD(4) [OF this] run' run(3) show ?thesis by (auto simp: pending_of_def)
qed

theorem sleepers_all_resumed_witness:
  "\<exists>u. (drive sift_pop_heap)\<^sup>*\<^sup>* (base seven_sleeps) u \<and> count_list (trace (sch_st (sc u))) (Resume 7) = 1"
  using sleepers_all_resumed [OF sift.std_heap_axioms seven_sleeps_reachable]
  by (force simp: seven_sleeps_def start_sleepers_def create_thread_def)

section \<open>Destruction\<close>

text \<open>The thread's own steps, as steps of the system.\<close>

lemma own_steps_drive: "(own_step pop_heap ^^ n) u v \<Longrightarrow> (drive pop_heap)\<^sup>*\<^sup>* u v"
  by (induction n arbitrary: v) (auto intro: drive_own rtranclp.rtrancl_into_rtrancl)

text \<open>
  C9: nobody is left suspended when the scheduler is destroyed.  The destructor of the
  \<^verbatim>\<open>jthread\<close> from \<^verbatim>\<open>create_thread\<close> requests a stop and joins: from every state of a calm
  run, unless the thread stands in the gap between its test of the token and its wait (where
  \<open>scheduler_loses_wakeups\<close> shows that the request can be lost), the thread makes at most four
  more steps and has one more until it has left its loop.  Destroying the scheduler then
  resolves every result still in the heap, in whatever order, and every coroutine has been
  resumed as often as it has slept.
\<close>

theorem destroyed_scheduler_resumes_all:
  assumes "std_heap push_heap pop_heap" and "reachable sleeper_init (sleeper_step push_heap pop_heap True) s"
    and "th (base s) \<noteq> Rt_checked" and "(own_step pop_heap ^^ n) (request_stop_on (base s)) u"
  shows "n \<le> 4 \<and> (th u = Rt_exit \<or> (\<exists>v. own_step pop_heap u v))
       \<and> (th u = Rt_exit \<and> mset hs = mset (sch_heap (sc u)) \<longrightarrow>
            count_list (trace (scheduler_dtor hs (sc u))) (Resume f) = count_list (slept s) f)"
proof -
  note lib = sleep_library_std_heap [OF assms(1)]
  let ?t = "s\<lparr>base := request_stop_on (base s)\<rparr>"
  have "reachable sleeper_init (sleeper_step push_heap pop_heap True) ?t"
    by (rule reachable.next_step [OF assms(2)]) (use assms(3) in \<open>auto intro: sl_request_stop\<close>)
  then have inv: "calm_inv ?t"
    by (rule step_invariant.reachable_inv [OF sleep_library.calm_sleepers_inv [OF lib]])
  have "stop (request_stop_on (base s))" by (simp add: request_stop_on_def)
  with stop_ends_awake [OF assms(1) _ _ assms(4)] inv
  have ends: "n \<le> 4 \<and> (th u = Rt_exit \<or> (\<exists>v. own_step pop_heap u v))" by (simp add: calm_inv_def)
  have "(drive pop_heap)\<^sup>*\<^sup>* (base ?t) u" using own_steps_drive [OF assms(4)] by simp
  then have "calm_inv (?t\<lparr>base := u\<rparr>)"
    by (rule step_invariant.steps_inv [OF sleep_library.calm_sleepers_inv [OF lib] drive_runs_sleepers inv])
  then have st: "awaiters unresolved (in_flight u) (slept s) (sch_st (sc u))" by (simp add: calm_inv_def sleepers_inv_def)
  have "awaiters unresolved {#} (slept s) (scheduler_dtor hs (sc u))" if "th u = Rt_exit" "mset hs = mset (sch_heap (sc u))"
    unfolding scheduler_dtor_def
    by (rule sleepers_results_dtor) (use st that in \<open>simp add: in_flight_def\<close>)
  from awaitersD(4) [OF this] ends show ?thesis by (simp add: pending_of_def)
qed

text \<open>The thread of that scheduler is stopped before it has taken the mutex.\<close>

lemma seven_sleeps_stopped:
  "(own_step sift_pop_heap ^^ 2) (request_stop_on (base seven_sleeps)) ((request_stop_on (base seven_sleeps))\<lparr>th := Rt_exit\<rparr>)"
proof -
  let ?u = "request_stop_on (base seven_sleeps)"
  have "th ?u = Rt_woken" by (simp add: seven_sleeps_def start_sleepers_def create_thread_def)
  then have "own_step sift_pop_heap ?u (?u\<lparr>th := Rt_loop\<rparr>)" by (rule own_acquire)
  moreover have "own_step sift_pop_heap (?u\<lparr>th := Rt_loop\<rparr>) (?u\<lparr>th := Rt_loop\<rparr>\<lparr>th := Rt_exit\<rparr>)"
    by (rule own_stop_seen) (simp_all add: request_stop_on_def)
  ultimately show ?thesis by (auto simp: numeral_2_eq_2)
qed

theorem destroyed_scheduler_resumes_all_witness:
  "count_list (trace (scheduler_dtor (sch_heap (sc (base seven_sleeps))) (sc (base seven_sleeps)))) (Resume 7) = 1"
  using destroyed_scheduler_resumes_all
    [OF sift.std_heap_axioms seven_sleeps_reachable _ seven_sleeps_stopped, of "sch_heap (sc (base seven_sleeps))" 7]
  by (simp add: seven_sleeps_def start_sleepers_def create_thread_def)

end
