(* ===== verification/Manual_Scheduler.thy ===== *)
theory Manual_Scheduler
  imports Scheduler
begin

text \<open>
  \<^verbatim>\<open>manual_scheduler\<close> of \<^verbatim>\<open>coro_scheduler.h\<close>, a scheduler for one thread with a clock
  of its own.  The client takes the sleepers out; \<^verbatim>\<open>advance_time_until\<close> and
  \<^verbatim>\<open>sleep_for_alertable\<close> cannot be instantiated and have no behaviour.
\<close>

record manual_scheduler =
  man_now :: int
  man_heap :: sleep_heap
  man_flags :: "nat \<Rightarrow> bool"
  man_st :: "unit store"

definition manual_sleep_until ::
    "(sleep_heap \<Rightarrow> sleep_heap) \<Rightarrow> int \<Rightarrow> nat \<Rightarrow> awaitable_result \<Rightarrow> manual_scheduler \<Rightarrow> manual_scheduler" where
  "manual_sleep_until push_heap tp i r m = m\<lparr>man_heap := schedule_at push_heap r tp i (man_heap m)\<rparr>"

definition manual_sleep_for ::
    "(sleep_heap \<Rightarrow> sleep_heap) \<Rightarrow> int \<Rightarrow> nat \<Rightarrow> awaitable_result \<Rightarrow> manual_scheduler \<Rightarrow> manual_scheduler" where
  "manual_sleep_for push_heap dur i r m = manual_sleep_until push_heap (man_now m + dur) i r m"

definition manual_first_time :: "manual_scheduler \<Rightarrow> int option" where
  "manual_first_time m = get_first_scheduled_time (man_heap m)"

definition manual_remove_first ::
    "(sleep_heap \<Rightarrow> sleep_heap) \<Rightarrow> manual_scheduler \<Rightarrow> awaitable_result \<times> manual_scheduler" where
  "manual_remove_first pop_heap m =
     (let (r, h) = remove_first pop_heap (man_heap m) in (r, m\<lparr>man_heap := h\<rparr>))"

definition manual_remove_by_ident ::
    "(sleep_heap \<Rightarrow> sleep_heap) \<Rightarrow> nat \<Rightarrow> manual_scheduler \<Rightarrow> awaitable_result \<times> manual_scheduler" where
  "manual_remove_by_ident pop_heap i m =
     (let (r, h) = remove_by_ident pop_heap i (man_heap m) in (r, m\<lparr>man_heap := h\<rparr>))"

definition manual_cancel_exception ::
    "(sleep_heap \<Rightarrow> sleep_heap) \<Rightarrow> nat \<Rightarrow> exn \<Rightarrow> manual_scheduler \<Rightarrow> prepared_coro \<times> manual_scheduler" where
  "manual_cancel_exception pop_heap i e m =
     (let (r, m1) = manual_remove_by_ident pop_heap i m;
          (pc, r', s) = result_assign_exception r e (man_st m1)
      in (pc, m1\<lparr>man_st := result_dtor r' s\<rparr>))"

definition manual_cancel_null ::
    "(sleep_heap \<Rightarrow> sleep_heap) \<Rightarrow> nat \<Rightarrow> manual_scheduler \<Rightarrow> prepared_coro \<times> manual_scheduler" where
  "manual_cancel_null pop_heap i m =
     (let (r, m1) = manual_remove_by_ident pop_heap i m;
          (pc, r', s) = result_assign_nullopt r (man_st m1)
      in (pc, m1\<lparr>man_st := result_dtor r' s\<rparr>))"

text \<open>\<^verbatim>\<open>alert\<close> uses the system clock \<open>now\<close>, not the clock of the object.\<close>

definition manual_alert :: "nat \<Rightarrow> int \<Rightarrow> manual_scheduler \<Rightarrow> manual_scheduler" where
  "manual_alert a now m =
     m\<lparr>man_flags := (man_flags m)(a := True), man_heap := snd (set_time a now (man_heap m))\<rparr>"

definition manual_current_time :: "manual_scheduler \<Rightarrow> int" where
  "manual_current_time m = man_now m"

section \<open>Cancelling a sleeper\<close>

text \<open>A sleeper's result is unused: its awaitable waits with a closure, or is detached.\<close>

definition sleepers_wait :: "manual_scheduler \<Rightarrow> bool" where
  "sleepers_wait m \<longleftrightarrow> (\<forall>x \<in> set (man_heap m). \<forall>p. res x = Some p \<longrightarrow> dispatched (state_of (man_st m) p))"

text \<open>Both cancellations: take the result out, then use it for the operation \<open>x\<close>.\<close>

definition cancel_with ::
    "(sleep_heap \<Rightarrow> sleep_heap) \<Rightarrow> unit result_op \<Rightarrow> nat \<Rightarrow> manual_scheduler \<Rightarrow> prepared_coro \<times> manual_scheduler" where
  "cancel_with pop_heap x i m =
     (let (r, m1) = manual_remove_by_ident pop_heap i m; (pc, r', s) = result_step r x (man_st m1)
      in (pc, m1\<lparr>man_st := result_dtor r' s\<rparr>))"

lemma manual_cancel_eq:
  "manual_cancel_exception pop_heap i e m = cancel_with pop_heap (R_assign_exception e) i m"
  "manual_cancel_null pop_heap i m = cancel_with pop_heap R_assign_nullopt i m"
  by (simp_all add: manual_cancel_exception_def manual_cancel_null_def cancel_with_def)

lemma cancel_with_out:
  assumes "remove_by_ident pop_heap i (man_heap m) = (r, h)"
  shows "r = None \<Longrightarrow> cancel_with pop_heap x i m = (prepared_empty, m\<lparr>man_heap := h\<rparr>)"
    and "r = Some p \<Longrightarrow> dispatched (state_of (man_st m) p) \<Longrightarrow>
      cancel_with pop_heap x i m
      = (prepared_of (owner_of (man_st m) p), m\<lparr>man_heap := h, man_st := resolved p (op_state x) (man_st m)\<rparr>)"
  using assms
  by (simp_all add: cancel_with_def manual_remove_by_ident_def result_step_used result_step_resolves result_dtor_def)

text \<open>What is left of the sleeper \<open>y\<close>: its awaitable is resolved and its owner is handed out.\<close>

definition sleeper_resolved ::
    "unit aw_state \<Rightarrow> (awt_ptr, nat) heap_item \<Rightarrow> manual_scheduler \<Rightarrow> prepared_coro \<times> manual_scheduler \<Rightarrow> bool" where
  "sleeper_resolved st y m out \<longleftrightarrow>
     is_heap (man_heap (snd out)) \<and> mset (man_heap m) = add_mset y (mset (man_heap (snd out)))
     \<and> (case res y of
          None \<Rightarrow> fst out = prepared_empty \<and> man_st (snd out) = man_st m
        | Some p \<Rightarrow> fst out = prepared_of (owner_of (man_st m) p)
                  \<and> man_st (snd out) = resolved p st (man_st m))"

lemma cancel_with_exact:
  assumes "std_heap push_heap pop_heap" and "is_heap (man_heap m)" and "sleepers_wait m"
  shows "if \<exists>y \<in> set (man_heap m). ident y = i
     then \<exists>y \<in> set (man_heap m). ident y = i \<and> sleeper_resolved (op_state x) y m (cancel_with pop_heap x i m)
     else cancel_with pop_heap x i m = (prepared_empty, m)"
proof -
  obtain r h where rem: "remove_by_ident pop_heap i (man_heap m) = (r, h)" by fastforce
  note step = std_heap.heap_remove_by_ident [OF assms(1,2) rem]
  show ?thesis
  proof (cases "\<exists>y \<in> set (man_heap m). ident y = i")
    case True
    from conjunct2 [OF step] obtain y where y: "y \<in> set (man_heap m)" "ident y = i" "r = res y"
        "mset (man_heap m) = add_mset y (mset h)"
      unfolding if_P [OF True] by blast
    have "sleeper_resolved (op_state x) y m (cancel_with pop_heap x i m)"
    proof (cases r)
      case None
      have "res y = None" using y(3) None by simp
      with y(4) conjunct1 [OF step] cancel_with_out(1) [OF rem None] show ?thesis
        by (simp add: sleeper_resolved_def)
    next
      case (Some p)
      with y(1,3) assms(3) have "dispatched (state_of (man_st m) p)" by (auto simp: sleepers_wait_def)
      moreover have "res y = Some p" using y(3) Some by simp
      ultimately show ?thesis using y(4) conjunct1 [OF step] cancel_with_out(2) [OF rem Some]
        by (simp add: sleeper_resolved_def)
    qed
    with True y show ?thesis by auto
  next
    case False
    have "r = None \<and> h = man_heap m" using conjunct2 [OF step] unfolding if_not_P [OF False] .
    with False cancel_with_out(1) [OF rem] show ?thesis by simp
  qed
qed

text \<open>
  Cancelling by an identity is exact.  When a sleeper has the identity, exactly one such
  sleeper leaves the heap, its awaitable is resolved with the exception (or with no value) and
  its coroutine is handed out to be resumed; when there is none, nothing changes and the
  returned coroutine is empty.
\<close>

lemma manual_cancel_exact:
  assumes "std_heap push_heap pop_heap" and "is_heap (man_heap m)" and "sleepers_wait m"
  shows "(if \<exists>y \<in> set (man_heap m). ident y = i
          then \<exists>y \<in> set (man_heap m). ident y = i
             \<and> sleeper_resolved (Exception e) y m (manual_cancel_exception pop_heap i e m)
          else manual_cancel_exception pop_heap i e m = (prepared_empty, m))
       \<and> (if \<exists>y \<in> set (man_heap m). ident y = i
          then \<exists>y \<in> set (man_heap m). ident y = i
             \<and> sleeper_resolved No_value y m (manual_cancel_null pop_heap i m)
          else manual_cancel_null pop_heap i m = (prepared_empty, m))"
  using cancel_with_exact [OF assms, of i "R_assign_exception e"] cancel_with_exact [OF assms, of i R_assign_nullopt]
  unfolding manual_cancel_eq op_state.simps by (rule conjI)

definition one_manual_sleeper :: manual_scheduler where
  "one_manual_sleeper =
     \<lparr>man_now = 0, man_heap = [\<lparr>timestamp = 3, res = Some 1, ident = 7\<rparr>], man_flags = (\<lambda>_. False),
      man_st = \<lparr>awts = (\<lambda>_. \<lparr>a_state = Callback 0, a_owner = Coro 5\<rparr>), frames = [], cur_exn = None, trace = []\<rparr>\<rparr>"

lemma manual_cancel_exact_at_input:
  "fst (manual_cancel_null sift_pop_heap 7 one_manual_sleeper) = prepared_of (Coro 5)
   \<and> manual_cancel_null sift_pop_heap 8 one_manual_sleeper = (prepared_empty, one_manual_sleeper)"
proof -
  have ok: "is_heap (man_heap one_manual_sleeper)" "sleepers_wait one_manual_sleeper"
    by (simp_all add: one_manual_sleeper_def is_heap_def sleepers_wait_def)
  show ?thesis
    using manual_cancel_exact [OF sift.std_heap_axioms ok, of 7 invalid_state]
      manual_cancel_exact [OF sift.std_heap_axioms ok, of 8 invalid_state]
    by (simp add: one_manual_sleeper_def sleeper_resolved_def)
qed

end
