(* ===== verification/Spec2Isabelle.thy ===== *)
theory Spec2Isabelle
  imports Guards Mutex_Await Multi_Lock Closures Callback_Alloc When_Join Async_Generator Queue_Ops Dist_Listen
    Sched_Sleepers Manual_Scheduler
begin

text \<open>
  A verification of minicoro, a header-only C++20 library for coroutines.

  \<^bold>\<open>The program.\<close>  An \<^verbatim>\<open>awaitable<T>\<close> is a place for a result that may come later: it
  holds a value, an exception, nothing, or the operation that will produce one (a coroutine
  that is not started, or a closure).  Whoever awaits on it registers a coroutine handle and
  starts the operation with an \<^verbatim>\<open>awaitable_result<T>\<close>, the right to resolve the awaitable
  once.  Resuming a coroutine is itself a value, \<^verbatim>\<open>prepared_coro\<close>, so that it can be done
  after locks are released.  Everything else is built on these three: the coroutine promise, the
  mutex, the queue, the distributor, the generator, the schedulers, the joins
  \<^verbatim>\<open>when_all\<close> and \<^verbatim>\<open>when_each\<close>, callbacks and synchronous waiting.

  \<^bold>\<open>The theories\<close>, in the order of their dependence, with the code each one models.
  \<^item> \<open>Prelude\<close>: exceptions and failures, reachability of a step relation and the locale
    \<open>step_invariant\<close> that every concurrent component interprets.
  \<^item> \<open>Guards\<close> (\<^verbatim>\<open>coroutine.h\<close>): \<^verbatim>\<open>lock_guard\<close>, \<^verbatim>\<open>empty_lockable\<close> and
    \<^verbatim>\<open>on_destroy\<close>; the locale \<open>basic_lock\<close>, interpreted on a mutex beside a state, and the
    fact that operations under the guard run as the sequence of the operations.
  \<^item> \<open>Prepared_Coro\<close> (\<^verbatim>\<open>coroutine.h\<close>): handles, \<^verbatim>\<open>prepared_coro\<close>,
    \<^verbatim>\<open>call_await_suspend\<close>.  What is done with handles is a trace of events.
  \<^item> \<open>Awaitable\<close>, \<open>Coroutine_Class\<close>, \<open>Await_Ops\<close>, \<open>Await_Facts\<close> (\<^verbatim>\<open>coroutine.h\<close>):
    awaitables, result objects, coroutine frames and their promises in one store, since they
    point at each other.  The closures of the client are a parameter of the operations that call
    them; \<open>Closures\<close> has the constructors and gives the parameter its meaning for the function
    objects that use, keep, return or let go their result.  A result is delivered exactly once; every sequence of operations keeps each unstarted
    coroutine live and owned by one object; \<^verbatim>\<open>co_await\<close> on a coroutine gives its outcome;
    a destroyed coroutine cancels, a detached one destroys itself;
    \<^verbatim>\<open>co_await\<close> on a function object continues the caller exactly once.
  \<^item> \<open>Awaiters\<close>: coroutines that wait for results which a component holds; the locale
    \<open>awaiting\<close> has what the scheduler, the distributor and the mutex share (every use of a
    result ends one wait with one resumption); it is interpreted there and in \<open>Mutex_Await\<close>.
  \<^item> \<open>Callbacks\<close>, \<open>Callback_Alloc\<close> (\<^verbatim>\<open>coroutine.h\<close>): \<^verbatim>\<open>set_callback\<close>,
    \<^verbatim>\<open>awaiting_callback\<close>, \<^verbatim>\<open>await_member_callback\<close>.  A callback is called exactly once and
    freed; the overloads with an allocator, over the memory, give its block back.
  \<^item> \<open>Sync_Await\<close> (\<^verbatim>\<open>coroutine.h\<close>, \<^verbatim>\<open>coro_scheduler.h\<close>): \<^verbatim>\<open>coro_frame\<close> and the
    frames derived from it, \<^verbatim>\<open>wait\<close>, \<^verbatim>\<open>sync_await\<close>, the entry of
    \<^verbatim>\<open>scheduler::await\<close>.  A waiting thread gets what was set; a refused suspension blocks
    it forever.
  \<^item> \<open>Frame_Memory\<close>, \<open>Coroutine_Alloc\<close> (\<^verbatim>\<open>coroutine.h\<close>): \<^verbatim>\<open>objstdalloc\<close> and
    \<^verbatim>\<open>reusable_allocator\<close> over a memory whose allocation may fail; coroutines whose frames are
    placed by an allocator, and the cycle of calls that reuses one block.
  \<^item> \<open>When_All\<close>, \<open>When_Each\<close>, \<open>When_Join\<close> (\<^verbatim>\<open>coroutine.h\<close>): the joins, with
    completions from any thread interleaved with the owner; their counters, and the places of
    \<^verbatim>\<open>when_each\<close>, are 32-bit words.  A consumer of \<^verbatim>\<open>when_each\<close> that is resumed inside its
    own \<^verbatim>\<open>await_suspend\<close> is astray: the run is followed up to there, and a theorem shows what it
    has then read.  \<open>When_Join\<close> has the constructors, which run the awaiters' \<^verbatim>\<open>await_suspend\<close>
    and what they start (the coroutines of the outside are a parameter) before they go on, and lead to
    states of the concurrent systems, and the destructors, whose loop ends once every operation is
    complete.
  \<^item> \<open>Coro_Mutex\<close>, \<open>Mutex_Fifo\<close>, \<open>Mutex_Steps\<close>, \<open>Mutex_Await\<close>, \<open>Multi_Lock\<close> (\<^verbatim>\<open>coro_mutex.h\<close>): the
    operations as compositions of the atomic accesses of the code; the contract
    \<open>fifo_lock\<close> of an uncontended mutex, interpreted on the linked slots; any number of threads
    interleaving their atomic accesses, with mutual exclusion, the end of the loops and the
    service of every request in calm schedules, and a schedule in which the mutex breaks; the same
    with the awaitables, so that in calm schedules a coroutine that awaits the
    lock is resumed exactly once, as the only owner, and never waits in vain; locking several mutexes, with the retreat that waits for the wrong
    one.
  \<^item> \<open>Coro_Queue\<close>, \<open>Queue_Ops\<close> (\<^verbatim>\<open>coro_queue.h\<close>): the ring buffer with its 32-bit
    counters as an implementation of the contract \<open>bounded_queue\<close>, the list of waiting slots,
    \<^verbatim>\<open>pop2\<close> and \<^verbatim>\<open>set_closed\<close>, where what is left of a moved \<^verbatim>\<open>std::exception_ptr\<close> is
    a parameter.
  \<^item> \<open>Distributor\<close>, \<open>Dist_Listen\<close> (\<^verbatim>\<open>coro_distributor.h\<close>, \<^verbatim>\<open>alert_flag.h\<close>): registration,
    broadcast, removal by identity and alerts.  A broadcast reaches every listener once, in an
    order that the standard leaves open; a coroutine that listens is resumed exactly once for each
    time it has listened.
  \<^item> \<open>Async_Generator\<close> (\<^verbatim>\<open>async_generator.h\<close>): the promise, calls, iterators; the body
    of the generator is a parameter.  The calls refine the sequence of what the body does, and a
    range-based loop reads it up to the end or the first exception.
  \<^item> \<open>Sched_Heap\<close>, \<open>Timer_Queue\<close>, \<open>Scheduler\<close>, \<open>Sched_Live\<close>, \<open>Sched_Await\<close>,
    \<open>Sched_Sleepers\<close>, \<open>Manual_Scheduler\<close> (\<^verbatim>\<open>coro_scheduler.h\<close>): the binary heap and the contract \<open>timer_queue\<close> it meets for every
    standard library that meets \<open>std_heap\<close>; the scheduler's thread with its mutex, condition
    variable and stop token, and its clients, as steps; its progress by steps of its own (every
    sleeper can be run, a stop request ends the thread within four steps, both in calm schedules);
    \<^verbatim>\<open>scheduler::await\<close>
    as one system with the frame that requests the stop; the coroutines that sleep on the
    scheduler, each resumed exactly once for each sleep, at the latest when the thread has ended
    and the scheduler is destroyed; the scheduler without a thread.

  \<^bold>\<open>Interleavings.\<close>  A step of a concurrent component is one atomic access, or one section
  under a mutex, so every order of such accesses is covered; memory is sequentially consistent
  (the relaxed orders of the code are not modelled as weaker).  Where the code is correct only
  for some interleavings the step relation has a parameter \<open>calm\<close>: \<open>calm = False\<close> gives all the
  schedules of the code, \<open>calm = True\<close> leaves out the window in question.  The code enforces none
  of these restrictions.  A theorem that needs one says so, and a separate theorem shows what
  happens without it.
  \<^item> \<^verbatim>\<open>coro_mutex\<close>: no list of requests is taken over while a thread stands between the exchange
    and the test of \<^verbatim>\<open>add_request\<close>.  Mutual exclusion, the end of the loops and the service of
    the waiting coroutines need it; \<open>late_test_breaks_mutex\<close> is the rest.
  \<^item> \<^verbatim>\<open>when_each\<close>: nothing completes between \<^verbatim>\<open>await_ready\<close> and \<^verbatim>\<open>await_suspend\<close>.
    Without it the claims hold until the consumer is astray; \<open>when_each_loses_operation\<close>.
  \<^item> \<^verbatim>\<open>scheduler\<close>: no alertable sleep meets an empty heap, and no stop is requested between the
    thread's test of the token and its wait.  That each sleeper is resumed once holds without it;
    that it is resumed in time, and that a stop ends the thread, needs it;
    \<open>scheduler_loses_wakeups\<close>.

  \<^bold>\<open>Loops, bounds, undefined behaviour.\<close>  No definition uses fuel that could run out: loops over
  the heap and the join of \<^verbatim>\<open>when_each\<close> terminate by a measure, loops over linked lists are partial functions with the value
  \<open>None\<close> for a loop that does not end or that follows the null pointer (and are shown to end in
  every reachable state), the loops with a known number of iterations recurse over it.  Counters
  of 32 bits are words.  Dereferencing null, throwing and terminating are values of
  \<open>cpp_error\<close>.  Times are unbounded integers.

  \<^bold>\<open>Parameters.\<close>  \<^verbatim>\<open>std::push_heap\<close> and \<^verbatim>\<open>std::pop_heap\<close> with the requirements of
  the C++ standard; the client's closures, callback functions, coroutine bodies and the handler
  for unhandled exceptions; the order in which a vector destroys its elements; a moved-from
  \<^verbatim>\<open>std::exception_ptr\<close>.

  \<^bold>\<open>Not modelled.\<close>  \<^verbatim>\<open>unlock_on_suspend\<close> (\<^verbatim>\<open>coroutine_mt.h\<close>), \<^verbatim>\<open>push\<close>,
  \<^verbatim>\<open>pop\<close> and \<^verbatim>\<open>clear\<close> of \<^verbatim>\<open>coro_basic_queue\<close>, and
  \<^verbatim>\<open>manual_scheduler::advance_time_until\<close> with \<^verbatim>\<open>sleep_for_alertable\<close> cannot be
  instantiated, so they have no behaviour; the body of \<^verbatim>\<open>generator_agregator\<close> is commented
  out; the overloads of \<^verbatim>\<open>cancel\<close> with a value have no admissible argument.  The concepts and
  type aliases select overloads at compile time.  Threads are the standard
  library's; \<^verbatim>\<open>create_thread\<close> is modelled for the default executor, the overload that takes an
  executor calls the client's function in its place.  A client that takes a result out of a scheduler
  uses it in the same step.  In \<^verbatim>\<open>multi_lock\<close> the awaitable of the member callback is represented by its slot
  in the mutex.  The tests only call the library.
\<close>

end
